(* ===== verification/MuxPrelude.thy ===== *)
theory MuxPrelude
  imports Main "HOL-Library.Word" "HOL-Library.Multiset"
begin

text \<open>
  What every component shares: Go strings as byte lists, the operations of package
  \<open>strings\<close> the router calls, panics as values, and lemmas on lists the component
  proofs use. A Go string is a sequence of bytes and an Isabelle \<open>char\<close> is one byte,
  so \<open>string\<close> models it exactly: \<open>len(s)\<close> is \<open>length s\<close> and \<open>s[i:j]\<close> is
  \<open>take (j - i) (drop i s)\<close> where Go does not panic.
\<close>

named_theorems lookup_defs \<open>definitions of one step of the tree lookups\<close>
named_theorems insert_defs \<open>definitions of one step of the tree insertion\<close>

section \<open>Panics\<close>

text \<open>
  One constructor per \<open>panic\<close> of the sources, with the strings its message carries, and
  one each for the run-time panics the code could hit (an index or a slice out of range, a nil
  dereference, a failed type assertion). \<open>HandlerPanic\<close> is a panic raised by application code.
\<close>

datatype goPanic =
    IndexOutOfRange
  | NilDereference
  | TypeAssertion
  | InvalidNodeType
  | TooManyOptional string nat
  | UnclosedOptional string
  | ConsecutiveOptional string
  | InvalidUTF8 string
  | WildcardConflict string string string
  | DuplicateHandler string
  | RegexUnclosed string
  | OneWildcardPerSegment string
  | WildcardUnnamed string
  | RegexNeedsColon string
  | InvalidRegexp string
  | RegexNameTooLong string
  | CatchAllNotAtEnd string
  | CatchAllConflict string
  | CatchAllNeedsSlash string
  | EmptyMethod
  | PathWithoutSlash string
  | NilHandler
  | UnsupportedMethod string
  | FastWithMiddleware
  | FastOnGroupWithMiddleware
  | MountNilHandler
  | MountPrefixWithoutSlash
  | MountInvalidUTF8
  | MountOptionalLast string
  | ServeFilesNilRoot
  | ServeFilesRawPath
  | ServeFilesPrefix string
  | NilError
  | BadConfig string
  | HandlerPanic string

text \<open>Sequencing of computations that may panic: the first panic wins.\<close>

definition bindP :: "goPanic + 'a \<Rightarrow> ('a \<Rightarrow> goPanic + 'b) \<Rightarrow> goPanic + 'b" where
  "bindP m k = (case m of Inl e \<Rightarrow> Inl e | Inr x \<Rightarrow> k x)"

lemma bindP_simps [simp]: "bindP (Inl e) k = Inl e" "bindP (Inr x) k = k x"
  by (simp_all add: bindP_def)

lemma bindP_Inr_iff: "bindP m k = Inr y \<longleftrightarrow> (\<exists>x. m = Inr x \<and> k x = Inr y)"
  by (cases m) simp_all

section \<open>Operations of package strings\<close>

definition hasPrefix :: "string \<Rightarrow> string \<Rightarrow> bool" where
  "hasPrefix s p \<longleftrightarrow> take (length p) s = p"

definition hasSuffix :: "string \<Rightarrow> string \<Rightarrow> bool" where
  "hasSuffix s p \<longleftrightarrow> length p \<le> length s \<and> drop (length s - length p) s = p"

text \<open>\<open>strings.Index\<close>, \<open>strings.LastIndex\<close> and their byte versions; -1 is None.\<close>

fun strIndex :: "string \<Rightarrow> string \<Rightarrow> nat option" where
  "strIndex [] p = (if p = [] then Some 0 else None)"
| "strIndex (c # s) p =
     (if hasPrefix (c # s) p then Some 0 else map_option Suc (strIndex s p))"

fun strLastIndex :: "string \<Rightarrow> string \<Rightarrow> nat option" where
  "strLastIndex [] p = (if p = [] then Some 0 else None)"
| "strLastIndex (c # s) p =
     (case strLastIndex s p of
        Some i \<Rightarrow> Some (Suc i)
      | None \<Rightarrow> if hasPrefix (c # s) p then Some 0 else None)"

fun findIdx :: "('a \<Rightarrow> bool) \<Rightarrow> 'a list \<Rightarrow> nat option" where
  "findIdx P [] = None"
| "findIdx P (x # xs) = (if P x then Some 0 else map_option Suc (findIdx P xs))"

definition indexByte :: "string \<Rightarrow> char \<Rightarrow> nat option" where
  "indexByte s c = findIdx (\<lambda>x. x = c) s"

fun lastIndexByte :: "string \<Rightarrow> char \<Rightarrow> nat option" where
  "lastIndexByte [] c = None"
| "lastIndexByte (x # s) c =
     (case lastIndexByte s c of
        Some i \<Rightarrow> Some (Suc i)
      | None \<Rightarrow> if x = c then Some 0 else None)"

text \<open>\<open>strings.TrimRight(s, "c")\<close>, \<open>strings.TrimPrefix\<close> and \<open>strings.Cut\<close> at a byte.\<close>

definition trimRight :: "string \<Rightarrow> char \<Rightarrow> string" where
  "trimRight s c = rev (dropWhile (\<lambda>x. x = c) (rev s))"

definition trimPrefix :: "string \<Rightarrow> string \<Rightarrow> string" where
  "trimPrefix s p = (if hasPrefix s p then drop (length p) s else s)"

fun cutByte :: "string \<Rightarrow> char \<Rightarrow> string \<times> string \<times> bool" where
  "cutByte [] c = ([], [], False)"
| "cutByte (x # s) c =
     (if x = c then ([], s, True)
      else let (a, b, f) = cutByte s c in (x # a, b, f))"

fun joinStr :: "string \<Rightarrow> string list \<Rightarrow> string" where
  "joinStr sep [] = []"
| "joinStr sep [s] = s"
| "joinStr sep (s # t # ss) = s @ sep @ joinStr sep (t # ss)"

definition byteOf :: "char \<Rightarrow> nat" where
  "byteOf c = of_char c"

section \<open>Lemmas on lists\<close>

lemma findIdx_Some_iff:
  "findIdx P xs = Some i \<longleftrightarrow> i < length xs \<and> P (xs ! i) \<and> (\<forall>j < i. \<not> P (xs ! j))"
proof (induction xs arbitrary: i)
  case (Cons x xs)
  show ?case
    by (cases i) (auto simp: Cons.IH nth_Cons less_Suc_eq_0_disj split: nat.splits)
qed simp

lemma findIdx_None_iff: "findIdx P xs = None \<longleftrightarrow> (\<forall>x \<in> set xs. \<not> P x)"
  by (induction xs) auto

lemma findIdx_SomeD:
  assumes "findIdx P xs = Some i"
  shows "i < length xs" "P (xs ! i)"
  using assms by (auto simp: findIdx_Some_iff)

lemma lastIndexByte_SomeD:
  "lastIndexByte s c = Some i \<Longrightarrow> i < length s \<and> s ! i = c"
  by (induction s arbitrary: i) (auto split: option.splits if_splits)

lemma cutByte_found:
  "cutByte s c = (a, b, True) \<Longrightarrow> s = a @ c # b \<and> c \<notin> set a"
  by (induction s arbitrary: a b) (auto split: if_splits prod.splits)

lemma cutByte_not_found: "cutByte s c = (a, b, False) \<Longrightarrow> a = s \<and> b = [] \<and> c \<notin> set s"
  by (induction s arbitrary: a b) (auto split: if_splits prod.splits)

lemma hasPrefix_append [simp]: "hasPrefix (p @ s) p"
  by (simp add: hasPrefix_def)

lemma hasPrefix_iff: "hasPrefix s p \<longleftrightarrow> (\<exists>t. s = p @ t)"
  by (metis append_eq_conv_conj hasPrefix_def)

lemma strIndex_SomeD:
  "strIndex s p = Some i \<Longrightarrow> i \<le> length s \<and> hasPrefix (drop i s) p"
  by (induction s arbitrary: i) (auto simp: hasPrefix_def split: if_splits)

lemma last_Suc_butlast: "xs \<noteq> [] \<Longrightarrow> mset xs = add_mset (last xs) (mset (butlast xs))"
  by (metis append_butlast_last_id add_mset_add_single mset.simps(1,2) mset_append)

lemma length_1_nth: "length xs = 1 \<Longrightarrow> xs = [xs ! 0]"
  by (cases xs) auto

lemma takeWhile_length_le: "length (takeWhile P xs) \<le> length xs"
  by (induction xs) auto

end
