(* ===== verification/Pattern.thy ===== *)
theory Pattern
  imports MuxPrelude
begin

text \<open>
  The pure string functions of tree.go: the scanner that finds the first wildcard token of a
  pattern, the expansion of optional segments, the counters used at registration, the longest
  common prefix and the (case-folding) prefix comparison, and the UTF-8 test of the standard
  library that registration applies. Each is executable.
\<close>

section \<open>Wildcard tokens\<close>

text \<open>
  The inner loop of \<open>findWildcard\<close> after ':' or '*': the bytes up to the next '/' (or the
  end), and whether none of them starts another wildcard.
\<close>

fun scanName :: "string \<Rightarrow> bool \<Rightarrow> string \<times> bool" where
  "scanName [] valid = ([], valid)"
| "scanName (ch # s) valid =
     (if ch = CHR ''/'' then ([], valid)
      else let (t, v) = scanName s (if ch = CHR '':'' \<or> ch = CHR ''*'' then False else valid)
           in (ch # t, v))"

text \<open>
  \<open>findWildcard path\<close> is \<open>(token, start, valid)\<close>; \<open>start = None\<close> is Go's -1.
  For '{' the token ends at the last '}' of the segment.
\<close>

fun findWildcard :: "string \<Rightarrow> string \<times> nat option \<times> bool" where
  "findWildcard [] = ([], None, False)"
| "findWildcard (c # s) =
     (if c = CHR '':'' \<or> c = CHR ''*'' then
        (let (t, v) = scanName s True in (c # t, Some 0, v))
      else if c = CHR ''{'' then
        (let seg = takeWhile (\<lambda>x. x \<noteq> CHR ''/'') s in
         case lastIndexByte seg (CHR ''}'') of
           None \<Rightarrow> ([], Some 0, False)
         | Some k \<Rightarrow> (c # take (Suc k) seg, Some 0, True))
      else
        (let (t, i, v) = findWildcard s in (t, map_option Suc i, v)))"

definition wildByte :: "char \<Rightarrow> bool" where
  "wildByte c \<longleftrightarrow> c = CHR '':'' \<or> c = CHR ''*'' \<or> c = CHR ''{''"

lemma scanName_takeWhile:
  "scanName s v =
     (takeWhile (\<lambda>x. x \<noteq> CHR ''/'') s,
      v \<and> (\<forall>x \<in> set (takeWhile (\<lambda>x. x \<noteq> CHR ''/'') s). x \<noteq> CHR '':'' \<and> x \<noteq> CHR ''*''))"
  by (induction s arbitrary: v) auto

lemma findWildcard_skip:
  "\<not> wildByte c \<Longrightarrow>
     findWildcard (c # s) = (let (t, i, v) = findWildcard s in (t, map_option Suc i, v))"
  by (simp add: wildByte_def)

lemma findWildcard_colon:
  "c = CHR '':'' \<or> c = CHR ''*'' \<Longrightarrow>
     findWildcard (c # s) =
       (c # takeWhile (\<lambda>x. x \<noteq> CHR ''/'') s, Some 0,
        \<forall>x \<in> set (takeWhile (\<lambda>x. x \<noteq> CHR ''/'') s). x \<noteq> CHR '':'' \<and> x \<noteq> CHR ''*'')"
  by (auto simp: scanName_takeWhile Let_def)

lemma findWildcard_brace:
  "findWildcard (CHR ''{'' # s) =
     (case lastIndexByte (takeWhile (\<lambda>x. x \<noteq> CHR ''/'') s) (CHR ''}'') of
        None \<Rightarrow> ([], Some 0, False)
      | Some k \<Rightarrow> (CHR ''{'' # take (Suc k) (takeWhile (\<lambda>x. x \<noteq> CHR ''/'') s), Some 0, True))"
  by (simp add: Let_def)

declare findWildcard.simps(2) [simp del]

text \<open>A successful scan splits the pattern at its first wildcard byte.\<close>

lemma findWildcard_SomeE:
  assumes "findWildcard p = (t, Some i, v)"
  obtains a c s where "p = a @ c # s" "length a = i" "\<forall>x \<in> set a. \<not> wildByte x"
    "wildByte c" "findWildcard (c # s) = (t, Some 0, v)"
  using assms
proof (induction p arbitrary: i thesis)
  case (Cons c s)
  show ?case
  proof (cases "wildByte c")
    case True
    have "i = 0"
      using Cons.prems(2) True
      by (cases "c = CHR ''{''")
        (auto simp: findWildcard_colon findWildcard_brace wildByte_def split: option.splits)
    then show ?thesis using Cons.prems True by (metis append_Nil empty_iff empty_set list.size(3))
  next
    case False
    then obtain j where j: "i = Suc j" "findWildcard s = (t, Some j, v)"
      using Cons.prems(2) by (auto simp: findWildcard_skip split: prod.splits)
    show ?thesis
    proof (rule Cons.IH [OF _ j(2)])
      fix a d u
      assume *: "s = a @ d # u" "length a = j" "\<forall>x \<in> set a. \<not> wildByte x" "wildByte d"
        "findWildcard (d # u) = (t, Some 0, v)"
      show thesis
        by (rule Cons.prems(1) [of "c # a" d u]) (use * False j in auto)
    qed
  qed
qed simp

lemma findWildcard_None_iff:
  "fst (snd (findWildcard p)) = None \<longleftrightarrow> (\<forall>c \<in> set p. \<not> wildByte c)"
proof (induction p)
  case (Cons c s)
  consider "\<not> wildByte c" | "c = CHR '':'' \<or> c = CHR ''*''" | "c = CHR ''{''"
    by (auto simp: wildByte_def)
  then show ?case
  proof cases
    case 1
    then show ?thesis using Cons by (cases "findWildcard s") (simp add: findWildcard_skip)
  next
    case 2
    then have "wildByte c" by (auto simp: wildByte_def)
    with 2 show ?thesis by (simp add: findWildcard_colon)
  next
    case 3
    then have "wildByte c" by (simp add: wildByte_def)
    with 3 show ?thesis by (simp add: findWildcard_brace split: option.splits)
  qed
qed simp

lemma findWildcard_noneD:
  "findWildcard p = (t, None, v) \<Longrightarrow> \<forall>c \<in> set p. \<not> wildByte c"
  using findWildcard_None_iff [of p] by simp

lemma findWildcard_at_0:
  assumes "findWildcard (c # s) = (t, Some 0, v)" "wildByte c"
  shows "v \<longrightarrow> t \<noteq> []" "t \<noteq> [] \<longrightarrow> (\<exists>u. c # s = t @ u \<and> hd t = c)"
proof -
  let ?seg = "takeWhile (\<lambda>x. x \<noteq> CHR ''/'') s"
  obtain r where r: "s = ?seg @ r" by (metis takeWhile_dropWhile_id)
  consider "t = c # ?seg" | "t = []" "\<not> v" | k where "t = c # take k ?seg"
  proof (cases "c = CHR ''{''")
    case True
    then show ?thesis
      using assms(1) that by (auto simp: findWildcard_brace split: option.splits)
  next
    case False
    then have "c = CHR '':'' \<or> c = CHR ''*''" using assms(2) by (simp add: wildByte_def)
    then show ?thesis using assms(1) that(1) by (simp add: findWildcard_colon)
  qed
  then have "(v \<longrightarrow> t \<noteq> []) \<and> (t \<noteq> [] \<longrightarrow> (\<exists>u. c # s = t @ u \<and> hd t = c))"
  proof cases
    case 1
    then have "c # s = t @ r" using r by simp
    with 1 show ?thesis by auto
  next
    case 3
    then have "c # s = t @ drop k ?seg @ r"
      using r by (metis append_Cons append_assoc append_take_drop_id)
    with 3 show ?thesis by auto
  qed simp
  then show "v \<longrightarrow> t \<noteq> []" "t \<noteq> [] \<longrightarrow> (\<exists>u. c # s = t @ u \<and> hd t = c)" by auto
qed

lemma findWildcard_split:
  assumes "findWildcard p = (t, Some i, v)"
  shows "i < length p" "wildByte (p ! i)" "\<forall>c \<in> set (take i p). \<not> wildByte c"
    "t \<noteq> [] \<Longrightarrow> take (length t) (drop i p) = t \<and> hd t = p ! i"
    "v \<Longrightarrow> t \<noteq> []" "i + length t \<le> length p"
proof -
  obtain a c s where p: "p = a @ c # s" "length a = i" "\<forall>x \<in> set a. \<not> wildByte x"
    "wildByte c" and f: "findWildcard (c # s) = (t, Some 0, v)"
    using assms by (rule findWildcard_SomeE)
  note at0 = findWildcard_at_0 [OF f \<open>wildByte c\<close>]
  show "i < length p" "wildByte (p ! i)" "\<forall>c \<in> set (take i p). \<not> wildByte c"
    using p by auto
  show "v \<Longrightarrow> t \<noteq> []" using at0(1) by simp
  show "t \<noteq> [] \<Longrightarrow> take (length t) (drop i p) = t \<and> hd t = p ! i"
    using at0(2) p by (auto simp: nth_append)
  show "i + length t \<le> length p"
  proof (cases "t = []")
    case False
    then obtain u where "c # s = t @ u" using at0(2) by blast
    then show ?thesis using p(1,2) by simp
  qed (use p in simp)
qed

text \<open>The token after ':' or '*' is the byte with the rest of its segment.\<close>

lemma findWildcard_name:
  assumes "findWildcard p = (t, Some i, v)" "p ! i \<noteq> CHR ''{''"
  shows "t = takeWhile (\<lambda>x. x \<noteq> CHR ''/'') (drop i p)"
    "v \<longleftrightarrow> (\<forall>x \<in> set (tl t). x \<noteq> CHR '':'' \<and> x \<noteq> CHR ''*'')"
proof -
  obtain a c s where p: "p = a @ c # s" "length a = i" "wildByte c"
    and f: "findWildcard (c # s) = (t, Some 0, v)"
    using assms(1) by (rule findWildcard_SomeE)
  let ?seg = "takeWhile (\<lambda>x. x \<noteq> CHR ''/'') s"
  have "p ! i = c" using p by (simp add: nth_append)
  then have c: "c = CHR '':'' \<or> c = CHR ''*''"
    using assms(2) p(3) by (simp add: wildByte_def)
  then have "c \<noteq> CHR ''/''" by auto
  then have tw: "takeWhile (\<lambda>x. x \<noteq> CHR ''/'') (drop i p) = c # ?seg"
    using p by simp
  have "(t, Some (0::nat), v) =
      (c # ?seg, Some 0, \<forall>x \<in> set ?seg. x \<noteq> CHR '':'' \<and> x \<noteq> CHR ''*'')"
    unfolding f [symmetric] by (rule findWildcard_colon [OF c])
  then have "t = c # ?seg" "v = (\<forall>x \<in> set ?seg. x \<noteq> CHR '':'' \<and> x \<noteq> CHR ''*'')"
    by (simp_all only: prod.inject)
  with tw show "t = takeWhile (\<lambda>x. x \<noteq> CHR ''/'') (drop i p)"
    "v \<longleftrightarrow> (\<forall>x \<in> set (tl t). x \<noteq> CHR '':'' \<and> x \<noteq> CHR ''*'')"
    by (simp_all only: list.sel)
qed

section \<open>Counting tokens\<close>

text \<open>
  The loop of \<open>countPatternParams\<close>: skip past each token. The slice cannot run past the
  end, because the token lies inside the pattern.
\<close>

function countPatternParams :: "string \<Rightarrow> nat" where
  "countPatternParams p =
     (case findWildcard p of
        (wc, None, _) \<Rightarrow> 0
      | (wc, Some i, _) \<Rightarrow> Suc (countPatternParams (drop (i + max (length wc) 1) p)))"
  by pat_completeness auto
termination
  by (relation "measure length") (auto dest!: sym [of "(_, Some _, _)"] dest: findWildcard_split(1))

declare countPatternParams.simps [simp del]

fun countOptionalFrom :: "string \<Rightarrow> nat \<Rightarrow> nat" where
  "countOptionalFrom [] skip = 0"
| "countOptionalFrom (c # s) (Suc skip) = countOptionalFrom s skip"
| "countOptionalFrom (c # s) 0 =
     (if hasPrefix (c # s) ''{/:'' then
        (case strIndex (c # s) ''}'' of
           None \<Rightarrow> 0
         | Some closing \<Rightarrow> Suc (countOptionalFrom s closing))
      else countOptionalFrom s 0)"

text \<open>
  \<open>countOptionalSegments\<close>: the position moves to the next opening marker and then past its
  closing brace; an unclosed one ends the loop.
\<close>

definition countOptionalSegments :: "string \<Rightarrow> nat" where
  "countOptionalSegments path = countOptionalFrom path 0"

definition maxOptionalSegments :: nat where
  "maxOptionalSegments = 8"

section \<open>Optional segments\<close>

text \<open>
  \<open>expandOptional\<close>: None when the pattern has no optional segment, else the two
  expansions (without, with). The regex form \<open>{/:name:expr}\<close> becomes \<open>/{name:expr}\<close>.
\<close>

definition optionalToken :: "string \<Rightarrow> string" where
  "optionalToken seg =
     (case strIndex (tl seg) '':'' of
        Some colonIdx \<Rightarrow>
          ''{'' @ take colonIdx (tl seg) @ '':'' @ drop (2 + colonIdx) seg @ ''}''
      | None \<Rightarrow> seg)"

definition expandOptional :: "string \<Rightarrow> goPanic + (string \<times> string) option" where
  "expandOptional path =
     (case strIndex path ''{/:'' of
        None \<Rightarrow> Inr None
      | Some i \<Rightarrow>
          (case strIndex (drop i path) ''}'' of
             None \<Rightarrow> Inl (UnclosedOptional path)
           | Some j0 \<Rightarrow>
               (let j = j0 + i in
                if j + 1 < length path \<and> hasPrefix (drop (j + 1) path) ''{/:''
                then Inl (ConsecutiveOptional path)
                else
                  (let inner = take (j - (i + 1)) (drop (i + 1) path);
                       without = take i path @ drop (j + 1) path;
                       seg = tl inner
                   in Inr (Some (if without = [] then ''/'' else without,
                                 take i path @ ''/'' @ optionalToken seg @ drop (j + 1) path))))))"

section \<open>Comparing prefixes\<close>

fun longestCommonPrefix :: "string \<Rightarrow> string \<Rightarrow> nat" where
  "longestCommonPrefix (x # a) (y # b) = (if x \<noteq> y then 0 else Suc (longestCommonPrefix a b))"
| "longestCommonPrefix _ _ = 0"

definition lowerByte :: "char \<Rightarrow> char" where
  "lowerByte c = (if 65 \<le> byteOf c \<and> byteOf c \<le> 90 then char_of (byteOf c + 32) else c)"

definition foldEq :: "char \<Rightarrow> char \<Rightarrow> bool \<Rightarrow> bool" where
  "foldEq a b ci = (if \<not> ci then a = b else lowerByte a = lowerByte b)"

fun foldAll :: "string \<Rightarrow> string \<Rightarrow> bool \<Rightarrow> bool" where
  "foldAll (a # s) (b # p) ci = (foldEq a b ci \<and> foldAll s p ci)"
| "foldAll _ _ ci = True"

definition prefixMatch :: "string \<Rightarrow> string \<Rightarrow> bool \<Rightarrow> bool" where
  "prefixMatch s prefix ci =
     (if \<not> ci then s = prefix
      else if length s \<noteq> length prefix then False
      else foldAll s prefix ci)"

lemma lcp_le: "longestCommonPrefix a b \<le> length a" "longestCommonPrefix a b \<le> length b"
  by (induction a b rule: longestCommonPrefix.induct) auto

lemma lcp_take: "take (longestCommonPrefix a b) a = take (longestCommonPrefix a b) b"
  by (induction a b rule: longestCommonPrefix.induct) auto

lemma lcp_differ:
  "longestCommonPrefix a b < length a \<Longrightarrow> longestCommonPrefix a b < length b
   \<Longrightarrow> a ! longestCommonPrefix a b \<noteq> b ! longestCommonPrefix a b"
  by (induction a b rule: longestCommonPrefix.induct) auto

lemma lcp_append [simp]: "longestCommonPrefix (p @ s) p = length p"
  by (induction p) auto

lemma lcp_full: "longestCommonPrefix a b = length b \<Longrightarrow> take (length b) a = b"
  by (metis lcp_take order_refl take_all)

lemma foldEq_refl [simp]: "foldEq a a ci"
  by (simp add: foldEq_def)

lemma foldEq_exact [simp]: "foldEq a b False \<longleftrightarrow> a = b"
  by (simp add: foldEq_def)

lemma prefixMatch_exact [simp]: "prefixMatch s p False \<longleftrightarrow> s = p"
  by (simp add: prefixMatch_def)

lemma foldAll_refl [simp]: "foldAll s s ci"
  by (induction s) auto

lemma prefixMatch_refl [simp]: "prefixMatch s s ci"
  by (simp add: prefixMatch_def)

lemma prefixMatch_length: "prefixMatch s p ci \<Longrightarrow> length s = length p"
  by (auto simp: prefixMatch_def split: if_splits)

section \<open>UTF-8\<close>

text \<open>
  \<open>utf8.ValidString\<close>: the well-formed sequences of RFC 3629 (no overlong form, no
  surrogate, nothing above U+10FFFF).
\<close>

definition contByte :: "char \<Rightarrow> bool" where
  "contByte c \<longleftrightarrow> 128 \<le> byteOf c \<and> byteOf c \<le> 191"

definition utf8Second :: "nat \<Rightarrow> char \<Rightarrow> bool" where
  "utf8Second lead c =
     (if lead = 224 then 160 \<le> byteOf c \<and> byteOf c \<le> 191
      else if lead = 237 then 128 \<le> byteOf c \<and> byteOf c \<le> 159
      else if lead = 240 then 144 \<le> byteOf c \<and> byteOf c \<le> 191
      else if lead = 244 then 128 \<le> byteOf c \<and> byteOf c \<le> 143
      else contByte c)"

fun utf8Valid :: "string \<Rightarrow> bool" where
  "utf8Valid s =
     (case s of
        [] \<Rightarrow> True
      | c # s1 \<Rightarrow>
         (if byteOf c < 128 then utf8Valid s1
          else case s1 of
            [] \<Rightarrow> False
          | c1 # s2 \<Rightarrow>
             (if 194 \<le> byteOf c \<and> byteOf c \<le> 223 then contByte c1 \<and> utf8Valid s2
              else case s2 of
                [] \<Rightarrow> False
              | c2 # s3 \<Rightarrow>
                 (if 224 \<le> byteOf c \<and> byteOf c \<le> 239
                  then utf8Second (byteOf c) c1 \<and> contByte c2 \<and> utf8Valid s3
                  else case s3 of
                    [] \<Rightarrow> False
                  | c3 # s4 \<Rightarrow>
                      240 \<le> byteOf c \<and> byteOf c \<le> 244 \<and> utf8Second (byteOf c) c1
                      \<and> contByte c2 \<and> contByte c3 \<and> utf8Valid s4))))"

declare utf8Valid.simps [simp del]

lemma utf8Valid_ascii: "\<forall>c \<in> set s. byteOf c < 128 \<Longrightarrow> utf8Valid s"
proof (induction s)
  case Nil
  show ?case by (simp add: utf8Valid.simps)
next
  case (Cons c s)
  then show ?case by (simp add: utf8Valid.simps [of "c # s"])
qed

end
