(* ===== verification/RouteTree.thy ===== *)
theory RouteTree
  imports Pattern
begin

text \<open>
  The radix tree of tree.go and its insertion. A \<open>node\<close> is the struct's fields (a record)
  with its children; a handler is a value of an arbitrary type, None where Go has nil. The
  code mutates private copies of the nodes on the insertion path and returns; the model
  returns the new tree, and a panic (which makes the caller drop every copied node) is the
  left side of the sum. \<open>regexp.Compile\<close> is a parameter: it maps an expression to the
  matching function of the compiled object, or None for an error.
\<close>

section \<open>Nodes\<close>

datatype nodeType = Static | Root | Param | Wildcard | RegexParam

record ('h, 'f) nodeData =
  npath :: string
  nhandler :: "'h option"
  nindices :: string
  nfast :: "'f option"
  npattern :: string
  nprio :: "32 word"
  ntype :: nodeType
  nwild :: bool
  nregexpEnd :: "8 word"
  nmaxParams :: "8 word"
  nregexp :: "(string \<Rightarrow> bool) option"

datatype ('h, 'f) node =
  Node (ndata: "('h, 'f) nodeData") (nchildren: "('h, 'f) node list")

type_synonym regexLib = "string \<Rightarrow> (string \<Rightarrow> bool) option"

definition emptyData :: "('h, 'f) nodeData" where
  "emptyData =
     \<lparr>npath = [], nhandler = None, nindices = [], nfast = None, npattern = [], nprio = 0,
      ntype = Static, nwild = False, nregexpEnd = 0, nmaxParams = 0, nregexp = None\<rparr>"

definition emptyNode :: "('h, 'f) node" where
  "emptyNode = Node emptyData []"

definition hasLeaf :: "('h, 'f) node \<Rightarrow> bool" where
  "hasLeaf n \<longleftrightarrow> nhandler (ndata n) \<noteq> None \<or> nfast (ndata n) \<noteq> None"

definition bumpPrio :: "('h, 'f) node \<Rightarrow> ('h, 'f) node" where
  "bumpPrio n = Node ((ndata n)\<lparr>nprio := nprio (ndata n) + 1\<rparr>) (nchildren n)"

fun nodeCount :: "('h, 'f) node \<Rightarrow> nat" where
  "nodeCount (Node d cs) = Suc (sum_list (map nodeCount cs))"

section \<open>Reordering children by priority\<close>

fun bubbleUp ::
  "('h, 'f) node list \<Rightarrow> 32 word \<Rightarrow> nat \<Rightarrow> ('h, 'f) node list \<times> nat" where
  "bubbleUp cs prio 0 = (cs, 0)"
| "bubbleUp cs prio (Suc p) =
     (if nprio (ndata (cs ! p)) < prio
      then bubbleUp (cs[p := cs ! Suc p, Suc p := cs ! p]) prio p
      else (cs, Suc p))"

definition moveIndex :: "string \<Rightarrow> nat \<Rightarrow> nat \<Rightarrow> string" where
  "moveIndex ix newPos pos =
     take newPos ix @ take 1 (drop pos ix) @ take (pos - newPos) (drop newPos ix)
       @ drop (pos + 1) ix"

definition incrementChildPrio ::
  "('h, 'f) nodeData \<Rightarrow> ('h, 'f) node list \<Rightarrow> nat
     \<Rightarrow> goPanic + ('h, 'f) nodeData \<times> ('h, 'f) node list \<times> nat" where
  "incrementChildPrio d cs pos =
     (if pos < length cs then
        (let child = bumpPrio (cs ! pos);
             (cs', newPos) = bubbleUp (cs[pos := child]) (nprio (ndata child)) pos
         in Inr (if newPos \<noteq> pos then d\<lparr>nindices := moveIndex (nindices d) newPos pos\<rparr> else d,
                 cs', newPos))
      else Inl IndexOutOfRange)"

section \<open>Inserting the rest of a pattern below a node\<close>

text \<open>The node a \<open>{name:expr}\<close> token becomes, or the panic it raises.\<close>

definition regexNode :: "regexLib \<Rightarrow> string \<Rightarrow> string \<Rightarrow> goPanic + ('h, 'f) nodeData" where
  "regexNode rc wc fullPath =
     (case strIndex (tl wc) '':'' of
        None \<Rightarrow> Inl (RegexNeedsColon fullPath)
      | Some colonIdx \<Rightarrow>
          (let expr = take (length wc - 1 - (2 + colonIdx)) (drop (2 + colonIdx) wc) in
           case rc (''^(?:'' @ expr @ '')$'') of
             None \<Rightarrow> Inl (InvalidRegexp fullPath)
           | Some re \<Rightarrow>
               (let nameEnd = 1 + colonIdx in
                if nameEnd > 255 then Inl (RegexNameTooLong fullPath)
                else Inr (emptyData\<lparr>ntype := RegexParam, npath := wc, nregexp := Some re,
                                     nregexpEnd := of_nat nameEnd\<rparr>))))"

definition paramNode :: "string \<Rightarrow> ('h, 'f) nodeData" where
  "paramNode wc = emptyData\<lparr>ntype := Param, npath := wc\<rparr>"

text \<open>The wrapper and leaf nodes of a catch-all whose '/' is at \<open>i\<close>.\<close>

definition catchAllBelow ::
  "('h, 'f) nodeData \<Rightarrow> string \<Rightarrow> string \<Rightarrow> nat \<Rightarrow> 'h option \<Rightarrow> 'f option \<Rightarrow> ('h, 'f) node"
where
  "catchAllBelow d path fullPath i h f =
     (let leaf = Node (emptyData\<lparr>npath := drop i path, ntype := Wildcard, nhandler := h,
                                  nfast := f, npattern := fullPath, nprio := 1\<rparr>) [];
          catchAll = Node (emptyData\<lparr>nwild := True, nprio := 1\<rparr>) [leaf]
      in Node (d\<lparr>npath := take i path, nindices := ''/''\<rparr>) [catchAll])"

function insertChild ::
  "regexLib \<Rightarrow> ('h, 'f) node \<Rightarrow> string \<Rightarrow> string \<Rightarrow> 'h option \<Rightarrow> 'f option
     \<Rightarrow> goPanic + ('h, 'f) node" where
  "insertChild rc n path fullPath h f =
     (case findWildcard path of
        (wc, None, valid) \<Rightarrow>
          Inr (Node ((ndata n)\<lparr>npath := path, nhandler := h, nfast := f, npattern := fullPath\<rparr>)
                (nchildren n))
      | (wc, Some i, valid) \<Rightarrow>
          if \<not> valid then
            (if path ! i = CHR ''{'' then Inl (RegexUnclosed fullPath)
             else Inl (OneWildcardPerSegment fullPath))
          else if length wc < 2 then Inl (WildcardUnnamed fullPath)
          else if hd wc = CHR '':'' \<or> hd wc = CHR ''{'' then
            (case (if hd wc = CHR '':'' then Inr (paramNode wc) else regexNode rc wc fullPath) of
               Inl e \<Rightarrow> Inl e
             | Inr c0 \<Rightarrow>
                 (let d1 = (if i > 0 then (ndata n)\<lparr>npath := take i path\<rparr> else ndata n);
                      d2 = d1\<lparr>nwild := True\<rparr>;
                      c1 = c0\<lparr>nprio := nprio c0 + 1\<rparr>;
                      path1 = drop i path
                  in if length wc < length path1 then
                       (case insertChild rc (Node (emptyData\<lparr>nprio := 1\<rparr>) [])
                               (drop (length wc) path1) fullPath h f of
                          Inl e \<Rightarrow> Inl e
                        | Inr next \<Rightarrow> Inr (Node d2 (nchildren n @ [Node c1 [next]])))
                     else
                       Inr (Node d2 (nchildren n @
                         [Node (c1\<lparr>nhandler := h, nfast := f, npattern := fullPath\<rparr>) []]))))
          else if i + length wc \<noteq> length path then Inl (CatchAllNotAtEnd fullPath)
          else if npath (ndata n) \<noteq> [] \<and> last (npath (ndata n)) = CHR ''/''
            then Inl (CatchAllConflict fullPath)
          else if i = 0 \<or> path ! (i - 1) \<noteq> CHR ''/'' then Inl (CatchAllNeedsSlash fullPath)
          else Inr (catchAllBelow (ndata n) path fullPath (i - 1) h f))"
  by pat_completeness auto
termination
  by (relation "measure (\<lambda>(rc, n, path, full, h, f). length path)")
    (auto dest!: sym [of "(_, Some _, _)"] dest: findWildcard_split(1))

declare insertChild.simps [simp del]

section \<open>The insertion walk\<close>

text \<open>
  Splitting a node at \<open>i\<close>, the length of the prefix it shares with the pattern: the lower
  part becomes its single child.
\<close>

definition splitNode :: "('h, 'f) node \<Rightarrow> string \<Rightarrow> nat \<Rightarrow> ('h, 'f) node" where
  "splitNode n path i =
     (let d = ndata n;
          child = Node \<lparr>npath = drop i (npath d), nhandler = nhandler d, nindices = nindices d,
                        nfast = nfast d, npattern = npattern d, nprio = nprio d - 1,
                        ntype = Static, nwild = nwild d, nregexpEnd = 0, nmaxParams = 0,
                        nregexp = nregexp d\<rparr> (nchildren n)
      in Node (d\<lparr>npath := take i path, nindices := [npath d ! i], nhandler := None,
                 nfast := None, npattern := [], nwild := False\<rparr>) [child])"

text \<open>The conflict panic; \<open>fullPath[:strings.Index(fullPath, seg)]\<close> needs the index.\<close>

definition conflictPanic :: "string \<Rightarrow> string \<Rightarrow> string \<Rightarrow> goPanic" where
  "conflictPanic path fullPath wildPath =
     (let seg = takeWhile (\<lambda>x. x \<noteq> CHR ''/'') path in
      case strIndex fullPath seg of
        None \<Rightarrow> IndexOutOfRange
      | Some k \<Rightarrow> WildcardConflict seg fullPath (take k fullPath @ wildPath))"

text \<open>The new static child of \<open>walk\<close>: its index byte, kept before a wildcard child.\<close>

definition addStaticChild ::
  "('h, 'f) nodeData \<Rightarrow> ('h, 'f) node list \<Rightarrow> char
     \<Rightarrow> goPanic + ('h, 'f) nodeData \<times> ('h, 'f) node list \<times> nat" where
  "addStaticChild d cs c =
     (let d1 = d\<lparr>nindices := nindices d @ [c]\<rparr>;
          cs1 = (if nwild d then butlast cs @ [emptyNode, last cs] else cs @ [emptyNode])
      in incrementChildPrio d1 cs1 (length (nindices d)))"

text \<open>Whether the walk may descend into the wildcard child for the rest of the pattern.\<close>

definition sameWildcard :: "('h, 'f) node \<Rightarrow> string \<Rightarrow> bool" where
  "sameWildcard child path \<longleftrightarrow>
     length (npath (ndata child)) \<le> length path
     \<and> npath (ndata child) = take (length (npath (ndata child))) path
     \<and> ntype (ndata child) \<noteq> Wildcard
     \<and> (length path \<le> length (npath (ndata child))
        \<or> path ! length (npath (ndata child)) = CHR ''/'')"

lemma nodeCount_pos [simp]: "0 < nodeCount n"
  by (cases n) simp

lemma nodeCount_child: "c \<in> set (nchildren n) \<Longrightarrow> nodeCount c < nodeCount n"
  by (cases n) (auto simp: less_Suc_eq_le member_le_sum_list)

lemma nodeCount_bumpPrio [simp]: "nodeCount (bumpPrio n) = nodeCount n"
  by (cases n) (simp add: bumpPrio_def)

lemma bubbleUp_moves:
  assumes "pos < length cs" "bubbleUp cs prio pos = (cs', p)"
  shows "p \<le> pos \<and> cs' = take p cs @ [cs ! pos] @ take (pos - p) (drop p cs) @ drop (Suc pos) cs"
  using assms
proof (induction cs prio pos arbitrary: cs' p rule: bubbleUp.induct)
  case (1 cs prio)
  then show ?case by (simp add: Cons_nth_drop_Suc)
next
  case (2 cs prio q)
  show ?case
  proof (cases "nprio (ndata (cs ! q)) < prio")
    case False
    with 2 show ?thesis by (auto simp: Cons_nth_drop_Suc)
  next
    case True
    let ?cs = "cs[q := cs ! Suc q, Suc q := cs ! q]"
    have IH: "p \<le> q" "cs' = take p ?cs @ [?cs ! q] @ take (q - p) (drop p ?cs) @ drop (Suc q) ?cs"
      using 2 True by auto
    have "take (q - p) (drop p ?cs) @ drop (Suc q) ?cs
        = take (Suc q - p) (drop p cs) @ drop (Suc (Suc q)) cs"
    proof -
      have "drop (Suc q) ?cs = cs ! q # drop (Suc (Suc q)) cs"
        using 2(2) by (simp add: drop_update_swap Cons_nth_drop_Suc [symmetric])
      moreover have "take (q - p) (drop p ?cs) = take (q - p) (drop p cs)"
        using IH(1) by (simp add: drop_update_swap)
      moreover have "take (Suc q - p) (drop p cs) = take (q - p) (drop p cs) @ [cs ! q]"
        using IH(1) 2(2) by (simp add: Suc_diff_le take_Suc_conv_app_nth)
      ultimately show ?thesis by simp
    qed
    moreover have "take p ?cs = take p cs" using IH(1) by simp
    moreover have "?cs ! q = cs ! Suc q" using 2(2) by simp
    ultimately show ?thesis using IH by simp
  qed
qed

lemma incrementChildPrio_InrD:
  assumes "incrementChildPrio d cs pos = Inr (d', cs', j)"
  shows "pos < length cs" "j \<le> pos" "length cs' = length cs" "cs' ! j = bumpPrio (cs ! pos)"
    "cs' = take j cs @ [bumpPrio (cs ! pos)] @ take (pos - j) (drop j cs) @ drop (Suc pos) cs"
    "d' = (if j \<noteq> pos then d\<lparr>nindices := moveIndex (nindices d) j pos\<rparr> else d)"
proof -
  let ?b = "bumpPrio (cs ! pos)"
  show pos: "pos < length cs"
    using assms by (simp add: incrementChildPrio_def split: if_splits)
  then have b: "bubbleUp (cs[pos := ?b]) (nprio (ndata ?b)) pos = (cs', j)"
    and d: "d' = (if j \<noteq> pos then d\<lparr>nindices := moveIndex (nindices d) j pos\<rparr> else d)"
    using assms by (auto simp: incrementChildPrio_def Let_def split: prod.splits if_splits)
  from bubbleUp_moves [OF _ b] pos
  show "j \<le> pos" and
    cs': "cs' = take j cs @ [?b] @ take (pos - j) (drop j cs) @ drop (Suc pos) cs"
    by (auto simp: drop_update_swap)
  show "length cs' = length cs" using cs' pos \<open>j \<le> pos\<close> by simp
  show "cs' ! j = ?b" using cs' pos \<open>j \<le> pos\<close> by (simp add: nth_append)
  show "d' = (if j \<noteq> pos then d\<lparr>nindices := moveIndex (nindices d) j pos\<rparr> else d)" by (rule d)
qed

lemma splitNode_parts:
  "npath (ndata (splitNode n path i)) = take i path"
  "nindices (ndata (splitNode n path i)) = [npath (ndata n) ! i]"
  "ntype (ndata (splitNode n path i)) = ntype (ndata n)"
  "\<not> nwild (ndata (splitNode n path i))"
  "nhandler (ndata (splitNode n path i)) = None"
  "nfast (ndata (splitNode n path i)) = None"
  by (simp_all add: splitNode_def Let_def)

lemma splitNode_children:
  obtains c where "nchildren (splitNode n path i) = [c]" "ntype (ndata c) = Static"
    "nodeCount c = nodeCount n"
  by (cases n) (simp add: splitNode_def Let_def)

definition walkMeasure :: "('h, 'f) node \<Rightarrow> nat" where
  "walkMeasure n = 2 * nodeCount n + (if ntype (ndata n) = Param then 1 else 0)"

lemma walkMeasure_less: "nodeCount m < nodeCount n \<Longrightarrow> walkMeasure m < walkMeasure n"
  by (simp add: walkMeasure_def)

lemma walkMeasure_bumpPrio [simp]: "walkMeasure (bumpPrio n) = walkMeasure n"
  by (simp add: walkMeasure_def) (simp add: bumpPrio_def)

text \<open>The node after the split that an iteration of the walk starts with, if any.\<close>

definition splitAt :: "('h, 'f) node \<Rightarrow> string \<Rightarrow> ('h, 'f) node" where
  "splitAt n path =
     (let i = longestCommonPrefix path (npath (ndata n)) in
      if i < length (npath (ndata n)) then splitNode n path i else n)"

lemma descend_param:
  assumes "ntype (ndata (splitAt n path)) = Param" "length (nchildren (splitAt n path)) = 1"
  shows "walkMeasure (nchildren (splitAt n path) ! 0) < walkMeasure n"
proof (cases "longestCommonPrefix path (npath (ndata n)) < length (npath (ndata n))")
  case True
  then have s: "splitAt n path = splitNode n path (longestCommonPrefix path (npath (ndata n)))"
    by (simp add: splitAt_def Let_def)
  obtain c where c: "nchildren (splitAt n path) = [c]" "ntype (ndata c) = Static"
    "nodeCount c = nodeCount n"
    unfolding s by (rule splitNode_children)
  have "ntype (ndata n) = Param" using assms(1) by (simp add: s splitNode_parts)
  with c show ?thesis by (simp add: walkMeasure_def)
next
  case False
  then have s: "splitAt n path = n" by (simp add: splitAt_def Let_def)
  then have "nchildren n ! 0 \<in> set (nchildren n)" using assms(2) by simp
  then show ?thesis by (simp add: s walkMeasure_less nodeCount_child)
qed

lemma splitAt_indexed:
  assumes "i = longestCommonPrefix path (npath (ndata n))" "i < length path"
    "findIdx (\<lambda>x. hd (drop i path) = x) (nindices (ndata (splitAt n path))) = Some j"
  shows "splitAt n path = n"
proof (rule ccontr)
  assume "splitAt n path \<noteq> n"
  then have lt: "i < length (npath (ndata n))" and s: "splitAt n path = splitNode n path i"
    using assms(1) by (auto simp: splitAt_def Let_def split: if_splits)
  have "nindices (ndata (splitAt n path)) = [npath (ndata n) ! i]"
    by (simp add: s splitNode_parts)
  then have "path ! i = npath (ndata n) ! i"
    using findIdx_SomeD [OF assms(3)] assms(2) by (simp add: hd_drop_conv_nth)
  then show False using lcp_differ [of path "npath (ndata n)"] assms(1,2) lt by simp
qed

lemma descend_index:
  assumes "i = longestCommonPrefix path (npath (ndata n))" "i < length path"
    "findIdx (\<lambda>x. hd (drop i path) = x) (nindices (ndata (splitAt n path))) = Some j"
    "incrementChildPrio (ndata (splitAt n path)) (nchildren (splitAt n path)) j = Inr (d', cs', j')"
  shows "walkMeasure (cs' ! j') < walkMeasure n"
proof -
  have "cs' ! j' = bumpPrio (nchildren n ! j)" "j < length (nchildren n)"
    using incrementChildPrio_InrD [OF assms(4)] splitAt_indexed [OF assms(1-3)] by auto
  then show ?thesis by (simp add: walkMeasure_less nodeCount_child)
qed

lemma descend_wild:
  assumes "nwild (ndata (splitAt n path))" "nchildren (splitAt n path) \<noteq> []"
  shows "walkMeasure (last (nchildren (splitAt n path))) < walkMeasure n"
proof -
  have "splitAt n path = n"
    using assms(1) by (auto simp: splitAt_def Let_def splitNode_parts split: if_splits)
  then show ?thesis using assms(2) by (simp add: walkMeasure_less nodeCount_child)
qed

text \<open>
  The loop of \<open>addRouteInternal\<close>. Each iteration looks at one node; the result is that
  node rebuilt over the rebuilt child.
\<close>

function addWalk ::
  "regexLib \<Rightarrow> ('h, 'f) node \<Rightarrow> string \<Rightarrow> string \<Rightarrow> 'h option \<Rightarrow> 'f option
     \<Rightarrow> goPanic + ('h, 'f) node" where
  "addWalk rc n path fullPath h f =
     (let i = longestCommonPrefix path (npath (ndata n));
          n1 = splitAt n path; d = ndata n1; cs = nchildren n1
      in if i < length path then
           (let path1 = drop i path; c = hd path1 in
            if ntype d = Param \<and> c = CHR ''/'' \<and> length cs = 1 then
              (case addWalk rc (bumpPrio (cs ! 0)) path1 fullPath h f of
                 Inl e \<Rightarrow> Inl e
               | Inr m \<Rightarrow> Inr (Node d [m]))
            else case findIdx (\<lambda>x. c = x) (nindices d) of
              Some j \<Rightarrow>
                (case incrementChildPrio d cs j of
                   Inl e \<Rightarrow> Inl e
                 | Inr (d', cs', j') \<Rightarrow>
                     (case addWalk rc (cs' ! j') path1 fullPath h f of
                        Inl e \<Rightarrow> Inl e
                      | Inr m \<Rightarrow> Inr (Node d' (cs'[j' := m]))))
            | None \<Rightarrow>
                if c \<noteq> CHR '':'' \<and> c \<noteq> CHR ''*'' \<and> c \<noteq> CHR ''{'' then
                  if nwild d \<and> cs = [] then Inl IndexOutOfRange
                  else if nwild d \<and> ntype (ndata (last cs)) = Wildcard then
                    Inl (conflictPanic path1 fullPath (npath (ndata (last cs))))
                  else
                    (case addStaticChild d cs c of
                       Inl e \<Rightarrow> Inl e
                     | Inr (d', cs', j) \<Rightarrow>
                         (case insertChild rc (cs' ! j) path1 fullPath h f of
                            Inl e \<Rightarrow> Inl e
                          | Inr m \<Rightarrow> Inr (Node d' (cs'[j := m]))))
                else if nwild d then
                  if cs = [] then Inl IndexOutOfRange
                  else if sameWildcard (last cs) path1 then
                    (case addWalk rc (bumpPrio (last cs)) path1 fullPath h f of
                       Inl e \<Rightarrow> Inl e
                     | Inr m \<Rightarrow> Inr (Node d (butlast cs @ [m])))
                  else Inl (conflictPanic path1 fullPath (npath (ndata (last cs))))
                else insertChild rc n1 path1 fullPath h f)
         else if hasLeaf n1 then Inl (DuplicateHandler fullPath)
         else Inr (Node (d\<lparr>nhandler := h, nfast := f, npattern := fullPath\<rparr>) cs))"
  by pat_completeness auto
termination
  by (relation "measure (\<lambda>(rc, n, path, full, h, f). walkMeasure n)")
    (auto simp: descend_param descend_wild simp del: One_nat_def intro: descend_index)

declare addWalk.simps [simp del]

section \<open>Registering a pattern\<close>

text \<open>
  The deferred update: the root's \<open>maxParams\<close> grows to the pattern's token count,
  saturating at 255.
\<close>

definition foldMaxParams :: "string \<Rightarrow> ('h, 'f) node \<Rightarrow> ('h, 'f) node" where
  "foldMaxParams fullPath n =
     (let c = countPatternParams fullPath; d = ndata n in
      if c > unat (nmaxParams d)
      then Node (d\<lparr>nmaxParams := of_nat (if c > 255 then 255 else c)\<rparr>) (nchildren n)
      else n)"

definition insertRoute ::
  "regexLib \<Rightarrow> ('h, 'f) node \<Rightarrow> string \<Rightarrow> 'h option \<Rightarrow> 'f option \<Rightarrow> goPanic + ('h, 'f) node"
where
  "insertRoute rc n path h f =
     (if \<not> utf8Valid path then Inl (InvalidUTF8 path)
      else
        (let n1 = bumpPrio n in
         case (if npath (ndata n1) = [] \<and> nindices (ndata n1) = [] then
                 (case insertChild rc n1 path path h f of
                    Inl e \<Rightarrow> Inl e
                  | Inr m \<Rightarrow> Inr (Node ((ndata m)\<lparr>ntype := Root\<rparr>) (nchildren m)))
               else addWalk rc n1 path path h f) of
           Inl e \<Rightarrow> Inl e
         | Inr m \<Rightarrow> Inr (foldMaxParams path m)))"

lemma strIndex_lt: "p \<noteq> [] \<Longrightarrow> strIndex s p = Some i \<Longrightarrow> i + length p \<le> length s"
  by (induction s arbitrary: i)
    (auto simp: hasPrefix_iff split: if_splits dest: arg_cong [of _ _ length])

lemma optionalToken_length: "seg \<noteq> [] \<Longrightarrow> length (optionalToken seg) \<le> Suc (length seg)"
proof -
  assume "seg \<noteq> []"
  then obtain c s where seg: "seg = c # s" by (cases seg) auto
  show ?thesis
  proof (cases "strIndex s '':''")
    case (Some k)
    then have "k < length s" using strIndex_lt [of "'':''" s k] by simp
    with Some seg show ?thesis by (simp add: optionalToken_def)
  qed (simp add: seg optionalToken_def)
qed

text \<open>Both expansions are shorter than the pattern, so the recursion ends.\<close>

lemma expandOptional_shorter:
  assumes "expandOptional path = Inr (Some (a, b))"
  shows "length a < length path" "length b < length path"
proof -
  obtain i j0 where ij: "strIndex path ''{/:'' = Some i" "strIndex (drop i path) ''}'' = Some j0"
    using assms by (auto simp: expandOptional_def split: option.splits)
  then have pre: "hasPrefix (drop i path) ''{/:''" "i + 3 \<le> length path"
    using strIndex_SomeD [OF ij(1)] strIndex_lt [OF _ ij(1)] by auto
  have j: "hasPrefix (drop j0 (drop i path)) ''}''" "i + j0 < length path"
    using strIndex_SomeD [OF ij(2)] strIndex_lt [OF _ ij(2)] pre by auto
  obtain t where t: "drop i path = ''{/:'' @ t" using pre(1) by (auto simp: hasPrefix_iff)
  have "3 \<le> j0" using ij(2) t by (auto simp: hasPrefix_def split: if_splits)
  let ?inner = "take (j0 - 1) (drop (i + 1) path)"
  let ?rest = "drop (j0 + i + 1) path"
  have len: "length (tl ?inner) = j0 - 2" using j(2) by simp
  have cons: "\<not> (j0 + i + 1 < length path \<and> hasPrefix ?rest ''{/:'')"
    using assms unfolding expandOptional_def ij(1) option.case ij(2)
    by (auto simp: Let_def split: if_splits)
  have "expandOptional path =
     Inr (Some (if take i path @ ?rest = [] then ''/'' else take i path @ ?rest,
                take i path @ ''/'' @ optionalToken (tl ?inner) @ ?rest))"
    unfolding expandOptional_def ij(1) option.case ij(2) Let_def if_not_P [OF cons] by simp
  then have ab: "a = (if take i path @ ?rest = [] then ''/'' else take i path @ ?rest)"
    "b = take i path @ ''/'' @ optionalToken (tl ?inner) @ ?rest"
    using assms by (simp_all only: sum.inject option.inject prod.inject)
  have "length (tl ?inner) \<noteq> 0" using len \<open>3 \<le> j0\<close> by linarith
  then have "tl ?inner \<noteq> []" by (simp only: length_0_conv not_False_eq_True)
  then have "length (optionalToken (tl ?inner)) \<le> j0 - 1"
    using optionalToken_length [of "tl ?inner"] len \<open>3 \<le> j0\<close> by simp
  then show "length b < length path" using ab(2) j(2) \<open>3 \<le> j0\<close> by simp
  show "length a < length path" using ab(1) j(2) \<open>3 \<le> j0\<close> by auto
qed

function addRouteInternal ::
  "regexLib \<Rightarrow> ('h, 'f) node \<Rightarrow> string \<Rightarrow> 'h option \<Rightarrow> 'f option \<Rightarrow> goPanic + ('h, 'f) node"
where
  "addRouteInternal rc n path h f =
     (if countOptionalSegments path > maxOptionalSegments
      then Inl (TooManyOptional path (countOptionalSegments path))
      else case expandOptional path of
        Inl e \<Rightarrow> Inl e
      | Inr (Some (a, b)) \<Rightarrow>
          (case addRouteInternal rc n a h f of
             Inl e \<Rightarrow> Inl e
           | Inr m \<Rightarrow> addRouteInternal rc m b h f)
      | Inr None \<Rightarrow> insertRoute rc n path h f)"
  by pat_completeness auto
termination
  by (relation "measure (\<lambda>(rc, n, path, h, f). length path)") (auto dest: expandOptional_shorter)

declare addRouteInternal.simps [simp del]

definition addRoute ::
  "regexLib \<Rightarrow> ('h, 'f) node \<Rightarrow> string \<Rightarrow> 'h option \<Rightarrow> goPanic + ('h, 'f) node" where
  "addRoute rc n path handler = addRouteInternal rc n path handler None"

definition addRouteFast ::
  "regexLib \<Rightarrow> ('h, 'f) node \<Rightarrow> string \<Rightarrow> 'f option \<Rightarrow> goPanic + ('h, 'f) node" where
  "addRouteFast rc n path fast = addRouteInternal rc n path None fast"

text \<open>\<open>walk\<close>: every leaf, depth first.\<close>

fun walkLeaves :: "('h, 'f) node \<Rightarrow> (string \<times> 'h option \<times> 'f option) list" where
  "walkLeaves (Node d cs) =
     (if npattern d \<noteq> [] \<and> (nhandler d \<noteq> None \<or> nfast d \<noteq> None)
      then [(npattern d, nhandler d, nfast d)] else [])
     @ concat (map walkLeaves cs)"

end
