(* ===== verification/TreeLookup.thy ===== *)
theory TreeLookup
  imports RouteTree
begin

text \<open>
  The lookups of tree.go: the parameter buffer, the optimistic walk of \<open>getValue\<close>, the
  bounded backtracking walk it falls back to, and the walk for trees without wildcards. Each
  walk is a step function (one iteration of the Go loop) run until it breaks; an index out of
  range or an invalid node type is a panic of the step.
\<close>

section \<open>The parameter buffer\<close>

record Param =
  Key :: string
  Value :: string

type_synonym Params = "Param list"

definition mkParam :: "string \<Rightarrow> string \<Rightarrow> Param" where
  "mkParam k v = \<lparr>Key = k, Value = v\<rparr>"

definition maxInline :: nat where
  "maxInline = 3"

record paramsBuf =
  pcount :: nat
  pbuf :: "Param list"
  poverflow :: "Param list"

definition emptyBuf :: paramsBuf where
  "emptyBuf = \<lparr>pcount = 0, pbuf = replicate maxInline (mkParam [] []), poverflow = []\<rparr>"

definition bufAdd :: "paramsBuf \<Rightarrow> string \<Rightarrow> string \<Rightarrow> paramsBuf" where
  "bufAdd pb key value =
     (if pcount pb < maxInline
      then pb\<lparr>pbuf := (pbuf pb)[pcount pb := mkParam key value], pcount := pcount pb + 1\<rparr>
      else pb\<lparr>poverflow := poverflow pb @ [mkParam key value], pcount := pcount pb + 1\<rparr>)"

definition bufParams :: "paramsBuf \<Rightarrow> Params" where
  "bufParams pb =
     (if poverflow pb = [] then take (pcount pb) (pbuf pb)
      else take (pcount pb)
             (take maxInline (pbuf pb) @ poverflow pb))"

text \<open>Rewinding to a recorded count and overflow length.\<close>

definition bufRewind :: "paramsBuf \<Rightarrow> nat \<Rightarrow> nat \<Rightarrow> paramsBuf" where
  "bufRewind pb cnt oLen = pb\<lparr>pcount := cnt, poverflow := take oLen (poverflow pb)\<rparr>"

definition addParam :: "paramsBuf option \<Rightarrow> string \<Rightarrow> string \<Rightarrow> paramsBuf option" where
  "addParam params key value = map_option (\<lambda>pb. bufAdd pb key value) params"

section \<open>One iteration of a walk\<close>

text \<open>
  \<open>Enter child rest params via fork\<close>: the walk goes on in \<open>child\<close>; \<open>via\<close> is Go's
  \<open>viaWildchild\<close> and \<open>fork\<close> says a static child was chosen although the node has a
  wildcard child. \<open>Break\<close> ends the attempt with the named results; the trailing-slash
  hint is None where the code leaves the variable as it is.
\<close>

datatype ('h, 'f) outcome = Outcome
  (ohandler: "'h option") (ofast: "'f option") (opattern: string) (otsr: "bool option")

datatype ('h, 'f) step =
    Enter "('h, 'f) node" string "paramsBuf option" bool bool
  | Break "('h, 'f) outcome" "paramsBuf option"

definition noMatch :: "bool option \<Rightarrow> ('h, 'f) outcome" where
  "noMatch t = Outcome None None [] t"

definition leafOutcome :: "('h, 'f) node \<Rightarrow> bool option \<Rightarrow> ('h, 'f) outcome" where
  "leafOutcome n t = Outcome (nhandler (ndata n)) (nfast (ndata n)) (npattern (ndata n)) t"

definition found :: "('h, 'f) outcome \<Rightarrow> bool" where
  "found r \<longleftrightarrow> ohandler r \<noteq> None \<or> ofast r \<noteq> None"

text \<open>
  The hint where the path ends at a node without handler and its '/' child is \<open>m\<close>: either a
  static "/" leaf, or the wrapper of a catch-all.
\<close>

definition slashChildTSR :: "('h, 'f) node \<Rightarrow> bool" where
  "slashChildTSR m \<longleftrightarrow>
     (npath (ndata m) = ''/'' \<and> hasLeaf m)
     \<or> (nwild (ndata m) \<and> nchildren m \<noteq> [] \<and> ntype (ndata (nchildren m ! 0)) = Wildcard
        \<and> hasLeaf (nchildren m ! 0))"

text \<open>The branch of \<open>getValue\<close> that compares the node's path with the rest of the request.\<close>

definition gvStatic ::
  "bool \<Rightarrow> ('h, 'f) node \<Rightarrow> string \<Rightarrow> paramsBuf option \<Rightarrow> goPanic + ('h, 'f) step" where
  "gvStatic ci n path params =
     (let d = ndata n; cs = nchildren n; prefix = npath d in
      if length path > length prefix then
        if \<not> prefixMatch (take (length prefix) path) prefix ci then
          Inr (Break (noMatch None) params)
        else
          (let path1 = drop (length prefix) path; c = hd path1 in
           case findIdx (\<lambda>x. foldEq c x ci) (nindices d) of
             Some j \<Rightarrow>
               (if j < length cs then Inr (Enter (cs ! j) path1 params False (nwild d))
                else Inl IndexOutOfRange)
           | None \<Rightarrow>
               if \<not> nwild d then
                 Inr (Break (noMatch (Some (path1 = ''/'' \<and> hasLeaf n))) params)
               else if cs = [] then Inl IndexOutOfRange
               else Inr (Enter (last cs) path1 params True False))
      else if prefixMatch path prefix ci \<and> length path = length prefix then
        if hasLeaf n then Inr (Break (leafOutcome n None) params)
        else
          (case findIdx (\<lambda>x. x = CHR ''/'') (nindices d) of
             Some j \<Rightarrow>
               (if j < length cs then Inr (Break (leafOutcome n (Some (slashChildTSR (cs ! j)))) params)
                else Inl IndexOutOfRange)
           | None \<Rightarrow>
               if path = ''/'' then Inr (Break (leafOutcome n (Some True)) params)
               else if nindices d = ''/'' then
                 (if cs = [] then Inl IndexOutOfRange
                  else Inr (Break (leafOutcome n (Some (hasLeaf (cs ! 0)))) params))
               else Inr (Break (leafOutcome n (Some False)) params))
      else
        Inr (Break (noMatch (Some
          (path = ''/''
           \<or> (length prefix = length path + 1 \<and> prefix ! length path = CHR ''/''
              \<and> prefixMatch path (take (length prefix - 1) prefix) ci \<and> hasLeaf n)))) params))"

text \<open>
  Both parameter kinds after the segment is captured: the end of the path, the child below
  the segment, or a possible trailing slash.
\<close>

definition gvAfterSegment ::
  "('h, 'f) node \<Rightarrow> string \<Rightarrow> nat \<Rightarrow> paramsBuf option \<Rightarrow> goPanic + ('h, 'f) step" where
  "gvAfterSegment n path endPos params =
     (let cs = nchildren n in
      if endPos = length path then
        if \<not> hasLeaf n \<and> length cs = 1 then
          (let m = cs ! 0 in
           Inr (Break (leafOutcome n (Some (npath (ndata m) = ''/'' \<and> hasLeaf m))) params))
        else Inr (Break (leafOutcome n None) params)
      else if cs \<noteq> [] then Inr (Enter (cs ! 0) (drop endPos path) params False False)
      else Inr (Break (noMatch (Some (length path = endPos + 1))) params))"

definition segmentEnd :: "string \<Rightarrow> nat" where
  "segmentEnd path = length (takeWhile (\<lambda>x. x \<noteq> CHR ''/'') path)"

text \<open>The \<open>switch n.nType\<close> of \<open>getValue\<close>.\<close>

definition gvWild ::
  "('h, 'f) node \<Rightarrow> string \<Rightarrow> paramsBuf option \<Rightarrow> goPanic + ('h, 'f) step" where
  "gvWild n path params =
     (let d = ndata n in
      case ntype d of
        Param \<Rightarrow>
          (if path = [] then Inl IndexOutOfRange
           else if hd path = CHR ''/'' then Inr (Break (noMatch None) params)
           else if params \<noteq> None \<and> npath d = [] then Inl IndexOutOfRange
           else gvAfterSegment n path (segmentEnd path)
                  (addParam params (tl (npath d)) (take (segmentEnd path) path)))
      | RegexParam \<Rightarrow>
          (if path = [] then Inl IndexOutOfRange
           else if hd path = CHR ''/'' then Inr (Break (noMatch None) params)
           else case nregexp d of
             None \<Rightarrow> Inl NilDereference
           | Some re \<Rightarrow>
               if \<not> re (take (segmentEnd path) path) then Inr (Break (noMatch None) params)
               else if unat (nregexpEnd d) < 1 \<or> length (npath d) < unat (nregexpEnd d)
               then Inl IndexOutOfRange
               else gvAfterSegment n path (segmentEnd path)
                      (addParam params (take (unat (nregexpEnd d) - 1) (tl (npath d)))
                        (take (segmentEnd path) path)))
      | Wildcard \<Rightarrow>
          (if params \<noteq> None \<and> length (npath d) < 2 then Inl IndexOutOfRange
           else Inr (Break (leafOutcome n None) (addParam params (drop 2 (npath d)) path)))
      | _ \<Rightarrow> Inl InvalidNodeType)"

definition gvStep ::
  "bool \<Rightarrow> bool \<Rightarrow> ('h, 'f) node \<Rightarrow> string \<Rightarrow> paramsBuf option \<Rightarrow> goPanic + ('h, 'f) step"
where
  "gvStep ci via n path params = (if via then gvWild n path params else gvStatic ci n path params)"

lemmas gvStep_defs = gvStep_def gvWild_def gvStatic_def gvAfterSegment_def Let_def

text \<open>Every step that goes on goes to a child of the node.\<close>

lemma gvStatic_child:
  assumes "gvStatic ci n path ps = Inr (Enter m path' ps' v fk)"
  shows "m \<in> set (nchildren n)"
proof -
  have "last (nchildren n) \<in> set (nchildren n)" if "nchildren n \<noteq> []" using that by simp
  then show ?thesis
    using assms by (auto simp: gvStatic_def Let_def split: if_splits option.splits)
qed

lemma gvAfterSegment_child:
  "gvAfterSegment n path e ps = Inr (Enter m path' ps' v fk) \<Longrightarrow> m \<in> set (nchildren n)"
  by (auto simp: gvAfterSegment_def Let_def split: if_splits)

lemma gvWild_child:
  "gvWild n path ps = Inr (Enter m path' ps' v fk) \<Longrightarrow> m \<in> set (nchildren n)"
  by (auto simp: gvWild_def Let_def split: nodeType.splits if_splits option.splits
      dest: gvAfterSegment_child)

lemma gvStep_child:
  "gvStep ci via n path ps = Inr (Enter m path' ps' v fk) \<Longrightarrow> m \<in> set (nchildren n)"
  by (auto simp: gvStep_def split: if_splits dest: gvStatic_child gvWild_child)

section \<open>The optimistic walk\<close>

text \<open>
  The loop of \<open>getValue\<close>. The third result is \<open>couldBacktrack\<close>: a static child was chosen
  somewhere although a wildcard sibling was there.
\<close>

function gvRun ::
  "bool \<Rightarrow> bool \<Rightarrow> ('h, 'f) node \<Rightarrow> string \<Rightarrow> paramsBuf option \<Rightarrow> bool
     \<Rightarrow> goPanic + ('h, 'f) outcome \<times> paramsBuf option \<times> bool" where
  "gvRun ci via n path params cb =
     (case gvStep ci via n path params of
        Inl e \<Rightarrow> Inl e
      | Inr (Break r params') \<Rightarrow> Inr (r, params', cb)
      | Inr (Enter m path' params' via' fork) \<Rightarrow> gvRun ci via' m path' params' (cb \<or> fork))"
  by pat_completeness auto
termination
  by (relation "measure (\<lambda>(ci, via, n, path, ps, cb). nodeCount n)")
    (auto dest!: sym [of "Inr _"] simp: nodeCount_child dest: gvStep_child)

declare gvRun.simps [simp del]

section \<open>The frames of the backtracking walk\<close>

text \<open>
  \<open>getValueBacktrack\<close> keeps its first two frames in scalar locals and the rest in a
  slice; \<open>stackN\<close> counts them all. A local that was never assigned is None.
\<close>

record ('h, 'f) backtrackFrame =
  fparent :: "('h, 'f) node"
  fpath :: string
  fparamCount :: nat
  foverflowLen :: nat

record ('h, 'f) btStack =
  stackN :: nat
  frame0 :: "('h, 'f) backtrackFrame option"
  frame1 :: "('h, 'f) backtrackFrame option"
  boverflow :: "('h, 'f) backtrackFrame list"

definition backtrackInline :: nat where
  "backtrackInline = 2"

definition emptyStack :: "('h, 'f) btStack" where
  "emptyStack = \<lparr>stackN = 0, frame0 = None, frame1 = None, boverflow = []\<rparr>"

definition mkFrame :: "('h, 'f) node \<Rightarrow> string \<Rightarrow> paramsBuf option \<Rightarrow> ('h, 'f) backtrackFrame" where
  "mkFrame n path params =
     (case params of
        None \<Rightarrow> \<lparr>fparent = n, fpath = path, fparamCount = 0, foverflowLen = 0\<rparr>
      | Some pb \<Rightarrow> \<lparr>fparent = n, fpath = path, fparamCount = pcount pb,
                     foverflowLen = length (poverflow pb)\<rparr>)"

definition pushFrame ::
  "('h, 'f) backtrackFrame \<Rightarrow> ('h, 'f) btStack \<Rightarrow> ('h, 'f) btStack" where
  "pushFrame f st =
     (case stackN st of
        0 \<Rightarrow> st\<lparr>frame0 := Some f, stackN := 1\<rparr>
      | Suc 0 \<Rightarrow> st\<lparr>frame1 := Some f, stackN := 2\<rparr>
      | k \<Rightarrow> st\<lparr>boverflow := boverflow st @ [f], stackN := k + 1\<rparr>)"

text \<open>The pop after \<open>stackN--\<close>; None is the nil dereference or the empty slice of Go.\<close>

definition popFrame ::
  "('h, 'f) btStack \<Rightarrow> ('h, 'f) backtrackFrame option \<times> ('h, 'f) btStack" where
  "popFrame st =
     (let k = stackN st - 1; st1 = st\<lparr>stackN := k\<rparr> in
      if k \<ge> backtrackInline then
        (if boverflow st = [] then (None, st1)
         else (Some (last (boverflow st)), st1\<lparr>boverflow := butlast (boverflow st)\<rparr>))
      else if k = 1 then (frame1 st, st1)
      else (frame0 st, st1))"

text \<open>The frames from the top down, and when the scalars and the slice agree with the count.\<close>

definition frames :: "('h, 'f) btStack \<Rightarrow> ('h, 'f) backtrackFrame option list" where
  "frames st =
     (case stackN st of
        0 \<Rightarrow> []
      | Suc 0 \<Rightarrow> [frame0 st]
      | Suc (Suc k) \<Rightarrow> take k (map Some (rev (boverflow st))) @ [frame1 st, frame0 st])"

definition stackOK :: "('h, 'f) btStack \<Rightarrow> bool" where
  "stackOK st \<longleftrightarrow>
     None \<notin> set (frames st) \<and> length (boverflow st) = stackN st - 2"

text \<open>
  The contract of a last-in-first-out store, proved once for any implementation: popping
  after any number of pushes gives the pushed values back in reverse.
\<close>

locale lifo =
  fixes emp :: "'s" and push :: "'a \<Rightarrow> 's \<Rightarrow> 's" and pop :: "'s \<Rightarrow> 'a option \<times> 's"
    and content :: "'s \<Rightarrow> 'a list" and ok :: "'s \<Rightarrow> bool"
  assumes content_emp: "content emp = []" "ok emp"
    and content_push: "ok s \<Longrightarrow> content (push x s) = x # content s" "ok s \<Longrightarrow> ok (push x s)"
    and content_pop: "ok s \<Longrightarrow> content s = x # xs \<Longrightarrow> fst (pop s) = Some x"
      "ok s \<Longrightarrow> content s = x # xs \<Longrightarrow> content (snd (pop s)) = xs"
      "ok s \<Longrightarrow> content s = x # xs \<Longrightarrow> ok (snd (pop s))"
begin

lemma pop_push:
  "ok s \<Longrightarrow> fst (pop (push x s)) = Some x"
  "ok s \<Longrightarrow> content (snd (pop (push x s))) = content s"
  using content_pop [OF content_push(2) content_push(1)] by auto

lemma ok_pushes: "ok s \<Longrightarrow> ok (fold push xs s)"
  by (induction xs arbitrary: s) (auto simp: content_push)

lemma content_pushes: "ok s \<Longrightarrow> content (fold push xs s) = rev xs @ content s"
  by (induction xs arbitrary: s) (auto simp: content_push)

end

definition framesOf :: "('h, 'f) btStack \<Rightarrow> ('h, 'f) backtrackFrame list" where
  "framesOf st = map the (frames st)"

lemma frames_push: "frames (pushFrame f st) = Some f # frames st"
  by (auto simp: frames_def pushFrame_def split: nat.splits)

lemma frames_pop:
  assumes "frames st = x # xs"
  shows "fst (popFrame st) = x \<and> frames (snd (popFrame st)) = xs
     \<or> fst (popFrame st) = None"
proof -
  consider "stackN st = 1" | "stackN st = 2" | k where "stackN st = Suc (Suc (Suc k))"
    using assms
    by (cases "stackN st"; cases "stackN st - 1"; cases "stackN st - 2") (auto simp: frames_def)
  then show ?thesis
  proof cases
    case 3
    show ?thesis
    proof (cases "boverflow st" rule: rev_cases)
      case (snoc ys y)
      with 3 assms show ?thesis
        by (auto simp: popFrame_def frames_def backtrackInline_def Let_def split: nat.splits)
    qed (use 3 in \<open>simp add: popFrame_def backtrackInline_def Let_def\<close>)
  qed (use assms in \<open>auto simp: popFrame_def frames_def backtrackInline_def Let_def\<close>)
qed

lemma stackOK_push: "stackOK st \<Longrightarrow> stackOK (pushFrame f st)"
  using frames_push [of f st]
  by (auto simp: stackOK_def pushFrame_def split: nat.splits)

lemma stackOK_pop:
  assumes "stackOK st" "frames st = Some x # xs"
  shows "fst (popFrame st) = Some x" "frames (snd (popFrame st)) = xs"
    "stackOK (snd (popFrame st))"
proof -
  have ne: "fst (popFrame st) \<noteq> None"
    using assms
    by (auto simp: popFrame_def frames_def stackOK_def backtrackInline_def Let_def split: nat.splits)
  then show "fst (popFrame st) = Some x" and fr: "frames (snd (popFrame st)) = xs"
    using frames_pop [OF assms(2)] by auto
  have "length (boverflow (snd (popFrame st))) = stackN (snd (popFrame st)) - 2"
    using assms
    by (auto simp: popFrame_def frames_def stackOK_def backtrackInline_def Let_def split: nat.splits)
  then show "stackOK (snd (popFrame st))"
    using fr assms by (auto simp: stackOK_def)
qed

interpretation bt: lifo emptyStack pushFrame popFrame framesOf stackOK
proof
  show "framesOf emptyStack = []" "stackOK emptyStack"
    by (simp_all add: framesOf_def frames_def stackOK_def emptyStack_def)
next
  fix s :: "('a, 'b) btStack" and x
  assume "stackOK s"
  then show "framesOf (pushFrame x s) = x # framesOf s" "stackOK (pushFrame x s)"
    by (simp_all add: framesOf_def frames_push stackOK_push)
next
  fix s :: "('a, 'b) btStack" and x xs
  assume ok: "stackOK s" and fr: "framesOf s = x # xs"
  then obtain ys where ys: "frames s = Some x # ys" "xs = map the ys"
    by (cases "frames s") (auto simp: framesOf_def stackOK_def)
  show "fst (popFrame s) = Some x" "framesOf (snd (popFrame s)) = xs"
    "stackOK (snd (popFrame s))"
    using stackOK_pop [OF ok ys(1)] ys(2) by (simp_all add: framesOf_def)
qed

section \<open>The backtracking walk\<close>

text \<open>
  The body of \<open>getValueBacktrack\<close> is a second copy of the walk. A success returns at
  once; everything else goes to \<open>fail\<close>.
\<close>

definition gbStatic ::
  "bool \<Rightarrow> ('h, 'f) node \<Rightarrow> string \<Rightarrow> paramsBuf option \<Rightarrow> goPanic + ('h, 'f) step" where
  "gbStatic ci n path params =
     (let d = ndata n; cs = nchildren n; prefix = npath d in
      if length path > length prefix then
        if \<not> prefixMatch (take (length prefix) path) prefix ci then
          Inr (Break (noMatch None) params)
        else
          (let path1 = drop (length prefix) path; c = hd path1 in
           case findIdx (\<lambda>x. foldEq c x ci) (nindices d) of
             Some j \<Rightarrow>
               (if j < length cs then Inr (Enter (cs ! j) path1 params False (nwild d))
                else Inl IndexOutOfRange)
           | None \<Rightarrow>
               if \<not> nwild d then
                 Inr (Break (noMatch (Some (path1 = ''/'' \<and> hasLeaf n))) params)
               else if cs = [] then Inl IndexOutOfRange
               else Inr (Enter (last cs) path1 params True False))
      else if prefixMatch path prefix ci \<and> length path = length prefix then
        if hasLeaf n then Inr (Break (leafOutcome n None) params)
        else
          (case findIdx (\<lambda>x. x = CHR ''/'') (nindices d) of
             Some j \<Rightarrow>
               (if j < length cs then Inr (Break (leafOutcome n (Some (slashChildTSR (cs ! j)))) params)
                else Inl IndexOutOfRange)
           | None \<Rightarrow>
               if path = ''/'' then Inr (Break (leafOutcome n (Some True)) params)
               else if nindices d = ''/'' then
                 (if cs = [] then Inl IndexOutOfRange
                  else Inr (Break (leafOutcome n (Some (hasLeaf (cs ! 0)))) params))
               else Inr (Break (leafOutcome n (Some False)) params))
      else
        Inr (Break (noMatch (Some
          (path = ''/''
           \<or> (length prefix = length path + 1 \<and> prefix ! length path = CHR ''/''
              \<and> prefixMatch path (take (length prefix - 1) prefix) ci \<and> hasLeaf n)))) params))"

definition gbAfterSegment ::
  "('h, 'f) node \<Rightarrow> string \<Rightarrow> nat \<Rightarrow> paramsBuf option \<Rightarrow> goPanic + ('h, 'f) step" where
  "gbAfterSegment n path endPos params =
     (let cs = nchildren n in
      if endPos = length path then
        if \<not> hasLeaf n \<and> length cs = 1 then
          (let m = cs ! 0 in
           Inr (Break (leafOutcome n (Some (npath (ndata m) = ''/'' \<and> hasLeaf m))) params))
        else Inr (Break (leafOutcome n None) params)
      else if cs \<noteq> [] then Inr (Enter (cs ! 0) (drop endPos path) params False False)
      else Inr (Break (noMatch (Some (length path = endPos + 1))) params))"

definition gbWild ::
  "('h, 'f) node \<Rightarrow> string \<Rightarrow> paramsBuf option \<Rightarrow> goPanic + ('h, 'f) step" where
  "gbWild n path params =
     (let d = ndata n in
      case ntype d of
        Param \<Rightarrow>
          (if path = [] then Inl IndexOutOfRange
           else if hd path = CHR ''/'' then Inr (Break (noMatch None) params)
           else if params \<noteq> None \<and> npath d = [] then Inl IndexOutOfRange
           else gbAfterSegment n path (segmentEnd path)
                  (addParam params (tl (npath d)) (take (segmentEnd path) path)))
      | RegexParam \<Rightarrow>
          (if path = [] then Inl IndexOutOfRange
           else if hd path = CHR ''/'' then Inr (Break (noMatch None) params)
           else case nregexp d of
             None \<Rightarrow> Inl NilDereference
           | Some re \<Rightarrow>
               if \<not> re (take (segmentEnd path) path) then Inr (Break (noMatch None) params)
               else if unat (nregexpEnd d) < 1 \<or> length (npath d) < unat (nregexpEnd d)
               then Inl IndexOutOfRange
               else gbAfterSegment n path (segmentEnd path)
                      (addParam params (take (unat (nregexpEnd d) - 1) (tl (npath d)))
                        (take (segmentEnd path) path)))
      | Wildcard \<Rightarrow>
          (if params \<noteq> None \<and> length (npath d) < 2 then Inl IndexOutOfRange
           else Inr (Break (leafOutcome n None) (addParam params (drop 2 (npath d)) path)))
      | _ \<Rightarrow> Inl InvalidNodeType)"

definition gbStep ::
  "bool \<Rightarrow> bool \<Rightarrow> ('h, 'f) node \<Rightarrow> string \<Rightarrow> paramsBuf option \<Rightarrow> goPanic + ('h, 'f) step"
where
  "gbStep ci via n path params = (if via then gbWild n path params else gbStatic ci n path params)"

text \<open>The two copies agree.\<close>

lemma gbAfterSegment_eq: "gbAfterSegment = gvAfterSegment"
  by (intro ext) (simp add: gbAfterSegment_def gvAfterSegment_def)

lemma gbStep_eq: "gbStep ci via n path params = gvStep ci via n path params"
  unfolding gbStep_def gvStep_def gbStatic_def gvStatic_def gbWild_def gvWild_def gbAfterSegment_eq
  ..

text \<open>
  What makes the loop end: a weight that counts every node below a node often enough to pay
  for the one retry of each fork.
\<close>

fun walkWeight :: "('h, 'f) node \<Rightarrow> nat" where
  "walkWeight (Node d cs) = Suc (2 * sum_list (map walkWeight cs))"

definition frameWeight :: "('h, 'f) backtrackFrame option \<Rightarrow> nat" where
  "frameWeight f =
     (case f of None \<Rightarrow> 0
      | Some g \<Rightarrow> if nchildren (fparent g) = [] then 0 else walkWeight (last (nchildren (fparent g))))"

lemma walkWeight_pos [simp]: "0 < walkWeight n"
  by (cases n) simp

lemma walkWeight_child:
  assumes "c \<in> set (nchildren n)"
  shows "2 * walkWeight c < walkWeight n"
proof -
  have "walkWeight c \<le> sum_list (map walkWeight (nchildren n))"
    using assms by (simp add: member_le_sum_list)
  then show ?thesis by (cases n) simp
qed

lemma walkWeight_two_children:
  "c \<in> set (nchildren n) \<Longrightarrow> e \<in> set (nchildren n) \<Longrightarrow> walkWeight c + walkWeight e < walkWeight n"
  using walkWeight_child [of c n] walkWeight_child [of e n] by linarith

lemma gvStep_fork:
  assumes "gvStep ci via n path ps = Inr (Enter m path' ps' v True)"
  shows "\<not> via" "ps' = ps" "nwild (ndata n)" "\<not> v"
  using assms
  by (auto simp: gvStep_def gvStatic_def gvWild_def gvAfterSegment_def Let_def
      split: if_splits option.splits nodeType.splits)

lemma frameWeight_mkFrame:
  "frameWeight (Some (mkFrame n path ps)) =
     (if nchildren n = [] then 0 else walkWeight (last (nchildren n)))"
  by (simp add: frameWeight_def mkFrame_def split: option.splits)

lemma gbRun_descend:
  assumes "gbStep ci via n path ps = Inr (Enter m path' ps' v fk)"
  shows "walkWeight m
      + sum_list (map frameWeight (frames (if fk then pushFrame (mkFrame n path' ps') st else st)))
    < walkWeight n + sum_list (map frameWeight (frames st))"
proof -
  have m: "m \<in> set (nchildren n)"
    using assms gvStep_child unfolding gbStep_eq by blast
  then have "last (nchildren n) \<in> set (nchildren n)" by (cases "nchildren n") auto
  then have "walkWeight m + walkWeight (last (nchildren n)) < walkWeight n"
    using m by (intro walkWeight_two_children)
  moreover have "walkWeight m < walkWeight n" using walkWeight_child [OF m] by linarith
  ultimately show ?thesis by (auto simp: frames_push frameWeight_mkFrame)
qed

lemma gbRun_retry:
  assumes "stackN st \<noteq> 0" "popFrame st = (Some fr, st')" "nchildren (fparent fr) \<noteq> []"
  shows "walkWeight (last (nchildren (fparent fr))) + sum_list (map frameWeight (frames st'))
    < walkWeight n + sum_list (map frameWeight (frames st))"
proof -
  obtain x xs where fr: "frames st = x # xs"
    using assms(1) by (cases "frames st") (auto simp: frames_def split: nat.splits)
  then have "x = Some fr" "xs = frames st'"
    using frames_pop [OF fr] assms(2) by auto
  with fr assms(3) show ?thesis by (simp add: frameWeight_def)
qed

function gbRun ::
  "bool \<Rightarrow> bool \<Rightarrow> ('h, 'f) node \<Rightarrow> string \<Rightarrow> paramsBuf option \<Rightarrow> ('h, 'f) btStack
     \<Rightarrow> bool \<Rightarrow> bool \<Rightarrow> goPanic + ('h, 'f) outcome \<times> paramsBuf option" where
  "gbRun ci via n path params st sawTSR tsr =
     (case gbStep ci via n path params of
        Inl e \<Rightarrow> Inl e
      | Inr (Enter m path' params' via' fork) \<Rightarrow>
          gbRun ci via' m path' params'
            (if fork then pushFrame (mkFrame n path' params') st else st) sawTSR tsr
      | Inr (Break r params') \<Rightarrow>
          (let tsr1 = (case otsr r of None \<Rightarrow> tsr | Some t \<Rightarrow> t) in
           if found r then Inr (Outcome (ohandler r) (ofast r) (opattern r) (Some tsr1), params')
           else
             (let saw = sawTSR \<or> tsr1 in
              if stackN st = 0 then Inr (noMatch (Some saw), params')
              else case popFrame st of
                (None, _) \<Rightarrow> Inl NilDereference
              | (Some fr, st') \<Rightarrow>
                  if nchildren (fparent fr) = [] then Inl IndexOutOfRange
                  else gbRun ci True (last (nchildren (fparent fr))) (fpath fr)
                    (map_option (\<lambda>pb. bufRewind pb (fparamCount fr) (foverflowLen fr)) params')
                    st' saw tsr1)))"
  by pat_completeness auto
termination
  by (relation "measure (\<lambda>(ci, via, n, path, ps, st, saw, tsr).
        walkWeight n + sum_list (map frameWeight (frames st)))")
    (auto dest!: sym [of "Inr _"] sym [of "(_, _)"] simp: gbRun_descend gbRun_retry)

declare gbRun.simps [simp del]

definition getValueBacktrack ::
  "('h, 'f) node \<Rightarrow> string \<Rightarrow> paramsBuf option \<Rightarrow> bool
     \<Rightarrow> goPanic + ('h, 'f) outcome \<times> paramsBuf option" where
  "getValueBacktrack n path params ci = gbRun ci False n path params emptyStack False False"

text \<open>
  \<open>getValue\<close>: the optimistic walk, and the backtracking walk from the root with the
  parameters rewound when it failed after skipping a wildcard sibling.
\<close>

definition getValue ::
  "('h, 'f) node \<Rightarrow> string \<Rightarrow> paramsBuf option \<Rightarrow> bool
     \<Rightarrow> goPanic + ('h, 'f) outcome \<times> paramsBuf option" where
  "getValue n path params ci =
     (case gvRun ci False n path params False of
        Inl e \<Rightarrow> Inl e
      | Inr (r, params', couldBacktrack) \<Rightarrow>
          if found r \<or> \<not> couldBacktrack
          then Inr (Outcome (ohandler r) (ofast r) (opattern r)
                      (Some (case otsr r of None \<Rightarrow> False | Some t \<Rightarrow> t)), params')
          else getValueBacktrack n path (map_option (\<lambda>pb. bufRewind pb 0 0) params') ci)"

definition hasHandler :: "('h, 'f) node \<Rightarrow> string \<Rightarrow> goPanic + bool" where
  "hasHandler n path =
     (case getValue n path None False of Inl e \<Rightarrow> Inl e | Inr (r, _) \<Rightarrow> Inr (found r))"

section \<open>The walk for trees without wildcards\<close>

function getValueStatic ::
  "('h, 'f) node \<Rightarrow> string \<Rightarrow> bool \<Rightarrow> goPanic + ('h, 'f) outcome" where
  "getValueStatic n path ci =
     (let d = ndata n; cs = nchildren n; prefix = npath d in
      if length path > length prefix then
        if \<not> prefixMatch (take (length prefix) path) prefix ci then Inr (noMatch (Some False))
        else
          (let path1 = drop (length prefix) path; c = hd path1 in
           case findIdx (\<lambda>x. foldEq c x ci) (nindices d) of
             Some j \<Rightarrow>
               (if j < length cs then getValueStatic (cs ! j) path1 ci else Inl IndexOutOfRange)
           | None \<Rightarrow> Inr (noMatch (Some (path1 = ''/'' \<and> hasLeaf n))))
      else if prefixMatch path prefix ci \<and> length path = length prefix then
        if hasLeaf n then Inr (leafOutcome n (Some False))
        else
          (case findIdx (\<lambda>x. x = CHR ''/'') (nindices d) of
             Some j \<Rightarrow>
               (if j < length cs then
                  Inr (leafOutcome n (Some (npath (ndata (cs ! j)) = ''/'' \<and> hasLeaf (cs ! j))))
                else Inl IndexOutOfRange)
           | None \<Rightarrow>
               if path = ''/'' then Inr (leafOutcome n (Some True))
               else if nindices d = ''/'' then
                 (if cs = [] then Inl IndexOutOfRange
                  else Inr (leafOutcome n (Some (hasLeaf (cs ! 0)))))
               else Inr (leafOutcome n (Some False)))
      else
        Inr (noMatch (Some
          (path = ''/''
           \<or> (length prefix = length path + 1 \<and> prefix ! length path = CHR ''/''
              \<and> prefixMatch path (take (length prefix - 1) prefix) ci \<and> hasLeaf n)))))"
  by pat_completeness auto
termination
  by (relation "measure (\<lambda>(n, path, ci). nodeCount n)") (auto simp: nodeCount_child)

declare getValueStatic.simps [simp del]

end
