(* ===== verification/TreeSearch.thy ===== *)
theory TreeSearch
  imports TreeLookup
begin

text \<open>
  The lookups of tree.go refine one recursive search. The parameter buffer behaves as a list,
  the explicit frame stack of the backtracking walk as the recursion, and the optimistic walk
  as its first branch.
\<close>

section \<open>The parameter buffer is a list\<close>

definition bufOK :: "paramsBuf \<Rightarrow> bool" where
  "bufOK pb \<longleftrightarrow> length (pbuf pb) = maxInline \<and> length (poverflow pb) = pcount pb - maxInline"

lemma bufOK_empty [simp]: "bufOK emptyBuf"
  by (simp add: bufOK_def emptyBuf_def)

lemma bufParams_empty [simp]: "bufParams emptyBuf = []"
  by (simp add: bufParams_def emptyBuf_def)

lemma bufParams_view:
  assumes "bufOK pb"
  shows "bufParams pb = take (pcount pb) (pbuf pb) @ poverflow pb"
  using assms by (auto simp: bufParams_def bufOK_def)

lemma length_bufParams [simp]: "bufOK pb \<Longrightarrow> length (bufParams pb) = pcount pb"
  by (auto simp: bufParams_view bufOK_def)

lemma bufOK_add [simp]: "bufOK pb \<Longrightarrow> bufOK (bufAdd pb k v)"
  by (auto simp: bufOK_def bufAdd_def)

lemma pcount_add [simp]: "pcount (bufAdd pb k v) = pcount pb + 1"
  by (simp add: bufAdd_def)

lemma bufParams_add [simp]:
  assumes "bufOK pb"
  shows "bufParams (bufAdd pb k v) = bufParams pb @ [mkParam k v]"
proof (cases "pcount pb < maxInline")
  case True
  then have "poverflow pb = []" using assms by (simp add: bufOK_def)
  then show ?thesis
    using assms True
    by (simp add: bufParams_view bufAdd_def bufOK_def take_Suc_conv_app_nth)
next
  case False
  then show ?thesis using assms by (simp add: bufParams_view bufAdd_def bufOK_def)
qed

lemma bufRewind_view:
  assumes "bufOK pb" "c \<le> pcount pb"
  shows "bufOK (bufRewind pb c (c - maxInline))"
    "bufParams (bufRewind pb c (c - maxInline)) = take c (bufParams pb)"
    "pcount (bufRewind pb c (c - maxInline)) = c"
proof -
  show ok: "bufOK (bufRewind pb c (c - maxInline))"
    using assms by (auto simp: bufOK_def bufRewind_def)
  show "pcount (bufRewind pb c (c - maxInline)) = c" by (simp add: bufRewind_def)
  show "bufParams (bufRewind pb c (c - maxInline)) = take c (bufParams pb)"
    using assms unfolding bufParams_view [OF ok] bufParams_view [OF assms(1)]
    by (auto simp: bufOK_def bufRewind_def min_def)
qed

section \<open>The search the walks implement\<close>

text \<open>What the node captures when it is entered as a wildcard child.\<close>

definition capture :: "bool \<Rightarrow> ('h, 'f) node \<Rightarrow> string \<Rightarrow> Params" where
  "capture via n path =
     (if \<not> via then []
      else case ntype (ndata n) of
        Param \<Rightarrow> [mkParam (tl (npath (ndata n))) (take (segmentEnd path) path)]
      | RegexParam \<Rightarrow>
          [mkParam (take (unat (nregexpEnd (ndata n)) - 1) (tl (npath (ndata n))))
             (take (segmentEnd path) path)]
      | Wildcard \<Rightarrow> [mkParam (drop 2 (npath (ndata n))) path]
      | _ \<Rightarrow> [])"

datatype ('h, 'f) result = Hit "'h option" "'f option" string Params | Miss bool

function search ::
  "bool \<Rightarrow> bool \<Rightarrow> ('h, 'f) node \<Rightarrow> string \<Rightarrow> goPanic + ('h, 'f) result" where
  "search ci via n path =
     (case gvStep ci via n path (Some emptyBuf) of
        Inl e \<Rightarrow> Inl e
      | Inr (Break r _) \<Rightarrow>
          Inr (if found r then Hit (ohandler r) (ofast r) (opattern r) (capture via n path)
               else Miss (otsr r = Some True))
      | Inr (Enter m path' _ via' fork) \<Rightarrow>
          (case search ci via' m path' of
             Inl e \<Rightarrow> Inl e
           | Inr (Hit h f p ps) \<Rightarrow> Inr (Hit h f p (capture via n path @ ps))
           | Inr (Miss t) \<Rightarrow>
               if \<not> fork then Inr (Miss t)
               else if nchildren n = [] then Inl IndexOutOfRange
               else (case search ci True (last (nchildren n)) path' of
                 Inl e \<Rightarrow> Inl e
               | Inr (Hit h f p ps) \<Rightarrow> Inr (Hit h f p ps)
               | Inr (Miss t') \<Rightarrow> Inr (Miss (t \<or> t')))))"
  by pat_completeness auto
termination
  by (relation "measure (\<lambda>(ci, via, n, path). nodeCount n)")
    (auto dest!: sym [of "Inr _"] simp: nodeCount_child dest: gvStep_child)

declare search.simps [simp del]

text \<open>The params argument of a step only records what is captured.\<close>

fun stepParams :: "('h, 'f) step \<Rightarrow> paramsBuf option" where
  "stepParams (Enter m p ps v fk) = ps"
| "stepParams (Break r ps) = ps"

fun sameControl :: "goPanic + ('h, 'f) step \<Rightarrow> goPanic + ('h, 'f) step \<Rightarrow> bool" where
  "sameControl (Inl e) (Inl e') = (e = e')"
| "sameControl (Inr (Enter m p _ v fk)) (Inr (Enter m' p' _ v' fk')) =
     (m = m' \<and> p = p' \<and> v = v' \<and> fk = fk')"
| "sameControl (Inr (Break r _)) (Inr (Break r' _)) = (r = r')"
| "sameControl _ _ = False"

lemma sameControl_refl [simp]: "sameControl s s"
  by (cases s; cases "projr s") auto

lemma sameControl_if:
  "(b \<Longrightarrow> sameControl x x') \<Longrightarrow> (\<not> b \<Longrightarrow> sameControl y y')
    \<Longrightarrow> sameControl (if b then x else y) (if b then x' else y')"
  by simp

lemma sameControl_option:
  "sameControl x x' \<Longrightarrow> (\<And>j. sameControl (f j) (f' j))
    \<Longrightarrow> sameControl (case v of None \<Rightarrow> x | Some j \<Rightarrow> f j) (case v of None \<Rightarrow> x' | Some j \<Rightarrow> f' j)"
  by (cases v) simp_all

lemma gvStatic_control: "sameControl (gvStatic ci n path ps) (gvStatic ci n path qs)"
  unfolding gvStatic_def Let_def
  by (intro sameControl_if sameControl_option) simp_all

lemma gvAfterSegment_control:
  "sameControl (gvAfterSegment n path e ps) (gvAfterSegment n path e qs)"
  by (auto simp: gvAfterSegment_def Let_def)

lemma gvAfterSegment_control_Inr:
  "gvAfterSegment n path e ps = Inr s \<Longrightarrow> sameControl (gvAfterSegment n path e qs) (Inr s)"
  using gvAfterSegment_control [of n path e qs ps] by simp

lemma mkParam_eq_iff [simp]: "mkParam k v = mkParam k' v' \<longleftrightarrow> k = k' \<and> v = v'"
  by (simp add: mkParam_def)

lemma gvWild_control: "sameControl (gvWild n path (Some pb)) (gvWild n path (Some qb))"
  by (auto simp: gvWild_def Let_def gvAfterSegment_control split: nodeType.splits option.splits)

lemma gvStep_control: "sameControl (gvStep ci via n path (Some pb)) (gvStep ci via n path (Some qb))"
  by (simp add: gvStep_def gvStatic_control gvWild_control)

lemma gvStep_None_control:
  assumes "gvStep ci via n path (Some qb) = Inr s"
  shows "sameControl (gvStep ci via n path None) (Inr s)"
proof (cases via)
  case False
  then show ?thesis
    using assms gvStatic_control [of ci n path None "Some qb"] by (simp add: gvStep_def)
next
  case True
  have "sameControl (gvWild n path None) (Inr s)" if "gvWild n path (Some qb) = Inr s"
    using that unfolding gvWild_def Let_def
    by (cases "ntype (ndata n)")
      (auto dest: gvAfterSegment_control_Inr split: option.splits if_splits)
  then show ?thesis using True assms by (simp add: gvStep_def)
qed

text \<open>What the params are after a step.\<close>

lemma gvAfterSegment_params:
  "gvAfterSegment n path e ps = Inr s \<Longrightarrow> stepParams s = ps"
  by (auto simp: gvAfterSegment_def Let_def split: if_splits)

lemma gvStatic_params: "gvStatic ci n path ps = Inr s \<Longrightarrow> stepParams s = ps"
  unfolding gvStatic_def Let_def by (auto split: if_splits option.splits)

fun goesOn :: "('h, 'f) step \<Rightarrow> bool" where
  "goesOn (Enter m p ps v fk) = True"
| "goesOn (Break r ps) = found r"

lemma not_found_noMatch [simp]: "\<not> found (noMatch t)"
  by (simp add: found_def noMatch_def)

lemma gvStep_params:
  assumes "gvStep ci via n path (Some pb) = Inr s" "bufOK pb"
  obtains qb where "stepParams s = Some qb" "bufOK qb"
    "bufParams qb = bufParams pb \<or> bufParams qb = bufParams pb @ capture via n path"
    "goesOn s \<Longrightarrow> bufParams qb = bufParams pb @ capture via n path"
proof (cases via)
  case False
  then show ?thesis
    using assms that [of pb] by (simp add: gvStep_def capture_def gvStatic_params)
next
  case True
  then have w: "gvWild n path (Some pb) = Inr s" using assms by (simp add: gvStep_def)
  show ?thesis
  proof (cases "stepParams s = Some pb \<and> \<not> goesOn s")
    case True then show ?thesis using assms that [of pb] by auto
  next
    case False
    then have "\<exists>k v. stepParams s = Some (bufAdd pb k v) \<and> capture via n path = [mkParam k v]"
      using w \<open>via\<close>
      by (auto simp: gvWild_def capture_def addParam_def Let_def split: nodeType.splits option.splits if_splits
          dest!: gvAfterSegment_params)
    then show ?thesis using that assms(2) by auto
  qed
qed

lemma gvStep_fork_capture: "gvStep ci via n path ps = Inr (Enter m p' qs v True) \<Longrightarrow> capture via n path = []"
  by (auto dest: gvStep_fork simp: capture_def)

section \<open>The two loops refine the search\<close>

text \<open>What a lookup returns, as a result of the search.\<close>

definition viewOf :: "('h, 'f) outcome \<Rightarrow> paramsBuf option \<Rightarrow> ('h, 'f) result" where
  "viewOf r ps =
     (if found r
      then Hit (ohandler r) (ofast r) (opattern r) (case ps of None \<Rightarrow> [] | Some pb \<Rightarrow> bufParams pb)
      else Miss (otsr r = Some True))"

definition onHit :: "Params \<Rightarrow> ('h, 'f) result \<Rightarrow> ('h, 'f) result" where
  "onHit qs res = (case res of Hit h f p ps \<Rightarrow> Hit h f p (qs @ ps) | Miss t \<Rightarrow> Miss t)"

text \<open>The frames still to retry, from the top, with the parameters captured so far.\<close>

fun resume ::
  "bool \<Rightarrow> ('h, 'f) backtrackFrame list \<Rightarrow> bool \<Rightarrow> Params \<Rightarrow> goPanic + ('h, 'f) result" where
  "resume ci [] saw acc = Inr (Miss saw)"
| "resume ci (fr # frs) saw acc =
     (if nchildren (fparent fr) = [] then Inl IndexOutOfRange
      else case search ci True (last (nchildren (fparent fr))) (fpath fr) of
        Inl e \<Rightarrow> Inl e
      | Inr (Hit h f p ps) \<Rightarrow> Inr (Hit h f p (take (fparamCount fr) acc @ ps))
      | Inr (Miss t) \<Rightarrow> resume ci frs (saw \<or> t) (take (fparamCount fr) acc))"

definition framesFit :: "('h, 'f) backtrackFrame list \<Rightarrow> nat \<Rightarrow> bool" where
  "framesFit frs k \<longleftrightarrow>
     sorted_wrt (\<lambda>f g. fparamCount g \<le> fparamCount f) frs
     \<and> (\<forall>f \<in> set frs. fparamCount f \<le> k \<and> foverflowLen f = fparamCount f - maxInline)"

lemma framesFit_Cons:
  "framesFit (f # frs) k \<longleftrightarrow>
     fparamCount f \<le> k \<and> foverflowLen f = fparamCount f - maxInline \<and> framesFit frs (fparamCount f)"
  by (auto simp: framesFit_def)

lemma framesFit_mono: "framesFit frs k \<Longrightarrow> k \<le> l \<Longrightarrow> framesFit frs l"
  by (auto simp: framesFit_def)

lemma resume_prefix:
  assumes "framesFit frs (length acc)"
  shows "resume ci frs saw (acc @ xs) = resume ci frs saw acc"
proof (cases frs)
  case (Cons f gs)
  then have "take (fparamCount f) (acc @ xs) = take (fparamCount f) acc"
    using assms by (simp add: framesFit_Cons)
  with Cons show ?thesis by (simp only: resume.simps)
qed simp

lemma framesOf_emptyStack [simp]: "framesOf emptyStack = []"
  by (simp add: bt.content_emp)

lemma onHit_Nil [simp]: "onHit [] res = res"
  by (simp add: onHit_def split: result.split)

text \<open>How a lookup goes on after a search from its current node.\<close>

definition goOn ::
  "bool \<Rightarrow> ('h, 'f) backtrackFrame list \<Rightarrow> bool \<Rightarrow> Params
     \<Rightarrow> goPanic + ('h, 'f) result \<Rightarrow> goPanic + ('h, 'f) result" where
  "goOn ci frs saw acc s =
     (case s of
        Inl e \<Rightarrow> Inl e
      | Inr (Hit h f p ps) \<Rightarrow> Inr (Hit h f p (acc @ ps))
      | Inr (Miss t) \<Rightarrow> resume ci frs (saw \<or> t) acc)"

lemma goOn_simps [simp]:
  "goOn ci frs saw acc (Inl e) = Inl e"
  "goOn ci frs saw acc (Inr (Hit h f p ps)) = Inr (Hit h f p (acc @ ps))"
  "goOn ci frs saw acc (Inr (Miss t)) = resume ci frs (saw \<or> t) acc"
  by (simp_all add: goOn_def)

lemma resume_Cons:
  "nchildren (fparent fr) \<noteq> [] \<Longrightarrow>
   resume ci (fr # frs) saw acc =
     goOn ci frs saw (take (fparamCount fr) acc) (search ci True (last (nchildren (fparent fr))) (fpath fr))"
  by (simp add: goOn_def split: sum.split result.split)

lemma search_Enter:
  assumes "gvStep ci via n path (Some pb) = Inr (Enter m path' qs v fk)"
  shows "search ci via n path =
     (case search ci v m path' of
        Inl e \<Rightarrow> Inl e
      | Inr (Hit h f p ps) \<Rightarrow> Inr (Hit h f p (capture via n path @ ps))
      | Inr (Miss t) \<Rightarrow>
          if \<not> fk then Inr (Miss t)
          else if nchildren n = [] then Inl IndexOutOfRange
          else (case search ci True (last (nchildren n)) path' of
            Inl e \<Rightarrow> Inl e
          | Inr (Hit h f p ps) \<Rightarrow> Inr (Hit h f p ps)
          | Inr (Miss t') \<Rightarrow> Inr (Miss (t \<or> t'))))"
proof -
  obtain qs' where "gvStep ci via n path (Some emptyBuf) = Inr (Enter m path' qs' v fk)"
    using gvStep_control [of ci via n path emptyBuf pb] assms
    by (cases "gvStep ci via n path (Some emptyBuf)"; cases "projr (gvStep ci via n path (Some emptyBuf))") auto
  then show ?thesis by (subst search.simps) simp
qed

lemma search_Break:
  assumes "gvStep ci via n path (Some pb) = Inr (Break r qs)"
  shows "search ci via n path =
     Inr (if found r then Hit (ohandler r) (ofast r) (opattern r) (capture via n path)
          else Miss (otsr r = Some True))"
proof -
  obtain qs' where "gvStep ci via n path (Some emptyBuf) = Inr (Break r qs')"
    using gvStep_control [of ci via n path emptyBuf pb] assms
    by (cases "gvStep ci via n path (Some emptyBuf)"; cases "projr (gvStep ci via n path (Some emptyBuf))") auto
  then show ?thesis by (subst search.simps) simp
qed

lemma search_Inl:
  assumes "gvStep ci via n path (Some pb) = Inl e"
  shows "search ci via n path = Inl e"
proof -
  have "gvStep ci via n path (Some emptyBuf) = Inl e"
    using gvStep_control [of ci via n path emptyBuf pb] assms
    by (cases "gvStep ci via n path (Some emptyBuf)"; cases "projr (gvStep ci via n path (Some emptyBuf))") auto
  then show ?thesis by (subst search.simps) simp
qed

definition lookupView ::
  "goPanic + ('h, 'f) outcome \<times> paramsBuf option \<Rightarrow> goPanic + ('h, 'f) result" where
  "lookupView x = (case x of Inl e \<Rightarrow> Inl e | Inr (r, ps) \<Rightarrow> Inr (viewOf r ps))"

lemma lookupView_simps [simp]:
  "lookupView (Inl e) = Inl e"
  "lookupView (Inr (r, ps)) = Inr (viewOf r ps)"
  by (simp_all add: lookupView_def)

lemma gbRun_search:
  assumes "stackOK st" "bufOK pb" "framesFit (framesOf st) (pcount pb)"
    and "\<forall>f \<in> set (framesOf st). nchildren (fparent f) \<noteq> []"
    and "tsr \<longrightarrow> saw"
  shows "lookupView (gbRun ci via n path (Some pb) st saw tsr)
    = goOn ci (framesOf st) saw (bufParams pb) (search ci via n path)"
  using assms
proof (induction ci via n path "Some pb" st saw tsr arbitrary: pb rule: gbRun.induct)
  case (1 ci via n path st saw tsr)
  show ?case
  proof (cases "gvStep ci via n path (Some pb)")
    case (Inl e)
    then show ?thesis by (subst gbRun.simps) (simp add: gbStep_eq search_Inl)
  next
    case (Inr s)
    obtain qb where qb: "stepParams s = Some qb" "bufOK qb"
      "bufParams qb = bufParams pb \<or> bufParams qb = bufParams pb @ capture via n path"
      "goesOn s \<Longrightarrow> bufParams qb = bufParams pb @ capture via n path"
      using gvStep_params [OF Inr "1.prems"(2)] by metis
    show ?thesis
    proof (cases s)
      case (Enter m p' qs v fk)
      have qs: "qs = Some qb" using qb(1) Enter by simp
      have st: "gbStep ci via n path (Some pb) = Inr (Enter m p' (Some qb) v fk)"
        using Inr Enter qs by (simp add: gbStep_eq)
      note IH = "1.hyps"(1) [OF st refl]
      have pb': "bufParams qb = bufParams pb @ capture via n path" "pcount pb \<le> pcount qb"
        using qb(2,4) Enter length_bufParams [OF "1.prems"(2)] length_bufParams [OF qb(2)] by auto
      show ?thesis
      proof (cases fk)
        case False
        have "framesFit (framesOf st) (pcount qb)"
          using "1.prems"(3) pb'(2) by (rule framesFit_mono)
        then have "lookupView (gbRun ci via n path (Some pb) st saw tsr)
            = goOn ci (framesOf st) saw (bufParams qb) (search ci v m p')"
          using IH "1.prems" qb(2) False by (subst gbRun.simps) (simp add: st)
        also have "\<dots> = goOn ci (framesOf st) saw (bufParams pb) (search ci via n path)"
          using Inr Enter False pb' "1.prems"(2,3)
          by (simp add: search_Enter goOn_def resume_prefix split: sum.split result.split)
        finally show ?thesis .
      next
        case True
        let ?f = "mkFrame n p' (Some qb)"
        have cap: "capture via n path = []"
          using Inr Enter True by (auto dest: gvStep_fork_capture)
        have ne: "nchildren n \<noteq> []"
          using Inr Enter gvStep_child by fastforce
        have fo: "framesOf (pushFrame ?f st) = ?f # framesOf st"
          using "1.prems"(1) by (rule bt.content_push)
        have pc: "pcount qb = pcount pb"
          using pb' cap length_bufParams [OF "1.prems"(2)] length_bufParams [OF qb(2)] by simp
        have fit: "framesFit (?f # framesOf st) (pcount qb)"
          using "1.prems"(3) pc qb(2) by (simp add: framesFit_Cons mkFrame_def bufOK_def)
        have "lookupView (gbRun ci via n path (Some pb) st saw tsr)
            = goOn ci (?f # framesOf st) saw (bufParams qb) (search ci v m p')"
          using IH "1.prems" qb(2) True fit ne stackOK_push [OF "1.prems"(1)] fo
          by (subst gbRun.simps) (simp add: st mkFrame_def)
        also have "\<dots> = goOn ci (framesOf st) saw (bufParams pb) (search ci via n path)"
          using Inr Enter True pb'(1) cap ne qb(2) pc length_bufParams [OF "1.prems"(2)]
          by (simp add: search_Enter goOn_def mkFrame_def disj_assoc split: sum.split result.split)
        finally show ?thesis .
      qed
    next
      case (Break r qs)
      have qs: "qs = Some qb" using qb(1) Break by simp
      have st: "gbStep ci via n path (Some pb) = Inr (Break r (Some qb))"
        using Inr Break qs by (simp add: gbStep_eq)
      define t1 where "t1 = (case otsr r of None \<Rightarrow> tsr | Some t \<Rightarrow> t)"
      show ?thesis
      proof (cases "found r")
        case True
        then show ?thesis
          using qb(4) Break Inr by (subst gbRun.simps) (simp add: st search_Break viewOf_def found_def)
      next
        case False
        have t1: "(saw \<or> t1) = (saw \<or> otsr r = Some True)"
          using "1.prems"(5) by (auto simp: t1_def split: option.splits)
        have se: "search ci via n path = Inr (Miss (otsr r = Some True))"
          using False Inr Break by (simp add: search_Break)
        show ?thesis
        proof (cases "framesOf st")
          case Nil
          then have "stackN st = 0" by (auto simp: framesOf_def frames_def split: nat.splits)
          then show ?thesis
            using Nil False se t1
            by (subst gbRun.simps) (simp add: st t1_def viewOf_def found_def noMatch_def)
        next
          case (Cons fr frs)
          obtain st' where pop: "popFrame st = (Some fr, st')" and st': "stackOK st'" "framesOf st' = frs"
            using bt.content_pop [OF "1.prems"(1) Cons] by (cases "popFrame st") auto
          have n0: "stackN st \<noteq> 0"
            using Cons by (cases "stackN st") (auto simp: framesOf_def frames_def)
          have ne: "nchildren (fparent fr) \<noteq> []" using "1.prems"(4) Cons by simp
          have cnt: "fparamCount fr \<le> pcount pb" "foverflowLen fr = fparamCount fr - maxInline"
            "framesFit frs (fparamCount fr)"
            using "1.prems"(3) Cons by (simp_all add: framesFit_Cons)
          have len: "length (bufParams pb) = pcount pb" "pcount pb \<le> pcount qb"
            using "1.prems"(2) qb(3) length_bufParams [OF "1.prems"(2)] length_bufParams [OF qb(2)]
            by (simp, metis le_add1 length_append order_refl)
          define rb where "rb = bufRewind qb (fparamCount fr) (foverflowLen fr)"
          have rb: "bufOK rb" "bufParams rb = take (fparamCount fr) (bufParams pb)" "pcount rb = fparamCount fr"
            using bufRewind_view [OF qb(2), of "fparamCount fr"] cnt len qb(3)
            unfolding rb_def by auto
          have "lookupView (gbRun ci via n path (Some pb) st saw tsr) =
             lookupView (gbRun ci True (last (nchildren (fparent fr))) (fpath fr) (Some rb) st' (saw \<or> t1) t1)"
            using False n0 pop ne by (subst gbRun.simps) (simp add: st t1_def rb_def Let_def)
          also have "\<dots> = goOn ci (framesOf st') (saw \<or> t1) (bufParams rb)
              (search ci True (last (nchildren (fparent fr))) (fpath fr))"
            using "1.hyps"(2) [OF st refl t1_def False refl n0] pop ne rb cnt st' "1.prems"(4) Cons
            by (simp add: rb_def)
          also have "\<dots> = goOn ci (framesOf st) saw (bufParams pb) (search ci via n path)"
            using se Cons ne st' rb t1 by (simp add: resume_Cons del: resume.simps)
          finally show ?thesis .
        qed
      qed
    qed
  qed
qed

lemma getValueBacktrack_search:
  assumes "bufOK pb" "pcount pb = 0"
  shows "lookupView (getValueBacktrack n path (Some pb) ci) = search ci False n path"
proof -
  have "bufParams pb = []" using assms(2) length_bufParams [OF assms(1)] length_0_conv by metis
  then show ?thesis
    using assms gbRun_search [of emptyStack pb False False ci False n path]
    by (simp add: getValueBacktrack_def bt.content_emp framesFit_def goOn_def split: sum.split result.split)
qed

lemma gvRun_search:
  assumes "bufOK pb"
  shows "case gvRun ci via n path (Some pb) cb of
      Inl e \<Rightarrow> search ci via n path = Inl e
    | Inr (r, qs, cb') \<Rightarrow>
        (cb \<longrightarrow> cb')
        \<and> (\<exists>qb. qs = Some qb \<and> bufOK qb)
        \<and> (found r \<longrightarrow> search ci via n path =
              Inr (Hit (ohandler r) (ofast r) (opattern r) (drop (pcount pb) (bufParams (the qs))))
            \<and> take (pcount pb) (bufParams (the qs)) = bufParams pb)
        \<and> (\<not> found r \<and> \<not> cb' \<longrightarrow> search ci via n path = Inr (Miss (otsr r = Some True)))"
  using assms
proof (induction ci via n path "Some pb" cb arbitrary: pb rule: gvRun.induct)
  case (1 ci via n path cb)
  show ?case
  proof (cases "gvStep ci via n path (Some pb)")
    case (Inl e)
    then show ?thesis by (subst gvRun.simps) (simp add: search_Inl)
  next
    case (Inr s)
    obtain qb where qb: "stepParams s = Some qb" "bufOK qb"
      "goesOn s \<Longrightarrow> bufParams qb = bufParams pb @ capture via n path"
      using gvStep_params [OF Inr "1.prems"] by metis
    have len: "length (bufParams pb) = pcount pb" "length (bufParams qb) = pcount qb"
      using "1.prems" qb(2) by simp_all
    show ?thesis
    proof (cases s)
      case (Break r qs)
      then have st: "gvStep ci via n path (Some pb) = Inr (Break r (Some qb))" using Inr qb by simp
      show ?thesis
        using qb(2,3) Break len by (subst gvRun.simps) (auto simp: st search_Break [OF st])
    next
      case (Enter m p' qs v fk)
      then have st: "gvStep ci via n path (Some pb) = Inr (Enter m p' (Some qb) v fk)" using Inr qb by simp
      have bq: "bufParams qb = bufParams pb @ capture via n path" using qb(3) Enter by simp
      then have pq: "pcount qb = pcount pb + length (capture via n path)"
        using len by (metis length_append)
      show ?thesis
      proof (cases "gvRun ci v m p' (Some qb) (cb \<or> fk)")
        case (Inl e)
        then show ?thesis
          using "1.hyps" [OF st refl qb(2)] by (subst gvRun.simps) (simp add: st search_Enter [OF st])
      next
        case (Inr x)
        obtain r rs cb' where x: "x = (r, rs, cb')" by (cases x) auto
        note IH = "1.hyps" [OF st refl qb(2), unfolded Inr x sum.case prod.case]
        have "search ci via n path = Inr (Hit (ohandler r) (ofast r) (opattern r) (drop (pcount pb) (bufParams (the rs))))
            \<and> take (pcount pb) (bufParams (the rs)) = bufParams pb" if f: "found r"
        proof -
          have h: "search ci v m p' = Inr (Hit (ohandler r) (ofast r) (opattern r) (drop (pcount qb) (bufParams (the rs))))"
            and tk: "take (pcount qb) (bufParams (the rs)) = bufParams qb"
            using IH f by auto
          have "bufParams (the rs) = (bufParams pb @ capture via n path) @ drop (pcount qb) (bufParams (the rs))"
            using tk bq by (metis append_take_drop_id)
          then show ?thesis
            using h len(1) by (simp add: search_Enter [OF st]) (metis append_assoc append_eq_conv_conj)
        qed
        moreover have "search ci via n path = Inr (Miss (otsr r = Some True))" if "\<not> found r" "\<not> cb'"
          using IH that by (simp add: search_Enter [OF st])
        ultimately show ?thesis
          using IH Inr x by (subst gvRun.simps) (auto simp: st)
      qed
    qed
  qed
qed

lemma getValue_search:
  assumes "bufOK pb" "pcount pb = 0"
  shows "lookupView (getValue n path (Some pb) ci) = search ci False n path"
proof (cases "gvRun ci False n path (Some pb) False")
  case (Inl e)
  then show ?thesis using gvRun_search [OF assms(1), of ci False n path False] by (simp add: getValue_def)
next
  case (Inr x)
  obtain r qs cb where x: "x = (r, qs, cb)" by (cases x) auto
  note G = gvRun_search [OF assms(1), of ci False n path False, unfolded Inr x sum.case prod.case]
  from G obtain qb where qb: "qs = Some qb" "bufOK qb" by auto
  show ?thesis
  proof (cases "found r \<or> \<not> cb")
    case True
    then show ?thesis
      using G qb Inr x assms(2)
      by (auto simp: getValue_def viewOf_def found_def split: option.splits)
  next
    case False
    have "bufOK (bufRewind qb 0 0)" "pcount (bufRewind qb 0 0) = 0"
      using bufRewind_view [OF qb(2), of 0] by simp_all
    then show ?thesis
      using False Inr x qb by (simp add: getValue_def getValueBacktrack_search)
  qed
qed
end
