(* ===== verification/TreeInsert.thy ===== *)
theory TreeInsert
  imports RouteTree "HOL-Library.Multiset"
begin

text \<open>
  Correctness of insertion. A well-formed tree (\<open>wfTree\<close>) is a radix tree over the
  registered patterns: \<open>entries\<close> reads the patterns back by concatenating node paths, and
  a successful registration adds exactly its own patterns, whatever was split, reordered by
  priority or shared on the way. The invariant covers patterns whose regular-expression token,
  if any, ends the pattern.
\<close>

section \<open>Well-formed trees\<close>

definition staticNode :: "('h, 'f) node \<Rightarrow> bool" where
  "staticNode n \<longleftrightarrow> ntype (ndata n) = Static \<or> ntype (ndata n) = Root"

definition isWrapper :: "('h, 'f) node \<Rightarrow> bool" where
  "isWrapper n \<longleftrightarrow>
     staticNode n \<and> npath (ndata n) = [] \<and> nindices (ndata n) = [] \<and> nwild (ndata n) \<and> \<not> hasLeaf n
     \<and> length (nchildren n) = 1 \<and> ntype (ndata (hd (nchildren n))) = Wildcard"

definition isHolder :: "('h, 'f) node \<Rightarrow> bool" where
  "isHolder n \<longleftrightarrow>
     staticNode n \<and> npath (ndata n) = [] \<and> nindices (ndata n) = ''/'' \<and> \<not> nwild (ndata n) \<and> \<not> hasLeaf n
     \<and> length (nchildren n) = 1 \<and> isWrapper (hd (nchildren n))"

definition startsWith :: "char \<Rightarrow> ('h, 'f) node \<Rightarrow> bool" where
  "startsWith b n \<longleftrightarrow>
     staticNode n
     \<and> (if npath (ndata n) = [] then b = CHR ''/'' \<and> (isWrapper n \<or> isHolder n)
        else b = hd (npath (ndata n)))"

definition staticsOf :: "('h, 'f) node \<Rightarrow> ('h, 'f) node list" where
  "staticsOf n = (if nwild (ndata n) then butlast (nchildren n) else nchildren n)"

definition regexExpr :: "string \<Rightarrow> nat \<Rightarrow> string" where
  "regexExpr wc k = ''^(?:'' @ take (length wc - 1 - (2 + k)) (drop (2 + k) wc) @ '')$''"

definition wfData :: "regexLib \<Rightarrow> ('h, 'f) node \<Rightarrow> bool" where
  "wfData rc n \<longleftrightarrow>
     (let d = ndata n; cs = nchildren n in
      case ntype d of
        Wildcard \<Rightarrow> cs = [] \<and> hasLeaf n \<and> (\<exists>name. name \<noteq> [] \<and> npath d = ''/*'' @ name)
      | RegexParam \<Rightarrow>
          cs = [] \<and> hd (npath d) = CHR ''{'' \<and> 2 \<le> length (npath d) \<and> CHR ''/'' \<notin> set (npath d)
          \<and> (\<exists>k re. strIndex (tl (npath d)) '':'' = Some k \<and> nregexpEnd d = of_nat (1 + k) \<and> 1 + k \<le> 255
               \<and> rc (regexExpr (npath d) k) = Some re \<and> nregexp d = Some re)
      | Param \<Rightarrow>
          hd (npath d) = CHR '':'' \<and> 2 \<le> length (npath d) \<and> CHR ''/'' \<notin> set (npath d)
          \<and> \<not> nwild d \<and> (nindices d = [] \<or> nindices d = ''/'' \<and> cs \<noteq> [])
          \<and> (cs = [] \<or> length cs = 1 \<and> startsWith (CHR ''/'') (hd cs))
      | _ \<Rightarrow>
          isWrapper n
          \<or> (\<forall>x \<in> set (npath d). \<not> wildByte x) \<and> (\<forall>x \<in> set (nindices d). \<not> wildByte x)
            \<and> distinct (nindices d) \<and> list_all2 startsWith (nindices d) (staticsOf n)
            \<and> (nwild d \<longrightarrow> cs \<noteq> [] \<and> (ntype (ndata (last cs)) = Param \<or> ntype (ndata (last cs)) = RegexParam))
            \<and> (npath d = [] \<longrightarrow> isHolder n))"

fun wfTree :: "regexLib \<Rightarrow> ('h, 'f) node \<Rightarrow> bool" where
  "wfTree rc (Node d cs) \<longleftrightarrow> wfData rc (Node d cs) \<and> (\<forall>c \<in> set cs. wfTree rc c)"

type_synonym ('h, 'f) leaf = "'h option \<times> 'f option \<times> string"

definition ownEntry :: "('h, 'f) nodeData \<Rightarrow> (string \<times> ('h, 'f) leaf) list" where
  "ownEntry d =
     (if nhandler d \<noteq> None \<or> nfast d \<noteq> None then [([], nhandler d, nfast d, npattern d)] else [])"

definition prefixAll :: "string \<Rightarrow> (string \<times> 'a) list \<Rightarrow> (string \<times> 'a) list" where
  "prefixAll p es = map (\<lambda>(q, l). (p @ q, l)) es"

fun entries :: "('h, 'f) node \<Rightarrow> (string \<times> ('h, 'f) leaf) list" where
  "entries (Node d cs) = prefixAll (npath d) (ownEntry d @ concat (map entries cs))"

lemma prefixAll_simps [simp]:
  "prefixAll p [] = []"
  "prefixAll p ((q, l) # es) = (p @ q, l) # prefixAll p es"
  "prefixAll p (es @ fs) = prefixAll p es @ prefixAll p fs"
  "prefixAll [] es = es"
  "prefixAll p (prefixAll q es) = prefixAll (p @ q) es"
  by (auto simp: prefixAll_def)

lemma entries_def2:
  "entries n = prefixAll (npath (ndata n)) (ownEntry (ndata n) @ concat (map entries (nchildren n)))"
  by (cases n) simp

lemma wfTree_def2: "wfTree rc n \<longleftrightarrow> wfData rc n \<and> (\<forall>c \<in> set (nchildren n). wfTree rc c)"
  by (cases n) simp

text \<open>Bumping a priority changes neither.\<close>

lemma bumpPrio_fields [simp]:
  "npath (ndata (bumpPrio n)) = npath (ndata n)" "nindices (ndata (bumpPrio n)) = nindices (ndata n)"
  "nhandler (ndata (bumpPrio n)) = nhandler (ndata n)" "nfast (ndata (bumpPrio n)) = nfast (ndata n)"
  "npattern (ndata (bumpPrio n)) = npattern (ndata n)" "ntype (ndata (bumpPrio n)) = ntype (ndata n)"
  "nwild (ndata (bumpPrio n)) = nwild (ndata n)" "nregexp (ndata (bumpPrio n)) = nregexp (ndata n)"
  "nregexpEnd (ndata (bumpPrio n)) = nregexpEnd (ndata n)"
  "nmaxParams (ndata (bumpPrio n)) = nmaxParams (ndata n)"
  "nchildren (bumpPrio n) = nchildren n"
  by (simp_all add: bumpPrio_def)

lemma bumpPrio_preds [simp]:
  "hasLeaf (bumpPrio n) = hasLeaf n" "staticNode (bumpPrio n) = staticNode n"
  "isWrapper (bumpPrio n) = isWrapper n" "isHolder (bumpPrio n) = isHolder n"
  "startsWith b (bumpPrio n) = startsWith b n" "staticsOf (bumpPrio n) = staticsOf n"
  by (simp_all add: hasLeaf_def staticNode_def isWrapper_def isHolder_def startsWith_def staticsOf_def)

lemma wfTree_bumpPrio [simp]: "wfTree rc (bumpPrio n) = wfTree rc n"
  by (simp add: wfTree_def2 [of rc "bumpPrio n"] wfTree_def2 [of rc n] wfData_def Let_def
      split: nodeType.split)

lemma entries_bumpPrio [simp]: "entries (bumpPrio n) = entries n"
  by (simp add: entries_def2 [of "bumpPrio n"] entries_def2 [of n] ownEntry_def)

text \<open>The first byte of every entry is known from the node's kind.\<close>

lemma entries_ne: "(p, l) \<in> set (entries n) \<Longrightarrow> \<exists>q. p = npath (ndata n) @ q"
  by (auto simp: entries_def2 [of n] prefixAll_def)

lemma entries_wrapper:
  assumes "wfTree rc n" "isWrapper n"
  obtains w where "nchildren n = [w]" "wfTree rc w" "ntype (ndata w) = Wildcard" "entries n = entries w"
proof -
  obtain w where "nchildren n = [w]" using assms(2) by (auto simp: isWrapper_def length_Suc_conv)
  then show ?thesis
    using assms that [of w] by (auto simp: isWrapper_def wfTree_def2 [of rc n] entries_def2 [of n] ownEntry_def hasLeaf_def)
qed

lemma entries_hd_catchAll:
  assumes "wfTree rc n" "ntype (ndata n) = Wildcard" "(p, l) \<in> set (entries n)"
  shows "\<exists>q. p = CHR ''/'' # q"
  using assms by (auto simp: wfTree_def2 [of rc n] wfData_def dest!: entries_ne)

lemma entries_hd:
  assumes "wfTree rc n" "startsWith b n" "(p, l) \<in> set (entries n)"
  shows "\<exists>q. p = b # q"
proof (cases "npath (ndata n) = []")
  case False
  then show ?thesis using entries_ne [OF assms(3)] assms(2) by (cases "npath (ndata n)") (auto simp: startsWith_def)
next
  case True
  have wr: "\<exists>q. p = CHR ''/'' # q" if "wfTree rc m" "isWrapper m" "(p, l) \<in> set (entries m)" for m
    using entries_wrapper [OF that(1,2)] that(3) entries_hd_catchAll by metis
  from True assms(2) consider "isWrapper n" "b = CHR ''/''" | "isHolder n" "b = CHR ''/''"
    by (auto simp: startsWith_def)
  then show ?thesis
  proof cases
    case 2
    then obtain m where m: "nchildren n = [m]" "isWrapper m" by (auto simp: isHolder_def length_Suc_conv)
    have "wfTree rc m" "entries n = entries m"
      using assms(1) 2 m by (auto simp: isHolder_def wfTree_def2 [of rc n] entries_def2 [of n] ownEntry_def hasLeaf_def)
    then show ?thesis using wr m 2 assms(3) by simp
  qed (use wr assms in blast)
qed

lemma entries_hd_wild:
  assumes "wfTree rc n" "ntype (ndata n) = Param \<or> ntype (ndata n) = RegexParam" "(p, l) \<in> set (entries n)"
  shows "\<exists>c q. p = c # q \<and> wildByte c"
proof -
  have "npath (ndata n) \<noteq> []" "wildByte (hd (npath (ndata n)))"
    using assms(1,2) by (auto simp: wfTree_def2 [of rc n] wfData_def wildByte_def)
  then show ?thesis using entries_ne [OF assms(3)] by (cases "npath (ndata n)") auto
qed


section \<open>Inserting below a fresh node\<close>

text \<open>The patterns covered: a regular-expression token is the end of its pattern.\<close>

definition regexLast :: "string \<Rightarrow> bool" where
  "regexLast p \<longleftrightarrow>
     (let s = dropWhile (\<lambda>c. c \<noteq> CHR ''{'') p in s = [] \<or> CHR ''/'' \<notin> set s \<and> last s = CHR ''}'')"

lemma regexLast_Cons: "regexLast (c # p) \<Longrightarrow> regexLast p"
proof (cases "c = CHR ''{''")
  case True
  assume r: "regexLast (c # p)"
  obtain a where a: "p = a @ dropWhile (\<lambda>c. c \<noteq> CHR ''{'') p"
    by (metis takeWhile_dropWhile_id)
  then have "set (dropWhile (\<lambda>c. c \<noteq> CHR ''{'') p) \<subseteq> set p"
    "dropWhile (\<lambda>c. c \<noteq> CHR ''{'') p \<noteq> [] \<Longrightarrow> last (dropWhile (\<lambda>c. c \<noteq> CHR ''{'') p) = last p"
    using set_dropWhileD by (fast, metis last_appendR)
  with r True show ?thesis
    by (auto simp: regexLast_def Let_def split: if_splits)
qed (simp add: regexLast_def)

lemma regexLast_drop: "regexLast p \<Longrightarrow> regexLast (drop i p)"
proof (induction i arbitrary: p)
  case (Suc i)
  then show ?case by (cases p) (auto dest: regexLast_Cons)
qed simp

lemma lastIndexByte_snoc [simp]: "lastIndexByte (u @ [c]) c = Some (length u)"
  by (induction u) auto

definition paramish :: "('h, 'f) node \<Rightarrow> bool" where
  "paramish n \<longleftrightarrow> ntype (ndata n) = Param \<or> ntype (ndata n) = RegexParam"

definition freshNode :: "('h, 'f) node \<Rightarrow> bool" where
  "freshNode n \<longleftrightarrow>
     staticNode n \<and> nchildren n = [] \<and> nindices (ndata n) = [] \<and> \<not> nwild (ndata n)
     \<and> npath (ndata n) = [] \<and> \<not> hasLeaf n"

lemma findWildcard_regex_end:
  assumes "findWildcard p = (t, Some i, True)" "p ! i = CHR ''{''" "regexLast p"
  shows "i + length t = length p" "CHR ''/'' \<notin> set t" "last t = CHR ''}''" 
proof -
  obtain a c s where p: "p = a @ c # s" "length a = i" "\<forall>x \<in> set a. \<not> wildByte x"
    and f: "findWildcard (c # s) = (t, Some 0, True)"
    using assms(1) by (rule findWildcard_SomeE)
  have c: "c = CHR ''{''" using assms(2) p by (simp add: nth_append)
  have "dropWhile (\<lambda>c. c \<noteq> CHR ''{'') p = c # s"
    using p(1,3) c by (subst p(1), subst dropWhile_append2) (auto simp: wildByte_def)
  then have s: "CHR ''/'' \<notin> set s" "last (c # s) = CHR ''}''"
    using assms(3) c by (simp_all add: regexLast_def)
  then have ne: "s \<noteq> []" using c by auto
  have tw: "takeWhile (\<lambda>x. x \<noteq> CHR ''/'') s = s" using s(1) by (auto simp: takeWhile_eq_all_conv)
  obtain u where u: "s = u @ [CHR ''}'']" using s(2) ne by (metis append_butlast_last_id last_ConsR)
  obtain k where k: "lastIndexByte s (CHR ''}'') = Some k" "t = c # take (Suc k) s"
    using f c by (auto simp: findWildcard_brace tw split: option.splits)
  have "k = length u" using k(1) u by simp
  then show "i + length t = length p" "CHR ''/'' \<notin> set t" "last t = CHR ''}''"
    using k u p c s by simp_all
qed
definition staticOK :: "('h, 'f) node \<Rightarrow> bool" where
  "staticOK n \<longleftrightarrow>
     (\<forall>x \<in> set (npath (ndata n)). \<not> wildByte x) \<and> (\<forall>x \<in> set (nindices (ndata n)). \<not> wildByte x)
     \<and> distinct (nindices (ndata n)) \<and> list_all2 startsWith (nindices (ndata n)) (staticsOf n)
     \<and> (nwild (ndata n) \<longrightarrow> nchildren n \<noteq> [] \<and> paramish (last (nchildren n)))
     \<and> (npath (ndata n) = [] \<longrightarrow> isHolder n)"

lemma wfData_static:
  "staticNode n \<Longrightarrow> wfData rc n \<longleftrightarrow> isWrapper n \<or> staticOK n"
  by (auto simp: wfData_def staticOK_def paramish_def staticNode_def Let_def)

definition entryOf :: "string \<Rightarrow> 'h option \<Rightarrow> 'f option \<Rightarrow> string \<Rightarrow> string \<times> ('h, 'f) leaf" where
  "entryOf path h f full = (path, h, f, full)"

text \<open>What the wildcard child of an insertion is.\<close>

definition addedWild ::
  "regexLib \<Rightarrow> ('h, 'f) node \<Rightarrow> (string \<times> ('h, 'f) leaf) \<Rightarrow> bool" where
  "addedWild rc w e \<longleftrightarrow> wfTree rc w \<and> paramish w \<and> entries w = [e]"

lemma addedWild_Node:
  assumes "wfData rc (Node c1 ch)" "ntype c1 = Param \<or> ntype c1 = RegexParam"
    "\<forall>c \<in> set ch. wfTree rc c"
    "prefixAll (npath c1) (ownEntry c1 @ concat (map entries ch)) = [e]"
  shows "addedWild rc (Node c1 ch) e"
  using assms by (simp add: addedWild_def paramish_def)

lemma paramNode_wfData:
  assumes "findWildcard path = (wc, Some i, True)" "path ! i = CHR '':''" "2 \<le> length wc"
    and "ch = [] \<or> length ch = 1 \<and> startsWith (CHR ''/'') (hd ch)"
  shows "wfData rc (Node (paramNode wc\<lparr>nprio := p\<rparr>) ch)"
    "wfData rc (Node (paramNode wc\<lparr>nprio := p, nhandler := h, nfast := f, npattern := full\<rparr>) ch)"
proof -
  have wc: "wc = takeWhile (\<lambda>x. x \<noteq> CHR ''/'') (drop i path)"
    using findWildcard_name(1) [OF assms(1)] assms(2) by simp
  have "hd wc = CHR '':''" using findWildcard_split(4) [OF assms(1)] assms(2,3) by force
  moreover have "CHR ''/'' \<notin> set wc" unfolding wc by (auto dest: set_takeWhileD)
  ultimately show "wfData rc (Node (paramNode wc\<lparr>nprio := p\<rparr>) ch)"
    "wfData rc (Node (paramNode wc\<lparr>nprio := p, nhandler := h, nfast := f, npattern := full\<rparr>) ch)"
    using assms(3,4) by (auto simp: wfData_def paramNode_def emptyData_def Let_def)
qed

lemma regexNode_wfData:
  assumes "regexNode rc wc full0 = Inr c0" "hd wc = CHR ''{''" "2 \<le> length wc" "CHR ''/'' \<notin> set wc"
  shows "wfData rc (Node (c0\<lparr>nprio := p, nhandler := h, nfast := f, npattern := full\<rparr>) [])"
    "ntype c0 = RegexParam" "npath c0 = wc"
  using assms
  by (auto simp: regexNode_def wfData_def emptyData_def regexExpr_def Let_def
      split: option.splits if_splits)

lemma insertChild_wf:
  assumes "insertChild rc (n :: ('h, 'f) node) path full h f = Inr m" "h \<noteq> None \<or> f \<noteq> None" "path \<noteq> []"
    "staticNode n" "\<not> nwild (ndata n)" "regexLast path" "wildByte (hd path) \<or> freshNode n"
  shows "if wildByte (hd path)
     then \<exists>w. m = Node ((ndata n)\<lparr>nwild := True\<rparr>) (nchildren n @ [w]) \<and> addedWild rc w (entryOf path h f full)
     else wfTree rc m \<and> startsWith (hd path) m \<and> entries m = [entryOf path h f full] \<and> \<not> isWrapper m"
  using assms
proof (induction rc n path full h f arbitrary: m rule: insertChild.induct)
  case (1 rc n path full h f)
  obtain wc oi v where fw: "findWildcard path = (wc, oi, v)" by (cases "findWildcard path") auto
  obtain d cs where n: "n = Node d cs" by (cases n)
  show ?case
  proof (cases oi)
    case None
    then have nw: "\<not> wildByte (hd path)" "\<forall>c \<in> set path. \<not> wildByte c"
      using findWildcard_noneD fw "1.prems"(3) by auto
    have m: "m = Node (d\<lparr>npath := path, nhandler := h, nfast := f, npattern := full\<rparr>) cs"
      using "1.prems"(1) fw None n by (subst (asm) insertChild.simps) simp
    have "freshNode n" using "1.prems"(7) nw by simp
    then have fr: "cs = []" "nindices d = []" "\<not> nwild d" "npath d = []" "ntype d = Static \<or> ntype d = Root"
      by (auto simp: freshNode_def staticNode_def n)
    have "wfTree rc m"
      using fr nw "1.prems"(3) by (auto simp: m wfData_def staticsOf_def)
    moreover have "startsWith (hd path) m"
      using fr "1.prems"(3) by (simp add: m startsWith_def staticNode_def)
    moreover have "entries m = [entryOf path h f full]"
      using fr "1.prems"(2) by (simp add: m ownEntry_def entryOf_def)
    moreover have "\<not> isWrapper m" using "1.prems"(3) by (simp add: m isWrapper_def)
    ultimately show ?thesis using nw(1) by simp
  next
    case (Some i)
    note fw = fw [unfolded Some]
    have v: "v" and len: "2 \<le> length wc"
      using "1.prems"(1) by (subst (asm) insertChild.simps, auto simp: fw split: if_splits)+
    note fw = fw [unfolded v [THEN eqTrueI]]
    have ne: "wc \<noteq> []" using len by auto
    have sp: "i < length path" "wildByte (path ! i)" "\<forall>c \<in> set (take i path). \<not> wildByte c"
      "take (length wc) (drop i path) = wc" "hd wc = path ! i" "i + length wc \<le> length path"
      using findWildcard_split [OF fw] ne by auto
    have i0: "wildByte (hd path) \<longleftrightarrow> i = 0"
      using sp(1-3) by (cases path; cases i) auto
    consider (par) "hd wc = CHR '':'' \<or> hd wc = CHR ''{''" | (star) "hd wc = CHR ''*''"
      using sp(2,5) by (auto simp: wildByte_def)
    then show ?thesis
    proof cases
      case par
      let ?d2 = "(if i > 0 then d\<lparr>npath := take i path\<rparr> else d)\<lparr>nwild := True\<rparr>"
      obtain c0 :: "('h, 'f) nodeData" where c0: "(if hd wc = CHR '':'' then Inr (paramNode wc) else regexNode rc wc full) = Inr c0"
      proof (cases "if hd wc = CHR '':'' then Inr (paramNode wc) else regexNode rc wc full
          :: goPanic + ('h, 'f) nodeData")
        case (Inl e)
        then have "hd wc \<noteq> CHR '':''" "regexNode rc wc full = (Inl e :: goPanic + ('h, 'f) nodeData)"
            by (simp_all split: if_splits)
        then have "insertChild rc n path full h f = Inl e"
          using par len v by (subst insertChild.simps) (simp add: fw)
        with "1.prems"(1) show ?thesis by simp
      qed (use that in blast)
      let ?c1 = "c0\<lparr>nprio := nprio c0 + 1\<rparr>"
      let ?rest = "drop (length wc) (drop i path)"
      let ?n2 = "(if i > 0 then (ndata n)\<lparr>npath := take i path\<rparr> else ndata n)\<lparr>nwild := True\<rparr>"
      have m0: "(if length wc < length (drop i path)
          then case insertChild rc (Node (emptyData\<lparr>nprio := 1\<rparr>) []) ?rest full h f of
              Inl e \<Rightarrow> Inl e
            | Inr next \<Rightarrow> Inr (Node ?n2 (nchildren n @ [Node ?c1 [next]]))
          else Inr (Node ?n2 (nchildren n @ [Node (?c1\<lparr>nhandler := h, nfast := f, npattern := full\<rparr>) []])))
        = Inr m"
        using "1.prems"(1) len par
        by (subst (asm) insertChild.simps) (simp add: fw c0 Let_def split: if_splits)
      note m = m0 [unfolded n node.sel]
      have dr: "drop i path = wc @ ?rest" using sp(4) by (metis append_take_drop_id)
      have "\<exists>w. m = Node ?d2 (cs @ [w]) \<and> addedWild rc w (entryOf (drop i path) h f full)"
      proof (cases "hd wc = CHR '':''")
        case True
        then have c0': "c0 = paramNode wc" using c0 by simp
        have pc: "path ! i = CHR '':''" using True sp(5) by simp
        show ?thesis
        proof (cases "?rest = []")
          case True
          then have "\<not> length wc < length (drop i path)" by simp
          then have m': "m = Node ?d2 (cs @ [Node (?c1\<lparr>nhandler := h, nfast := f, npattern := full\<rparr>) []])"
            using m by (simp only: if_False sum.inject)
          have "addedWild rc (Node (?c1\<lparr>nhandler := h, nfast := f, npattern := full\<rparr>) []) (entryOf (drop i path) h f full)"
            using paramNode_wfData(2) [OF fw pc len, of "[]"] dr True "1.prems"(2)
            by (intro addedWild_Node) (auto simp: c0' paramNode_def emptyData_def ownEntry_def entryOf_def)
          then show ?thesis using m' by blast
        next
          case False
          then have lt: "length wc < length (drop i path)" by (metis drop_all not_le)
          obtain nx where nx: "insertChild rc (Node (emptyData\<lparr>nprio := 1\<rparr>) []) ?rest full h f = Inr nx"
            "m = Node ?d2 (cs @ [Node ?c1 [nx]])"
          proof (cases "insertChild rc (Node (emptyData\<lparr>nprio := 1\<rparr>) []) ?rest full h f")
            case (Inl e)
            then show ?thesis using m unfolding if_P [OF lt] by simp
          next
            case (Inr nx)
            then have "m = Node ?d2 (cs @ [Node ?c1 [nx]])"
              using m unfolding if_P [OF lt] by (simp only: sum.case sum.inject)
            then show ?thesis using that [OF Inr] by blast
          qed
          have tw: "wc = takeWhile (\<lambda>x. x \<noteq> CHR ''/'') (drop i path)"
            using findWildcard_name(1) [OF fw] pc by simp
          then have rs: "?rest = dropWhile (\<lambda>x. x \<noteq> CHR ''/'') (drop i path)"
            by (metis dropWhile_eq_drop)
          have hd: "hd ?rest = CHR ''/''"
            using False hd_dropWhile [of "\<lambda>x. x \<noteq> CHR ''/''" "drop i path"] unfolding rs by simp
          have fr: "freshNode (Node (emptyData\<lparr>nprio := 1\<rparr>) [])"
            by (simp add: freshNode_def staticNode_def emptyData_def hasLeaf_def)
          have "wfTree rc nx \<and> startsWith (CHR ''/'') nx \<and> entries nx = [entryOf ?rest h f full]"
          proof -
            have nw: "\<not> wildByte (CHR ''/'')" by (simp add: wildByte_def)
            have "\<not> \<not> True" "\<not> length wc < 2" "?rest \<noteq> []" "staticNode (Node (emptyData\<lparr>nprio := 1\<rparr>) [])"
              "\<not> nwild (ndata (Node (emptyData\<lparr>nprio := 1\<rparr>) []))" "regexLast ?rest"
              using len False fr "1.prems"(6) by (simp_all only: freshNode_def regexLast_drop) auto
            from "1.IH" [OF fw [symmetric] refl refl this(1,2) par c0 refl refl refl refl lt nx(1)
                "1.prems"(2) this(3,4,5,6)] fr
            show ?thesis unfolding hd using nw by auto
          qed
          then have "addedWild rc (Node ?c1 [nx]) (entryOf (drop i path) h f full)"
            using paramNode_wfData(1) [OF fw pc len, of "[nx]"] dr
            by (intro addedWild_Node) (auto simp: c0' paramNode_def emptyData_def ownEntry_def entryOf_def)
          then show ?thesis using nx(2) by blast
        qed
      next
        case False
        then have b: "hd wc = CHR ''{''" using par by simp
        then have re: "regexNode rc wc full = Inr c0" using c0 by simp
        have en: "?rest = []" "CHR ''/'' \<notin> set wc"
          using findWildcard_regex_end [OF fw _ "1.prems"(6)] b sp(5) by auto
        note wf = regexNode_wfData [OF re b len en(2)]
        have "\<not> length wc < length (drop i path)" using en(1) by simp
        then have m': "m = Node ?d2 (cs @ [Node (?c1\<lparr>nhandler := h, nfast := f, npattern := full\<rparr>) []])"
          using m by (simp only: if_False sum.inject)
        have "addedWild rc (Node (?c1\<lparr>nhandler := h, nfast := f, npattern := full\<rparr>) []) (entryOf (drop i path) h f full)"
          using wf dr en(1) "1.prems"(2)
          by (intro addedWild_Node) (auto simp: ownEntry_def entryOf_def)
        then show ?thesis using m' by blast
      qed
      then obtain w where w: "m = Node ?d2 (cs @ [w])" "addedWild rc w (entryOf (drop i path) h f full)"
        by blast
      show ?thesis
      proof (cases "i = 0")
        case True
        then show ?thesis using i0 w n by auto
      next
        case False
        then have "freshNode n" using i0 "1.prems"(7) by simp
        then have fr: "cs = []" "nindices d = []" "\<not> nwild d" "npath d = []" "nhandler d = None" "nfast d = None"
          "ntype d = Static \<or> ntype d = Root"
          by (auto simp: freshNode_def staticNode_def n hasLeaf_def)
        have tk: "take i path \<noteq> []" "hd (take i path) = hd path" using False sp(1) by auto
        have wk: "wfTree rc w" "ntype (ndata w) = Param \<or> ntype (ndata w) = RegexParam"
          "entries w = [entryOf (drop i path) h f full]"
          using w(2) by (auto simp: addedWild_def paramish_def)
        have "wfTree rc m"
          using fr wk(1,2) False tk sp(3) by (auto simp: w(1) wfData_def staticsOf_def)
        moreover have "startsWith (hd path) m"
          using fr False tk by (auto simp: w(1) startsWith_def staticNode_def)
        moreover have "entries m = [entryOf path h f full]"
          using fr wk(3) False by (simp add: w(1) ownEntry_def entryOf_def)
        moreover have "\<not> isWrapper m" using False tk(1) by (simp add: w(1) isWrapper_def)
        ultimately show ?thesis using i0 False by simp
      qed
    next
      case star
      have *: "i + length wc = length path" "i \<noteq> 0" "path ! (i - 1) = CHR ''/''"
        "m = catchAllBelow d path full (i - 1) h f"
        using "1.prems"(1) star len v by (subst (asm) insertChild.simps, simp add: fw n split: if_splits)+
      then have "freshNode n" using i0 "1.prems"(7) by simp
      then have fr: "cs = []" "nindices d = []" "\<not> nwild d" "npath d = []" "nhandler d = None" "nfast d = None"
        "ntype d = Static \<or> ntype d = Root"
        by (auto simp: freshNode_def staticNode_def n hasLeaf_def)
      obtain k where k: "i = Suc k" using *(2) by (cases i) auto
      have dk: "drop k path = CHR ''/'' # wc"
        using sp(1,4) *(1,3) k by (metis Cons_nth_drop_Suc Suc_lessD diff_Suc_1 add_diff_cancel_left' length_drop take_all_iff order_refl)
      obtain nm where nm: "wc = CHR ''*'' # nm" "nm \<noteq> []" using star len by (cases wc; cases "tl wc") auto
      let ?leaf = "Node (emptyData\<lparr>npath := drop k path, ntype := Wildcard, nhandler := h,
                                  nfast := f, npattern := full, nprio := 1\<rparr>) []"
      let ?wrap = "Node (emptyData\<lparr>nwild := True, nprio := 1\<rparr>) [?leaf]"
      have m: "m = Node (d\<lparr>npath := take k path, nindices := ''/''\<rparr>) [?wrap]"
        using *(4) k by (simp add: catchAllBelow_def Let_def)
      have wr: "isWrapper ?wrap" by (simp add: isWrapper_def staticNode_def emptyData_def hasLeaf_def)
      have wl: "wfTree rc ?leaf"
        using "1.prems"(2) dk nm by (auto simp: wfData_def hasLeaf_def emptyData_def)
      have ww: "wfTree rc ?wrap" using wr wl by (auto simp: wfData_def emptyData_def)
      have sw: "startsWith (CHR ''/'') ?wrap" using wr by (simp add: startsWith_def isWrapper_def)
      have "\<forall>x \<in> set (take k path). \<not> wildByte x" using sp(3) k by (meson le_SucI order_refl set_take_subset_set_take subsetD)
      moreover have ho: "isHolder m" if "take k path = []"
        using that fr wr by (auto simp: m isHolder_def staticNode_def hasLeaf_def)
      ultimately have "staticOK m"
        using fr sw by (simp add: m staticOK_def staticsOf_def wildByte_def)
      moreover have "staticNode m" using fr by (simp add: m staticNode_def)
      ultimately have "wfTree rc m" using ww by (simp add: wfTree_def2 [of rc m] wfData_static) (simp add: m)
      moreover have "startsWith (hd path) m"
      proof (cases "k = 0")
        case True
        then show ?thesis using ho dk fr by (auto simp: m startsWith_def staticNode_def)
      next
        case False
        then show ?thesis using fr sp(1) k by (auto simp: m startsWith_def staticNode_def)
      qed
      moreover have "entries m = [entryOf path h f full]"
        using fr "1.prems"(2) by (simp add: m ownEntry_def entryOf_def emptyData_def)
      moreover have "\<not> isWrapper m" by (simp add: m isWrapper_def)
      ultimately show ?thesis using i0 *(2) by simp
    qed
  qed
qed

section \<open>Reordering keeps indices and children in step\<close>

definition moved :: "nat \<Rightarrow> nat \<Rightarrow> 'a list \<Rightarrow> 'a \<Rightarrow> 'a list" where
  "moved j pos xs x = take j xs @ x # take (pos - j) (drop j xs) @ drop (Suc pos) xs"

lemma split_moved:
  assumes "j \<le> pos" "pos < length xs"
  shows "xs = take j xs @ take (pos - j) (drop j xs) @ xs ! pos # drop (Suc pos) xs"
proof -
  have "take (pos - j) (drop j xs) @ xs ! pos # drop (Suc pos) xs = drop j xs"
  proof -
    have "drop (pos - j) (drop j xs) = xs ! pos # drop (Suc pos) xs"
      using assms by (simp add: Cons_nth_drop_Suc)
    then show ?thesis by (metis append_take_drop_id)
  qed
  then show ?thesis by simp
qed

lemma mset_moved:
  assumes "j \<le> pos" "pos < length xs"
  shows "mset (moved j pos xs x) = add_mset x (mset xs - {#xs ! pos#})"
proof -
  have "mset xs = add_mset (xs ! pos) (mset (take j xs @ take (pos - j) (drop j xs) @ drop (Suc pos) xs))"
    by (subst split_moved [OF assms]) simp
  then show ?thesis by (simp add: moved_def)
qed

lemma list_all2_moved:
  assumes "list_all2 P xs ys" "pos < length xs" "P a b"
  shows "list_all2 P (moved j pos xs a) (moved j pos ys b)"
  using assms by (auto simp: moved_def intro!: list_all2_appendI)

lemma moved_append:
  "j \<le> pos \<Longrightarrow> pos < length xs \<Longrightarrow> moved j pos (xs @ ws) x = moved j pos xs x @ ws"
  by (simp add: moved_def)

lemma moved_update: "j \<le> length xs \<Longrightarrow> (moved j pos xs x)[j := y] = moved j pos xs y"
  by (simp add: moved_def list_update_append)

lemma moveIndex_moved: "pos < length ix \<Longrightarrow> moveIndex ix j pos = moved j pos ix (ix ! pos)"
  by (simp add: moveIndex_def moved_def) (simp add: take_Suc_conv_app_nth Cons_nth_drop_Suc [symmetric])

lemma moved_id: "pos < length xs \<Longrightarrow> moved pos pos xs (xs ! pos) = xs"
  by (simp add: moved_def Cons_nth_drop_Suc)

lemma incrementChildPrio_step:
  assumes "incrementChildPrio d (S @ W) pos = Inr (d', cs', j)"
    and "list_all2 P (nindices d) S" "pos < length S" "P (nindices d ! pos) m"
  shows "cs' ! j = bumpPrio (S ! pos)"
    "\<exists>S' ix. cs'[j := m] = S' @ W \<and> d' = d\<lparr>nindices := ix\<rparr> \<and> list_all2 P ix S'
       \<and> mset ix = mset (nindices d) \<and> mset S' = add_mset m (mset S - {#S ! pos#})"
proof -
  note D = incrementChildPrio_InrD [OF assms(1)]
  have len: "length (nindices d) = length S" using assms(2) by (rule list_all2_lengthD)
  have nth: "(S @ W) ! pos = S ! pos" using assms(3) by (simp add: nth_append)
  show "cs' ! j = bumpPrio (S ! pos)" using D(4) nth by simp
  have "cs' = moved j pos S (bumpPrio (S ! pos)) @ W"
    using D(2,5) nth assms(3) by (simp add: moved_def)
  then have cs: "cs'[j := m] = moved j pos S m @ W"
    using D(2) assms(3) by (simp add: moved_def list_update_append)
  define ix where "ix = moved j pos (nindices d) (nindices d ! pos)"
  have "nindices d' = ix \<and> d' = d\<lparr>nindices := ix\<rparr>"
    using D(6) assms(3) len by (simp add: ix_def moveIndex_moved moved_id split: if_splits)
  moreover have "list_all2 P ix (moved j pos S m)"
    unfolding ix_def using assms(2,4) assms(3) len by (intro list_all2_moved) simp_all
  moreover have "mset ix = mset (nindices d)"
    using mset_moved [of j pos "nindices d"] D(2) assms(3) len by (simp add: ix_def)
  moreover have "mset (moved j pos S m) = add_mset m (mset S - {#S ! pos#})"
    using mset_moved [of j pos S m] D(2) assms(3) by simp
  ultimately show "\<exists>S' ix. cs'[j := m] = S' @ W \<and> d' = d\<lparr>nindices := ix\<rparr> \<and> list_all2 P ix S'
       \<and> mset ix = mset (nindices d) \<and> mset S' = add_mset m (mset S - {#S ! pos#})"
    using cs by blast
qed

section \<open>Splitting a node\<close>

lemma ownEntry_simps [simp]:
  "ownEntry (d\<lparr>npath := p\<rparr>) = ownEntry d" "ownEntry (d\<lparr>nindices := ix\<rparr>) = ownEntry d"
  "ownEntry (d\<lparr>nwild := w\<rparr>) = ownEntry d" "ownEntry (d\<lparr>ntype := t\<rparr>) = ownEntry d"
  "ownEntry (d\<lparr>nprio := k\<rparr>) = ownEntry d" "ownEntry (d\<lparr>nmaxParams := x\<rparr>) = ownEntry d"
  by (simp_all add: ownEntry_def)

lemma splitNode_entries:
  assumes "i < length (npath (ndata n))" "take i path = take i (npath (ndata n))"
  shows "entries (splitNode n path i) = entries n"
proof -
  have "take i path @ drop i (npath (ndata n)) = npath (ndata n)" using assms(2) by simp
  then show ?thesis
    by (simp add: splitNode_def Let_def entries_def2 [of n] ownEntry_def split: if_splits)
qed

lemma splitNode_wf:
  assumes "wfTree rc n" "staticNode n" "0 < i" "i < length (npath (ndata n))"
    "take i path = take i (npath (ndata n))"
  shows "wfTree rc (splitNode n path i)" "staticOK (splitNode n path i)"
proof -
  have ne: "npath (ndata n) \<noteq> []" using assms(4) by auto
  then have "\<not> isWrapper n" by (simp add: isWrapper_def)
  then have ok: "staticOK n" using assms(1,2) by (simp add: wfTree_def2 [of rc n] wfData_static)
  have cw: "\<forall>c \<in> set (nchildren n). wfTree rc c" using assms(1) by (simp add: wfTree_def2 [of rc n])
  obtain c where c: "c = Node \<lparr>npath = drop i (npath (ndata n)), nhandler = nhandler (ndata n),
      nindices = nindices (ndata n), nfast = nfast (ndata n), npattern = npattern (ndata n),
      nprio = nprio (ndata n) - 1, ntype = Static, nwild = nwild (ndata n), nregexpEnd = 0,
      nmaxParams = 0, nregexp = nregexp (ndata n)\<rparr> (nchildren n)" by blast
  have sp: "nchildren (splitNode n path i) = [c]" by (simp add: splitNode_def Let_def c)
  have okc: "staticOK c"
    using ok assms(4) unfolding staticOK_def by (auto simp: c staticsOf_def dest: in_set_dropD)
  have stc: "staticNode c" by (simp add: c staticNode_def)
  have wc: "wfTree rc c"
    using okc stc cw by (simp add: wfTree_def2 [of rc c] wfData_static) (simp add: c)
  have sw: "startsWith (npath (ndata n) ! i) c"
    using assms(4) stc by (simp add: startsWith_def c hd_drop_conv_nth)
  have nw: "\<forall>x \<in> set (npath (ndata n)). \<not> wildByte x" using ok by (simp add: staticOK_def)
  have tk: "set (take i path) \<subseteq> set (npath (ndata n))" "take i path \<noteq> []"
    using assms(3-5) ne by (auto simp: set_take_subset)
  show okn: "staticOK (splitNode n path i)"
    using nw tk sw assms(4) unfolding staticOK_def staticsOf_def by (auto simp: splitNode_parts sp)
  have "staticNode (splitNode n path i)"
    using assms(2) by (simp add: staticNode_def splitNode_parts)
  with okn wc show "wfTree rc (splitNode n path i)"
    by (simp add: wfTree_def2 [of rc "splitNode n path i"] wfData_static sp)
qed

section \<open>One step of the insertion walk\<close>

definition enters :: "('h, 'f) node \<Rightarrow> string \<Rightarrow> bool" where
  "enters n path \<longleftrightarrow> path \<noteq> [] \<and> (startsWith (hd path) n \<or> paramish n \<and> sameWildcard n path)"

text \<open>What an insertion below \<open>n\<close> has to give.\<close>

definition inserted ::
  "regexLib \<Rightarrow> ('h, 'f) node \<Rightarrow> ('h, 'f) node \<Rightarrow> string \<Rightarrow> (string \<times> ('h, 'f) leaf) \<Rightarrow> bool" where
  "inserted rc n n' path e \<longleftrightarrow>
     wfTree rc n' \<and> mset (entries n') = add_mset e (mset (entries n))
     \<and> path \<notin> fst ` set (entries n)
     \<and> (startsWith (hd path) n \<longrightarrow> startsWith (hd path) n')
     \<and> (paramish n \<longrightarrow> paramish n') \<and> \<not> isWrapper n'"

lemma addWalk_wrapper:
  assumes "isWrapper n" "path \<noteq> []" "hd path = CHR ''/''"
  shows "\<exists>e. addWalk rc n path full h f = Inl e"
proof -
  obtain w where w: "nchildren n = [w]" "ntype (ndata w) = Wildcard" "npath (ndata n) = []" "nwild (ndata n)"
    "nindices (ndata n) = []" "staticNode n"
    using assms(1) by (auto simp: isWrapper_def length_Suc_conv)
  have "longestCommonPrefix path [] = 0" by (cases path) auto
  then have "splitAt n path = n" using w by (simp add: splitAt_def Let_def)
  with w show ?thesis
    using assms(2,3) \<open>longestCommonPrefix path [] = 0\<close>
    by (subst addWalk.simps) (auto simp: Let_def staticNode_def)
qed

lemma in_prefixAll: "(p, l) \<in> set (prefixAll x es) \<longleftrightarrow> (\<exists>q. p = x @ q \<and> (q, l) \<in> set es)"
  by (induction es) auto

lemma prefixAll_mset: "mset (prefixAll p es) = image_mset (\<lambda>(q, l). (p @ q, l)) (mset es)"
  by (simp add: prefixAll_def)

lemma entries_mset:
  "mset (entries n) =
     image_mset (\<lambda>(q, l). (npath (ndata n) @ q, l))
       (mset (ownEntry (ndata n)) + (\<Sum>c \<in># mset (nchildren n). mset (entries c)))"
  by (simp add: entries_def2 [of n] prefixAll_mset mset_concat multiset.map_comp comp_def flip: sum_mset_sum_list mset_map)

lemma in_entries_iff:
  "(p, l) \<in> set (entries n) \<longleftrightarrow>
     (\<exists>q. p = npath (ndata n) @ q \<and> ((q, l) \<in> set (ownEntry (ndata n)) \<or> (\<exists>c \<in> set (nchildren n). (q, l) \<in> set (entries c))))"
  by (auto simp: entries_def2 [of n] in_prefixAll)

text \<open>A path that goes on below the node is an entry only if one of the children has it.\<close>

lemma entry_below:
  assumes "path1 \<noteq> []" "\<forall>c \<in> set (nchildren n). path1 \<notin> fst ` set (entries c)"
  shows "npath (ndata n) @ path1 \<notin> fst ` set (entries n)"
proof
  assume "npath (ndata n) @ path1 \<in> fst ` set (entries n)"
  then obtain l where "(npath (ndata n) @ path1, l) \<in> set (entries n)" by auto
  then have "(path1, l) \<in> set (ownEntry (ndata n)) \<or> (\<exists>c \<in> set (nchildren n). (path1, l) \<in> set (entries c))"
    by (simp add: in_entries_iff [of _ _ n])
  moreover have "(path1, l) \<notin> set (ownEntry (ndata n))" using assms(1) by (simp add: ownEntry_def)
  ultimately obtain c where "c \<in> set (nchildren n)" "(path1, l) \<in> set (entries c)" by blast
  then show False using assms(2) by (metis fst_conv image_eqI)
qed

lemma staticOK_parts:
  assumes "staticOK n"
  obtains S W where "nchildren n = S @ W" "list_all2 startsWith (nindices (ndata n)) S"
    "W = (if nwild (ndata n) then [last (nchildren n)] else [])" "staticsOf n = S"
    "\<forall>w \<in> set W. paramish w"
  using assms that [of "staticsOf n" "if nwild (ndata n) then [last (nchildren n)] else []"]
  by (auto simp: staticOK_def staticsOf_def)

text \<open>The static children changed, in step with the indices.\<close>

lemma inserted_static:
  assumes "wfTree rc n" "staticOK n" "staticNode n" "npath (ndata n) \<noteq> []"
    and cs: "nchildren n = S @ W" "W = (if nwild (ndata n) then [last (nchildren n)] else [])"
    and new: "list_all2 startsWith ix S'" "distinct ix" "\<forall>x \<in> set ix. \<not> wildByte x"
      "\<forall>c \<in> set S'. wfTree rc c" "path1 \<noteq> []"
      "(\<Sum>c \<in># mset S'. mset (entries c)) = add_mset (entryOf path1 h f full) (\<Sum>c \<in># mset S. mset (entries c))"
      "\<forall>c \<in> set (nchildren n). path1 \<notin> fst ` set (entries c)"
    and hd: "npath (ndata n) @ path1 = path"
  shows "inserted rc n (Node ((ndata n)\<lparr>nindices := ix\<rparr>) (S' @ W)) path (entryOf path h f full)"
proof -
  let ?m = "Node ((ndata n)\<lparr>nindices := ix\<rparr>) (S' @ W)"
  have par: "nwild (ndata n) \<longrightarrow> nchildren n \<noteq> [] \<and> paramish (last (nchildren n))"
    and np: "\<forall>x \<in> set (npath (ndata n)). \<not> wildByte x"
    using assms(2) by (simp_all add: staticOK_def)
  have "staticsOf ?m = S'" using cs(2) by (simp add: staticsOf_def)
  then have "staticOK ?m"
    using new(1-3) par np cs(2) assms(4) by (simp add: staticOK_def)
  moreover have "staticNode ?m" using assms(3) by (simp add: staticNode_def)
  moreover have "\<forall>c \<in> set (S' @ W). wfTree rc c"
    using assms(1) cs(1) new(4) by (auto simp: wfTree_def2 [of rc n])
  ultimately have "wfTree rc ?m" by (simp add: wfTree_def2 [of rc ?m] wfData_static)
  moreover have "mset (entries ?m) = add_mset (entryOf path h f full) (mset (entries n))"
    using new(6)
    by (simp add: entries_mset [of n] entries_mset [of ?m] cs(1) entryOf_def del: entries.simps flip: hd)
  moreover have "path \<notin> fst ` set (entries n)"
    using entry_below [OF new(5,7)] by (simp add: hd)
  ultimately show ?thesis
    using assms(3,4) by (simp add: inserted_def startsWith_def staticNode_def paramish_def isWrapper_def)
qed

lemma startsWith_heads:
  assumes "list_all2 startsWith ix S" "\<forall>c \<in> set S. wfTree rc c" "k \<in> set S" "(p, l) \<in> set (entries k)"
  shows "p \<noteq> [] \<and> hd p \<in> set ix"
proof -
  obtain j where j: "j < length S" "S ! j = k" using assms(3) by (auto simp: in_set_conv_nth)
  then have "startsWith (ix ! j) k" "j < length ix"
    using assms(1) by (auto simp: list_all2_conv_all_nth)
  then show ?thesis using entries_hd [of rc k "ix ! j" p l] assms(2-4) by auto
qed

lemma paramish_heads:
  "wfTree rc w \<Longrightarrow> paramish w \<Longrightarrow> (p, l) \<in> set (entries w) \<Longrightarrow> p \<noteq> [] \<and> wildByte (hd p)"
  using entries_hd_wild [of rc w p l] by (auto simp: paramish_def)

lemma inserted_step:
  assumes "inserted rc k m path1 (entryOf path1 h f full)" "k \<in># M"
  shows "(\<Sum>c \<in># add_mset m (M - {#k#}). mset (entries c))
     = add_mset (entryOf path1 h f full) (\<Sum>c \<in># M. mset (entries c))"
proof -
  obtain N where "M = add_mset k N" using assms(2) by (metis insert_DiffM)
  then show ?thesis using assms(1) by (simp add: inserted_def)
qed

text \<open>Descending through an index.\<close>

lemma inserted_index:
  assumes "wfTree rc n" "staticOK n" "staticNode n" "npath (ndata n) \<noteq> []" "npath (ndata n) @ path1 = path"
    and "path1 \<noteq> []" "findIdx (\<lambda>x. hd path1 = x) (nindices (ndata n)) = Some j"
    and inc: "incrementChildPrio (ndata n) (nchildren n) j = Inr (d', cs', j')"
    and sub: "\<And>k. k \<in> set (nchildren n) \<Longrightarrow> startsWith (hd path1) k \<Longrightarrow> cs' ! j' = bumpPrio k
      \<Longrightarrow> inserted rc k m path1 (entryOf path1 h f full)"
  shows "inserted rc n (Node d' (cs'[j' := m])) path (entryOf path h f full)"
proof -
  obtain S W where SW: "nchildren n = S @ W" "list_all2 startsWith (nindices (ndata n)) S"
    "W = (if nwild (ndata n) then [last (nchildren n)] else [])" "\<forall>w \<in> set W. paramish w"
    using staticOK_parts [OF assms(2)] by metis
  have len: "length (nindices (ndata n)) = length S" using SW(2) by (rule list_all2_lengthD)
  have j: "j < length S" "nindices (ndata n) ! j = hd path1"
    using findIdx_SomeD [OF assms(7)] len by auto
  let ?k = "S ! j"
  have k: "?k \<in> set (nchildren n)" "startsWith (hd path1) ?k" "?k \<in># mset S"
    using j list_all2_nthD2 [OF SW(2) j(1)] by (simp_all add: SW(1))
  have bump: "cs' ! j' = bumpPrio ?k"
    using incrementChildPrio_InrD(1,4) [OF inc] SW(1) j(1) by (simp add: nth_append)
  have ins: "inserted rc ?k m path1 (entryOf path1 h f full)" using sub [OF k(1,2) bump] .
  then have m: "startsWith (hd path1) m" "wfTree rc m" "path1 \<notin> fst ` set (entries ?k)"
    using k(2) by (auto simp: inserted_def)
  obtain S' ix where S': "cs'[j' := m] = S' @ W" "d' = (ndata n)\<lparr>nindices := ix\<rparr>"
    "list_all2 startsWith ix S'" "mset ix = mset (nindices (ndata n))" "mset S' = add_mset m (mset S - {#?k#})"
    using incrementChildPrio_step(2) [OF inc [unfolded SW(1)] SW(2) j(1), of m] j(2) m(1) by auto
  have cw: "\<forall>c \<in> set (nchildren n). wfTree rc c" using assms(1) by (simp add: wfTree_def2 [of rc n])
  have set': "set ix = set (nindices (ndata n))" "distinct ix"
    using S'(4) assms(2) by (metis mset_eq_setD, metis mset_eq_imp_distinct_iff staticOK_def)
  have "set S' \<subseteq> insert m (set S)"
    using S'(5) by (metis insert_iff in_diffD set_mset_add_mset_insert set_mset_mset subsetI)
  then have "\<forall>c \<in> set S'. wfTree rc c" using m(2) cw SW(1) by auto
  moreover have "path1 \<notin> fst ` set (entries c)" if c: "c \<in> set (nchildren n)" for c
  proof
    assume "path1 \<in> fst ` set (entries c)"
    then obtain l where l: "(path1, l) \<in> set (entries c)" by auto
    have wc: "wfTree rc c" using cw c by blast
    have nwc: "\<not> wildByte (hd path1)" using assms(2) j len by (metis nth_mem staticOK_def)
    from c SW(1) consider "c \<in> set S" | "c \<in> set W" by auto
    then show False
    proof cases
      case 1
      then obtain i where i: "i < length S" "S ! i = c" by (auto simp: in_set_conv_nth)
      have "startsWith (nindices (ndata n) ! i) c" using i SW(2) by (auto simp: list_all2_conv_all_nth)
      then have "nindices (ndata n) ! i = hd path1" using entries_hd [OF wc _ l, of "nindices (ndata n) ! i"] by auto
      then have "i = j" using i(1) j len assms(2) by (metis nth_eq_iff_index_eq staticOK_def)
      then show False using l m(3) i by force
    next
      case 2
      then show False using paramish_heads [OF wc _ l] SW(4) nwc by auto
    qed
  qed
  ultimately show ?thesis
    unfolding S'(1,2)
    using inserted_static [OF assms(1-4) SW(1,3) S'(3) set'(2) _ _ assms(6)] set'(1) assms(2,5)
      inserted_step [OF ins k(3)] S'(5)
    by (simp add: staticOK_def)
qed

text \<open>A new static child.\<close>

lemma emptyNode_fresh [simp]: "freshNode (bumpPrio emptyNode)"
  by (simp add: freshNode_def emptyNode_def emptyData_def staticNode_def hasLeaf_def bumpPrio_def)

lemma inserted_new_static:
  assumes "wfTree rc n" "staticOK n" "staticNode n" "npath (ndata n) \<noteq> []" "npath (ndata n) @ path1 = path"
    and "path1 \<noteq> []" "findIdx (\<lambda>x. hd path1 = x) (nindices (ndata n)) = None" "\<not> wildByte (hd path1)"
    and add: "addStaticChild (ndata n) (nchildren n) (hd path1) = Inr (d', cs', j')"
    and ins: "insertChild rc (cs' ! j') path1 full h f = Inr m" "h \<noteq> None \<or> f \<noteq> None" "regexLast path1"
  shows "inserted rc n (Node d' (cs'[j' := m])) path (entryOf path h f full)"
proof -
  obtain S W where SW: "nchildren n = S @ W" "list_all2 startsWith (nindices (ndata n)) S"
    "W = (if nwild (ndata n) then [last (nchildren n)] else [])" "\<forall>w \<in> set W. paramish w"
    using staticOK_parts [OF assms(2)] by metis
  have len: "length (nindices (ndata n)) = length S" using SW(2) by (rule list_all2_lengthD)
  let ?d1 = "(ndata n)\<lparr>nindices := nindices (ndata n) @ [hd path1]\<rparr>"
  have "(if nwild (ndata n) then butlast (nchildren n) @ [emptyNode, last (nchildren n)]
      else nchildren n @ [emptyNode]) = (S @ [emptyNode]) @ W"
  proof (cases "nwild (ndata n)")
    case True
    then have W: "W = [last (nchildren n)]" using SW(3) by simp
    then have "butlast (nchildren n) = S" by (subst SW(1)) simp
    then show ?thesis using True W by simp
  qed (use SW(1,3) in simp)
  then have inc: "incrementChildPrio ?d1 ((S @ [emptyNode]) @ W) (length S) = Inr (d', cs', j')"
    using add len by (simp add: addStaticChild_def Let_def)
  have cj: "cs' ! j' = bumpPrio emptyNode"
    using incrementChildPrio_InrD(4) [OF inc] by (simp add: nth_append)
  have m: "wfTree rc m" "startsWith (hd path1) m" "entries m = [entryOf path1 h f full]"
    using insertChild_wf [OF ins(1,2) assms(6) _ _ ins(3)] assms(8) emptyNode_fresh
    unfolding cj by (auto simp: freshNode_def)
  let ?P = "\<lambda>b c. startsWith b c \<or> c = emptyNode"
  have "\<exists>S' ix. cs'[j' := m] = S' @ W \<and> d' = ?d1\<lparr>nindices := ix\<rparr> \<and> list_all2 startsWith ix S'
     \<and> mset ix = mset (nindices (ndata n) @ [hd path1]) \<and> mset S' = add_mset m (mset S)"
  proof -
    note D = incrementChildPrio_InrD [OF inc]
    have "cs' = moved j' (length S) (S @ [emptyNode]) (bumpPrio emptyNode) @ W"
      using D(2,5) by (simp add: moved_def nth_append)
    then have cs: "cs'[j' := m] = moved j' (length S) (S @ [emptyNode]) m @ W"
      using D(2) by (simp add: moved_def list_update_append)
    define ix where "ix = moved j' (length S) (nindices (ndata n) @ [hd path1]) (hd path1)"
    have "d' = ?d1\<lparr>nindices := ix\<rparr>"
      using D(6) len moveIndex_moved [of "length S" "nindices (ndata n) @ [hd path1]" j']
        moved_id [of "length S" "nindices (ndata n) @ [hd path1]"]
      by (auto simp: ix_def nth_append split: if_splits)
    moreover have "list_all2 startsWith ix (moved j' (length S) (S @ [emptyNode]) m)"
      using SW(2) m(2) D(2) len unfolding ix_def moved_def
      by (auto intro!: list_all2_appendI)
    moreover have "mset ix = mset (nindices (ndata n) @ [hd path1])"
      using mset_moved [of j' "length S" "nindices (ndata n) @ [hd path1]"] D(2) len
      by (simp add: ix_def nth_append)
    moreover have "mset (moved j' (length S) (S @ [emptyNode]) m) = add_mset m (mset S)"
      using mset_moved [of j' "length S" "S @ [emptyNode]" m] D(2) by (simp add: nth_append)
    ultimately show ?thesis using cs by blast
  qed
  then obtain S' ix where S': "cs'[j' := m] = S' @ W" "d' = (ndata n)\<lparr>nindices := ix\<rparr>"
    "list_all2 startsWith ix S'" "mset ix = mset (nindices (ndata n) @ [hd path1])" "mset S' = add_mset m (mset S)"
    by auto
  have cw: "\<forall>c \<in> set (nchildren n). wfTree rc c" using assms(1) by (simp add: wfTree_def2 [of rc n])
  have new: "hd path1 \<notin> set (nindices (ndata n))" using assms(7) by (auto simp: findIdx_None_iff)
  then have "distinct (nindices (ndata n) @ [hd path1])" using assms(2) by (simp add: staticOK_def)
  then have set': "set ix = insert (hd path1) (set (nindices (ndata n)))" "distinct ix"
    using S'(4) by (metis mset_eq_setD list.simps(15) set_append Un_insert_right empty_set sup_bot.right_neutral,
        metis mset_eq_imp_distinct_iff)
  have "set S' = insert m (set S)" using S'(5) by (metis set_mset_add_mset_insert set_mset_mset)
  then have "\<forall>c \<in> set S'. wfTree rc c" using m(1) cw SW(1) by auto
  moreover have "path1 \<notin> fst ` set (entries c)" if c: "c \<in> set (nchildren n)" for c
  proof
    assume "path1 \<in> fst ` set (entries c)"
    then obtain l where l: "(path1, l) \<in> set (entries c)" by auto
    have wc: "wfTree rc c" using cw c by blast
    from c SW(1) consider "c \<in> set S" | "c \<in> set W" by auto
    then show False
    proof cases
      case 1
      then show False using startsWith_heads [OF SW(2) _ 1 l] cw SW(1) new by auto
    next
      case 2
      then show False using paramish_heads [OF wc _ l] SW(4) assms(8) by auto
    qed
  qed
  ultimately show ?thesis
    unfolding S'(1,2)
    using inserted_static [OF assms(1-4) SW(1,3) S'(3) set'(2) _ _ assms(6)] set'(1) assms(2,5,8)
      S'(5) m(3)
    by (simp add: staticOK_def)
qed

text \<open>The wildcard child changed or added.\<close>

lemma inserted_wildChild:
  assumes "wfTree rc n" "staticOK n" "staticNode n" "npath (ndata n) \<noteq> []" "npath (ndata n) @ path1 = path"
    and "path1 \<noteq> []" "wildByte (hd path1)"
    and cs: "nchildren n = staticsOf n @ W" "nwild (ndata n) \<longleftrightarrow> W \<noteq> []"
    and w: "wfTree rc w" "paramish w"
      "mset (entries w) = add_mset (entryOf path1 h f full) (\<Sum>c \<in># mset W. mset (entries c))"
      "\<forall>c \<in> set W. path1 \<notin> fst ` set (entries c)"
  shows "inserted rc n (Node ((ndata n)\<lparr>nwild := True\<rparr>) (staticsOf n @ [w])) path (entryOf path h f full)"
proof -
  let ?m = "Node ((ndata n)\<lparr>nwild := True\<rparr>) (staticsOf n @ [w])"
  have st: "list_all2 startsWith (nindices (ndata n)) (staticsOf n)" using assms(2) by (simp add: staticOK_def)
  have cw: "\<forall>c \<in> set (nchildren n). wfTree rc c" using assms(1) by (simp add: wfTree_def2 [of rc n])
  have "staticsOf ?m = staticsOf n" by (simp add: staticsOf_def)
  then have "staticOK ?m" using assms(2,4) w(2) by (simp add: staticOK_def)
  moreover have "staticNode ?m" using assms(3) by (simp add: staticNode_def)
  moreover have "\<forall>c \<in> set (staticsOf n @ [w]). wfTree rc c" using cw cs(1) w(1) by auto
  ultimately have "wfTree rc ?m" by (simp add: wfTree_def2 [of rc ?m] wfData_static)
  moreover have "mset (entries ?m) = add_mset (entryOf path h f full) (mset (entries n))"
    using w(3)
    by (simp add: entries_mset [of n] entries_mset [of ?m] cs(1) entryOf_def del: entries.simps flip: assms(5))
  moreover have "path1 \<notin> fst ` set (entries c)" if c: "c \<in> set (nchildren n)" for c
  proof (cases "c \<in> set W")
    case False
    then have cS: "c \<in> set (staticsOf n)" using c unfolding cs(1) by simp
    have "\<forall>x \<in> set (nindices (ndata n)). \<not> wildByte x" using assms(2) by (simp add: staticOK_def)
    moreover have "hd p \<in> set (nindices (ndata n))" if "(p, l) \<in> set (entries c)" for p l
      using startsWith_heads [OF st _ cS that] cw cs(1) by auto
    ultimately show ?thesis using assms(7) by auto
  qed (use w(4) in blast)
  then have "\<forall>c \<in> set (nchildren n). path1 \<notin> fst ` set (entries c)" by blast
  then have "path \<notin> fst ` set (entries n)" using entry_below [OF assms(6)] by (simp flip: assms(5))
  ultimately show ?thesis
    using assms(3,4) by (simp add: inserted_def startsWith_def staticNode_def paramish_def isWrapper_def)
qed

text \<open>Descending from a parameter to what follows its segment.\<close>

lemma inserted_param:
  assumes "wfTree rc n" "ntype (ndata n) = Param" "npath (ndata n) @ path1 = path" "path1 \<noteq> []"
    and "nchildren n = [k]" "inserted rc k m path1 (entryOf path1 h f full)" "startsWith (CHR ''/'') m"
  shows "inserted rc n (Node (ndata n) [m]) path (entryOf path h f full)"
proof -
  let ?m = "Node (ndata n) [m]"
  have "wfData rc n" using assms(1) by (simp add: wfTree_def2 [of rc n])
  then have "wfData rc ?m" using assms(2,5,7) by (auto simp: wfData_def Let_def)
  then have "wfTree rc ?m" using assms(6) by (simp add: inserted_def)
  moreover have "mset (entries ?m) = add_mset (entryOf path h f full) (mset (entries n))"
    using assms(6)
    by (simp add: inserted_def entries_mset [of n] entries_mset [of ?m] assms(5) entryOf_def del: entries.simps
        flip: assms(3))
  moreover have "path \<notin> fst ` set (entries n)"
    using entry_below [OF assms(4), of n] assms(5,6) by (simp add: inserted_def flip: assms(3))
  ultimately show ?thesis using assms(2) by (simp add: inserted_def startsWith_def staticNode_def paramish_def isWrapper_def)
qed

text \<open>A parameter that was a leaf gets its first child.\<close>

lemma inserted_param_leaf:
  assumes "wfTree rc n" "ntype (ndata n) = Param" "npath (ndata n) @ path1 = path" "hd path1 = CHR ''/''" "path1 \<noteq> []"
    and "nchildren n = []"
    and "addStaticChild (ndata n) [] (CHR ''/'') = Inr (d', cs', j')"
    and ins: "insertChild rc (cs' ! j') path1 full h f = Inr m" "h \<noteq> None \<or> f \<noteq> None" "regexLast path1"
  shows "inserted rc n (Node d' (cs'[j' := m])) path (entryOf path h f full)"
proof -
  have wd: "wfData rc n" using assms(1) by (simp add: wfTree_def2 [of rc n])
  have nw: "\<not> nwild (ndata n)" "nindices (ndata n) = []"
    using wd assms(2,6) by (auto simp: wfData_def Let_def)
  have d': "d' = (ndata n)\<lparr>nindices := ''/''\<rparr>" "cs' = [bumpPrio emptyNode]" "j' = 0"
    using assms(7) nw by (auto simp: addStaticChild_def incrementChildPrio_def Let_def)
  have "\<not> wildByte (CHR ''/'')" by (simp add: wildByte_def)
  then have m: "wfTree rc m" "startsWith (CHR ''/'') m" "entries m = [entryOf path1 h f full]"
    using insertChild_wf [OF ins(1,2) assms(5) _ _ ins(3)] emptyNode_fresh
    by (auto simp: d' assms(4) freshNode_def)
  let ?m = "Node d' [m]"
  have "wfData rc ?m" using wd assms(2) m(2) d'(1) by (auto simp: wfData_def Let_def)
  then have "wfTree rc ?m" using m(1) by simp
  moreover have "mset (entries ?m) = add_mset (entryOf path h f full) (mset (entries n))"
    using m(3)
    by (simp add: entries_mset [of n] entries_mset [of "Node ((ndata n)\<lparr>nindices := ''/''\<rparr>) [m]"] assms(6)
        d'(1) entryOf_def del: entries.simps flip: assms(3))
  moreover have "path \<notin> fst ` set (entries n)"
    using entry_below [OF assms(5), of n] assms(6) by (simp flip: assms(3))
  ultimately show ?thesis
    using assms(2) d' by (simp add: inserted_def startsWith_def staticNode_def paramish_def isWrapper_def)
qed

text \<open>The pattern ends at the node.\<close>

lemma inserted_own:
  assumes "wfTree rc n" "npath (ndata n) = path" "path \<noteq> []" "\<not> hasLeaf n" "h \<noteq> None \<or> f \<noteq> None"
    and "staticNode n \<or> paramish n"
  shows "inserted rc n (Node ((ndata n)\<lparr>nhandler := h, nfast := f, npattern := full\<rparr>) (nchildren n))
    path (entryOf path h f full)"
proof -
  let ?m = "Node ((ndata n)\<lparr>nhandler := h, nfast := f, npattern := full\<rparr>) (nchildren n)"
  have wd: "wfData rc n" and cw: "\<forall>c \<in> set (nchildren n). wfTree rc c"
    using assms(1) by (simp_all add: wfTree_def2 [of rc n])
  have "wfData rc ?m"
  proof (cases "staticNode n")
    case True
    have "\<not> isWrapper n" "npath (ndata n) \<noteq> []" using assms(2,3) by (auto simp: isWrapper_def)
    then have "staticOK n" using wd True by (simp add: wfData_static)
    moreover have "staticsOf ?m = staticsOf n" by (simp add: staticsOf_def)
    ultimately have "staticOK ?m" using \<open>npath (ndata n) \<noteq> []\<close> by (simp add: staticOK_def)
    moreover have "staticNode ?m" using True by (simp add: staticNode_def)
    ultimately show ?thesis by (simp add: wfData_static)
  next
    case False
    then show ?thesis using wd assms(6) by (auto simp: paramish_def wfData_def Let_def)
  qed
  then have "wfTree rc ?m" using cw by simp
  moreover have "mset (entries ?m) = add_mset (entryOf path h f full) (mset (entries n))"
    using assms(2,4,5)
    by (simp add: entries_mset [of n] entries_mset [of ?m] entryOf_def ownEntry_def hasLeaf_def del: entries.simps)
  moreover have "path \<notin> fst ` set (entries n)"
  proof
    assume "path \<in> fst ` set (entries n)"
    then obtain l where "(path, l) \<in> set (entries n)" by auto
    then obtain q where q: "path = npath (ndata n) @ q"
      "(q, l) \<in> set (ownEntry (ndata n)) \<or> (\<exists>c \<in> set (nchildren n). (q, l) \<in> set (entries c))"
      by (auto simp: in_entries_iff [of _ _ n])
    have "q = []" using q(1) assms(2) by simp
    have own: "ownEntry (ndata n) = []" using assms(4) by (simp add: ownEntry_def hasLeaf_def)
    then obtain c where c: "c \<in> set (nchildren n)" "([], l) \<in> set (entries c)"
      using q(2) \<open>q = []\<close> by auto
    have "\<exists>b. startsWith b c \<or> paramish c"
    proof (cases "staticNode n")
      case True
      have "\<not> isWrapper n" "npath (ndata n) \<noteq> []" using assms(2,3) by (auto simp: isWrapper_def)
      then have "staticOK n" using wd True by (simp add: wfData_static)
      then obtain S W where SW: "nchildren n = S @ W" "list_all2 startsWith (nindices (ndata n)) S" "\<forall>w \<in> set W. paramish w"
        using staticOK_parts by metis
      from SW(2) have "\<forall>s \<in> set S. \<exists>b. startsWith b s"
        by (metis in_set_conv_nth list_all2_nthD2)
      then show ?thesis using c(1) SW(1,3) by auto
    next
      case False
      then have "ntype (ndata n) = Param \<or> ntype (ndata n) = RegexParam"
        using assms(6) by (simp add: paramish_def)
      then show ?thesis using wd c(1) by (fastforce simp: wfData_def Let_def length_Suc_conv)
    qed
    then show False using entries_hd [of rc c _ "[]" l] paramish_heads [of rc c "[]" l] c cw by auto
  qed
  ultimately show ?thesis using assms(2,3)
    by (simp add: inserted_def startsWith_def staticNode_def paramish_def isWrapper_def isHolder_def)
qed

section \<open>The insertion walk\<close>

text \<open>The node an iteration looks at, after the split.\<close>

lemma splitAt_ready:
  assumes "wfTree rc n" "enters n path"
    and i: "i = longestCommonPrefix path (npath (ndata n))"
  shows "wfTree rc (splitAt n path)" "entries (splitAt n path) = entries n"
    "npath (ndata (splitAt n path)) @ drop i path = path"
    "paramish n \<Longrightarrow> splitAt n path = n" "startsWith (hd path) n \<Longrightarrow> startsWith (hd path) (splitAt n path)"
    "paramish (splitAt n path) \<longleftrightarrow> paramish n"
    "staticNode (splitAt n path) \<longleftrightarrow> staticNode n"
proof -
  have tk: "take i path = take i (npath (ndata n))" unfolding i by (rule lcp_take)
  have le: "i \<le> length path" "i \<le> length (npath (ndata n))" unfolding i by (rule lcp_le)+
  have wild: "i = length (npath (ndata n))" if "paramish n" "\<not> startsWith (hd path) n"
  proof -
    have "npath (ndata n) = take (length (npath (ndata n))) path"
      using that assms(2) by (simp add: enters_def sameWildcard_def)
    then show ?thesis unfolding i by (metis append_take_drop_id lcp_append)
  qed
  have ps: "\<not> (paramish n \<and> startsWith b n)" for b by (auto simp: paramish_def startsWith_def staticNode_def)
  have all: "wfTree rc (splitAt n path) \<and> entries (splitAt n path) = entries n \<and>
      npath (ndata (splitAt n path)) @ drop i path = path \<and>
      (paramish n \<longrightarrow> splitAt n path = n) \<and> (startsWith (hd path) n \<longrightarrow> startsWith (hd path) (splitAt n path)) \<and>
      (paramish (splitAt n path) \<longleftrightarrow> paramish n) \<and> (staticNode (splitAt n path) \<longleftrightarrow> staticNode n)"
  proof (cases "i < length (npath (ndata n))")
    case False
    then have "splitAt n path = n" using i by (simp add: splitAt_def Let_def)
    moreover have "npath (ndata n) @ drop i path = path"
      using False tk le by (metis append_take_drop_id le_antisym not_less take_all_iff)
    ultimately show ?thesis
      using assms(1) by simp
  next
    case True
    then have s: "splitAt n path = splitNode n path i" using i by (simp add: splitAt_def Let_def)
    have np: "\<not> paramish n" using wild ps True by auto
    then have sw: "startsWith (hd path) n" "path \<noteq> []" using assms(2) by (auto simp: enters_def)
    have ne: "npath (ndata n) \<noteq> []" using True by auto
    then have hd: "hd path = hd (npath (ndata n))" using sw(1) by (simp add: startsWith_def)
    have "0 < i" using sw(2) ne hd unfolding i by (cases path; cases "npath (ndata n)") auto
    have st: "staticNode n" using sw(1) by (simp add: startsWith_def)
    have "startsWith (hd path) (splitNode n path i)"
      using st \<open>0 < i\<close> sw(2) tk ne hd by (simp add: startsWith_def splitNode_parts staticNode_def)
    then show ?thesis
      using splitNode_wf(1) [OF assms(1) st \<open>0 < i\<close> True tk] splitNode_entries [OF True tk] np
      by (simp add: s splitNode_parts paramish_def staticNode_def)
  qed
  then show "wfTree rc (splitAt n path)" "entries (splitAt n path) = entries n"
    "npath (ndata (splitAt n path)) @ drop i path = path"
    "paramish n \<Longrightarrow> splitAt n path = n" "startsWith (hd path) n \<Longrightarrow> startsWith (hd path) (splitAt n path)"
    "paramish (splitAt n path) \<longleftrightarrow> paramish n"
    "staticNode (splitAt n path) \<longleftrightarrow> staticNode n"
    by blast+
qed

lemma sameWildcard_rest:
  assumes "sameWildcard n path"
  obtains rest where "path = npath (ndata n) @ rest" "rest = [] \<or> hd rest = CHR ''/''"
proof -
  let ?k = "length (npath (ndata n))"
  have "path = npath (ndata n) @ drop ?k path"
    using assms unfolding sameWildcard_def by (metis append_take_drop_id)
  moreover have "drop ?k path = [] \<or> hd (drop ?k path) = CHR ''/''"
    using assms unfolding sameWildcard_def by (metis drop_all hd_drop_conv_nth not_le)
  ultimately show ?thesis using that by blast
qed

lemma regex_ends:
  assumes "wfTree rc n" "ntype (ndata n) = RegexParam" "sameWildcard n path" "regexLast path"
  shows "path = npath (ndata n)"
proof -
  let ?p = "npath (ndata n)"
  have p: "hd ?p = CHR ''{''" "?p \<noteq> []"
    using assms(1,2) by (auto simp: wfTree_def2 [of rc n] wfData_def Let_def)
  then obtain rest where r: "path = ?p @ rest" "rest = [] \<or> hd rest = CHR ''/''"
    using assms(3) by (metis sameWildcard_rest)
  have "dropWhile (\<lambda>c. c \<noteq> CHR ''{'') path = path" using p r(1) by (cases ?p) auto
  then have "CHR ''/'' \<notin> set path" using assms(4) r p by (simp add: regexLast_def)
  then show ?thesis using r by (cases rest) auto
qed

lemma inserted_splitAt:
  assumes "inserted rc (splitAt n path) n' path e" "wfTree rc n" "enters n path"
  shows "inserted rc n n' path e"
  using assms(1) splitAt_ready [OF assms(2,3) refl] by (auto simp: inserted_def)

lemma inserted_bump:
  "inserted rc (bumpPrio k) m path e \<longleftrightarrow> inserted rc k m path e"
  by (simp add: inserted_def paramish_def)

lemma enters_bump [simp]: "enters (bumpPrio k) path = enters k path"
  by (simp add: enters_def paramish_def sameWildcard_def)

lemma addWalk_wf:
  assumes "addWalk rc n path full h f = Inr n'" "wfTree rc n" "enters n path" "h \<noteq> None \<or> f \<noteq> None" "regexLast path"
  shows "inserted rc n n' path (entryOf path h f full)"
  using assms
proof (induction rc n path full h f arbitrary: n' rule: addWalk.induct)
  case (1 rc n path full h f)
  define i where "i = longestCommonPrefix path (npath (ndata n))"
  define n1 where "n1 = splitAt n path"
  define d where "d = ndata n1"
  define cs where "cs = nchildren n1"
  note ready = splitAt_ready [OF "1.prems"(2,3) i_def, folded n1_def]
  have "inserted rc n1 n' path (entryOf path h f full)"
  proof (cases "i < length path")
    case False
    then have np: "npath (ndata n1) = path" using ready(3) by simp
    have ne: "path \<noteq> []" using "1.prems"(3) by (simp add: enters_def)
    have sp: "staticNode n1 \<or> paramish n1"
      using "1.prems"(3) ready(6,7) by (auto simp: enters_def startsWith_def)
    have "\<not> hasLeaf n1 \<and> n' = Node (d\<lparr>nhandler := h, nfast := f, npattern := full\<rparr>) cs"
      using "1.prems"(1) False
      by (subst (asm) addWalk.simps)
        (simp add: Let_def i_def n1_def d_def cs_def split: if_splits)
    then show ?thesis
      using inserted_own [OF ready(1) np ne _ "1.prems"(4) sp] by (simp add: d_def cs_def)
  next
    case True
    define path1 where "path1 = drop i path"
    define c where "c = hd path1"
    have p1: "path1 \<noteq> []" "npath (ndata n1) @ path1 = path" using True ready(3) by (auto simp: path1_def)
    have rl: "regexLast path1" using "1.prems"(5) by (simp add: path1_def regexLast_drop)
    note IH = "1.IH" [OF i_def n1_def d_def cs_def True path1_def c_def]
    note main = "1.prems"(1) [unfolded addWalk.simps [of rc n path full h f] Let_def, folded i_def,
        folded n1_def, folded d_def cs_def path1_def, folded c_def, unfolded if_P [OF True]]
    have cw: "\<forall>k \<in> set cs. wfTree rc k" using ready(1) by (simp add: wfTree_def2 [of rc n1] cs_def)
    have wd: "wfData rc n1" using ready(1) by (simp add: wfTree_def2 [of rc n1])
    have pc: "c = CHR ''/'' \<and> ntype d = Param" if "paramish n1"
    proof -
      have n: "paramish n" "n1 = n" using that ready(4,6) by auto
      then have sw: "sameWildcard n path"
        using "1.prems"(3) by (auto simp: enters_def startsWith_def paramish_def staticNode_def)
      then obtain rest where "path = npath (ndata n) @ rest" "rest = [] \<or> hd rest = CHR ''/''"
        by (rule sameWildcard_rest)
      then have "c = CHR ''/''" using p1 n by (simp add: c_def)
      moreover have "ntype (ndata n) \<noteq> RegexParam"
        using regex_ends [OF "1.prems"(2) _ sw "1.prems"(5)] p1 n by auto
      ultimately show ?thesis using that n by (simp add: paramish_def d_def)
    qed
    have sw: "startsWith (hd path) n1" if "\<not> paramish n1"
      using that "1.prems"(3) ready(5,6) by (auto simp: enters_def)
    have emp: "c = CHR ''/'' \<and> path1 = path \<and> (isWrapper n1 \<or> isHolder n1)"
      if "\<not> paramish n1" "npath (ndata n1) = []"
      using sw [OF that(1)] that(2) p1(2) by (simp add: startsWith_def c_def split: if_splits)
    have wrap: "isWrapper n1 \<or> staticOK n1" if "\<not> paramish n1"
      using wd sw [OF that] by (simp add: wfData_static startsWith_def)
    have nsl: "\<not> wildByte (CHR ''/'')" by (simp add: wildByte_def)
    show ?thesis
    proof (cases "ntype d = Param \<and> c = CHR ''/'' \<and> length cs = 1")
      case A: True
      then obtain k where k: "cs = [k]" by (auto simp: length_Suc_conv)
      have sk: "startsWith (CHR ''/'') k" using wd A k by (auto simp: wfData_def Let_def d_def cs_def)
      obtain m where m: "addWalk rc (bumpPrio k) path1 full h f = Inr m" "n' = Node d [m]"
        using main A k by (auto split: sum.splits)
      have "enters (bumpPrio k) path1" using sk A p1(1) by (simp add: enters_def c_def)
      then have ins: "inserted rc k m path1 (entryOf path1 h f full)"
        using IH(1) [OF A] m(1) k cw "1.prems"(4) rl by (simp add: inserted_bump)
      then have "startsWith (CHR ''/'') m" using sk A by (simp add: inserted_def c_def)
      then show ?thesis
        using inserted_param [OF ready(1) _ p1(2,1) _ ins] A k m(2) by (simp add: d_def cs_def)
    next
      case nA: False
      note main = main [unfolded if_not_P [OF nA]]
      have pcs: "cs = [] \<and> nindices d = []" if "paramish n1"
        using wd nA pc [OF that] by (auto simp: wfData_def Let_def d_def cs_def)
      show ?thesis
      proof (cases "findIdx (\<lambda>x. c = x) (nindices d)")
        case B: (Some j)
        have np: "\<not> paramish n1" using pcs B by (auto simp: findIdx_None_iff)
        have st: "staticNode n1" using sw [OF np] by (simp add: startsWith_def)
        have ok: "staticOK n1"
          using wrap [OF np] B by (auto simp: isWrapper_def d_def findIdx_None_iff)
        obtain d' cs' j' where inc: "incrementChildPrio d cs j = Inr (d', cs', j')"
          using main [unfolded B option.case] by (auto split: sum.splits prod.splits)
        obtain m where m: "addWalk rc (cs' ! j') path1 full h f = Inr m" "n' = Node d' (cs'[j' := m])"
          using main [unfolded B option.case inc sum.case prod.case] by (auto split: sum.splits)
        have ne: "npath (ndata n1) \<noteq> []"
        proof
          assume "npath (ndata n1) = []"
          then have e: "c = CHR ''/''" "isHolder n1"
            using emp [OF np] B by (auto simp: isWrapper_def d_def findIdx_None_iff)
          then obtain w where w: "cs = [w]" "isWrapper w" by (auto simp: isHolder_def cs_def length_Suc_conv)
          have "j' = 0" "cs' ! j' = bumpPrio w"
            using incrementChildPrio_InrD(1,2,4) [OF inc] w by auto
          then show False
            using addWalk_wrapper [of "bumpPrio w" path1 rc full h f] w(2) m(1) e(1) p1(1) by (auto simp: c_def)
        qed
        show ?thesis
          unfolding m(2)
        proof (rule inserted_index [OF ready(1) ok st ne p1(2,1)])
          show "findIdx (\<lambda>x. hd path1 = x) (nindices (ndata n1)) = Some j" using B by (simp add: c_def d_def)
          show "incrementChildPrio (ndata n1) (nchildren n1) j = Inr (d', cs', j')"
            using inc by (simp add: d_def cs_def)
          fix k
          assume k: "k \<in> set (nchildren n1)" "startsWith (hd path1) k" "cs' ! j' = bumpPrio k"
          then have "enters (bumpPrio k) path1" using p1(1) by (simp add: enters_def)
          then show "inserted rc k m path1 (entryOf path1 h f full)"
            using IH(3) [OF nA B inc refl refl] m(1) k cw "1.prems"(4) rl by (simp add: inserted_bump cs_def)
        qed
      next
        case N: None
        note main = main [unfolded N option.case]
        show ?thesis
        proof (cases "wildByte c")
          case False
          then have cc: "c \<noteq> CHR '':'' \<and> c \<noteq> CHR ''*'' \<and> c \<noteq> CHR ''{''" by (simp add: wildByte_def)
          note main = main [unfolded if_P [OF cc]]
          obtain d' cs' j' where add: "addStaticChild d cs c = Inr (d', cs', j')"
            and nwc: "\<not> (nwild d \<and> ntype (ndata (last cs)) = Wildcard)"
            using main by (auto split: sum.splits prod.splits if_splits)
          obtain m where m: "insertChild rc (cs' ! j') path1 full h f = Inr m" "n' = Node d' (cs'[j' := m])"
            using main add by (auto split: sum.splits if_splits)
          show ?thesis
          proof (cases "paramish n1")
            case True
            have c: "c = CHR ''/''" "ntype (ndata n1) = Param" using pc [OF True] by (simp_all add: d_def)
            show ?thesis
              unfolding m(2)
              using inserted_param_leaf [OF ready(1) c(2) p1(2) _ p1(1) _ _ m(1) "1.prems"(4) rl] pcs [OF True] add c
              by (simp add: c_def cs_def d_def)
          next
            case np: False
            have st: "staticNode n1" using sw [OF np] by (simp add: startsWith_def)
            have nw: "\<not> isWrapper n1" using nwc by (auto simp: isWrapper_def d_def cs_def length_Suc_conv)
            then have ok: "staticOK n1" using wrap [OF np] by blast
            have "\<not> isHolder n1 \<or> c \<noteq> CHR ''/''" using N by (auto simp: isHolder_def d_def findIdx_None_iff)
            then have ne: "npath (ndata n1) \<noteq> []" using emp [OF np] nw by blast
            show ?thesis
              unfolding m(2)
              using inserted_new_static [OF ready(1) ok st ne p1(2,1) _ _ _ m(1) "1.prems"(4) rl] N False add
              by (simp add: c_def cs_def d_def)
          qed
        next
          case True
          then have cc: "\<not> (c \<noteq> CHR '':'' \<and> c \<noteq> CHR ''*'' \<and> c \<noteq> CHR ''{'')" by (auto simp: wildByte_def)
          note main = main [unfolded if_not_P [OF cc]]
          have np: "\<not> paramish n1" using pc True nsl by auto
          have ne: "npath (ndata n1) \<noteq> []" using emp [OF np] True nsl by auto
          have st: "staticNode n1" using sw [OF np] by (simp add: startsWith_def)
          have ok: "staticOK n1" using wrap [OF np] ne by (auto simp: isWrapper_def)
          show ?thesis
          proof (cases "nwild d")
            case W: True
            have cne: "cs \<noteq> []" using main W by (auto split: if_splits)
            have lw: "paramish (last cs)" using ok W by (simp add: staticOK_def d_def cs_def)
            have same: "sameWildcard (last cs) path1" using main W cne by (auto split: if_splits)
            obtain m where m: "addWalk rc (bumpPrio (last cs)) path1 full h f = Inr m"
              "n' = Node d (butlast cs @ [m])"
              using main W cne same by (auto split: sum.splits)
            have "enters (bumpPrio (last cs)) path1"
              using lw same p1(1) unfolding enters_bump by (simp add: enters_def)
            then have ins: "inserted rc (last cs) m path1 (entryOf path1 h f full)"
              using IH(2) [OF nA N cc W cne same] m(1) cw cne "1.prems"(4) rl by (simp add: inserted_bump)
            have so: "staticsOf n1 = butlast cs" using W by (simp add: staticsOf_def d_def cs_def)
            have dw: "(ndata n1)\<lparr>nwild := True\<rparr> = d" using W by (simp add: d_def)
            have "inserted rc n1 (Node ((ndata n1)\<lparr>nwild := True\<rparr>) (staticsOf n1 @ [m])) path (entryOf path h f full)"
              using ins lw cne W True
              by (intro inserted_wildChild [where W = "[last cs]", OF ready(1) ok st ne p1(2,1)])
                (auto simp: so cs_def c_def d_def inserted_def)
            then show ?thesis by (simp add: so dw m(2))
          next
            case W: False
            have "insertChild rc n1 path1 full h f = Inr n'" using main W by (simp split: if_splits)
            then obtain w where w: "n' = Node ((ndata n1)\<lparr>nwild := True\<rparr>) (nchildren n1 @ [w])"
              "addedWild rc w (entryOf path1 h f full)"
              using insertChild_wf [of rc n1 path1 full h f n'] "1.prems"(4) p1(1) st W rl True
              by (auto simp: c_def d_def)
            have so: "staticsOf n1 = nchildren n1" using W by (simp add: staticsOf_def d_def)
            have "inserted rc n1 (Node ((ndata n1)\<lparr>nwild := True\<rparr>) (staticsOf n1 @ [w])) path (entryOf path h f full)"
              using w(2) W True
              by (intro inserted_wildChild [where W = "[]", OF ready(1) ok st ne p1(2,1)])
                (auto simp: so c_def d_def addedWild_def)
            then show ?thesis by (simp add: so w(1))
          qed
        qed
      qed
    qed
  qed
  then show ?case using inserted_splitAt "1.prems"(2,3) unfolding n1_def by blast
qed

section \<open>Registration at the root\<close>

text \<open>The patterns the invariant covers: they start with a slash, and a regular expression ends them.\<close>

definition routable :: "string \<Rightarrow> bool" where
  "routable p \<longleftrightarrow> p \<noteq> [] \<and> hd p = CHR ''/'' \<and> regexLast p"

text \<open>The root of a method's tree: new, or well-formed below the leading slash.\<close>

definition rootOK :: "regexLib \<Rightarrow> ('h, 'f) node \<Rightarrow> bool" where
  "rootOK rc n \<longleftrightarrow>
     freshNode n \<or> wfTree rc n \<and> startsWith (CHR ''/'') n \<and> \<not> isWrapper n"

lemma rootOK_empty [simp]: "rootOK rc emptyNode"
  by (simp add: rootOK_def freshNode_def emptyNode_def emptyData_def staticNode_def hasLeaf_def)

lemma freshNode_entries [simp]: "freshNode n \<Longrightarrow> entries n = []"
  by (simp add: freshNode_def entries_def2 [of n] ownEntry_def hasLeaf_def)

text \<open>Fields that neither predicate looks at.\<close>

lemma retype_preds:
  assumes "staticNode n" "n' = Node ((ndata n)\<lparr>ntype := Root\<rparr>) (nchildren n)"
  shows "wfTree rc n' = wfTree rc n" "entries n' = entries n" "isWrapper n' = isWrapper n"
    "startsWith b n' = startsWith b n" "freshNode n' = freshNode n"
proof -
  have st: "staticNode n'" using assms(2) by (simp add: staticNode_def)
  show w: "isWrapper n' = isWrapper n" using assms by (simp add: isWrapper_def staticNode_def hasLeaf_def)
  have h: "isHolder n' = isHolder n" using assms by (simp add: isHolder_def staticNode_def hasLeaf_def)
  show "startsWith b n' = startsWith b n" using assms st w h by (simp add: startsWith_def)
  have so: "staticsOf n' = staticsOf n" using assms(2) by (simp add: staticsOf_def)
  have "staticOK n' = staticOK n" unfolding staticOK_def so h using assms(2) by simp
  then show "wfTree rc n' = wfTree rc n"
    using assms w st by (simp add: wfTree_def2 [of rc n'] wfTree_def2 [of rc n] wfData_static)
  show "entries n' = entries n" using assms(2) by (simp add: entries_def2 [of n])
  show "freshNode n' = freshNode n" using assms st by (simp add: freshNode_def hasLeaf_def)
qed

lemma foldMaxParams_parts:
  "nchildren (foldMaxParams p n) = nchildren n"
  "\<exists>x. ndata (foldMaxParams p n) = (ndata n)\<lparr>nmaxParams := x\<rparr>"
proof -
  show "nchildren (foldMaxParams p n) = nchildren n" by (simp add: foldMaxParams_def Let_def)
  show "\<exists>x. ndata (foldMaxParams p n) = (ndata n)\<lparr>nmaxParams := x\<rparr>"
  proof (cases "countPatternParams p > unat (nmaxParams (ndata n))")
    case False
    then have "ndata (foldMaxParams p n) = (ndata n)\<lparr>nmaxParams := nmaxParams (ndata n)\<rparr>"
      by (simp add: foldMaxParams_def Let_def)
    then show ?thesis by blast
  qed (auto simp: foldMaxParams_def Let_def)
qed

lemma foldMaxParams_preds [simp]:
  "wfTree rc (foldMaxParams p n) = wfTree rc n" "entries (foldMaxParams p n) = entries n"
  "isWrapper (foldMaxParams p n) = isWrapper n" "startsWith b (foldMaxParams p n) = startsWith b n"
proof -
  obtain x where x: "ndata (foldMaxParams p n) = (ndata n)\<lparr>nmaxParams := x\<rparr>"
    "nchildren (foldMaxParams p n) = nchildren n"
    using foldMaxParams_parts by metis
  let ?m = "foldMaxParams p n"
  have w: "isWrapper ?m = isWrapper n" "isHolder ?m = isHolder n" "staticsOf ?m = staticsOf n"
    "staticNode ?m = staticNode n" "hasLeaf ?m = hasLeaf n"
    using x by (simp_all add: isWrapper_def isHolder_def staticNode_def hasLeaf_def staticsOf_def)
  then show "isWrapper ?m = isWrapper n" "startsWith b ?m = startsWith b n"
    using x by (simp_all add: startsWith_def)
  have "wfData rc ?m = wfData rc n"
    unfolding wfData_def Let_def x w by (simp split: nodeType.split)
  then show "wfTree rc ?m = wfTree rc n"
    by (simp add: wfTree_def2 [of rc ?m] wfTree_def2 [of rc n] x)
  show "entries ?m = entries n" by (simp add: entries_def2 [of n] entries_def2 [of ?m] x)
qed

lemma insertRoute_entries:
  assumes "insertRoute rc n path h f = Inr n'" "rootOK rc n" "routable path" "h \<noteq> None \<or> f \<noteq> None"
  shows "rootOK rc n' \<and> mset (entries n') = add_mset (entryOf path h f path) (mset (entries n))
    \<and> path \<notin> fst ` set (entries n)"
proof -
  have p: "path \<noteq> []" "hd path = CHR ''/''" "regexLast path" using assms(3) by (simp_all add: routable_def)
  have nsl: "\<not> wildByte (CHR ''/'')" by (simp add: wildByte_def)
  show ?thesis
  proof (cases "freshNode n")
    case True
    then have c: "npath (ndata (bumpPrio n)) = [] \<and> nindices (ndata (bumpPrio n)) = []"
      by (simp add: freshNode_def)
    obtain m where m: "insertChild rc (bumpPrio n) path path h f = Inr m"
      "n' = foldMaxParams path (Node ((ndata m)\<lparr>ntype := Root\<rparr>) (nchildren m))"
      using assms(1) c by (auto simp: insertRoute_def Let_def split: if_splits sum.splits)
    have fb: "freshNode (bumpPrio n)" using True by (simp add: freshNode_def)
    have wm: "wfTree rc m" "startsWith (CHR ''/'') m" "entries m = [entryOf path h f path]"
      using insertChild_wf [OF m(1) assms(4) p(1) _ _ p(3)] fb p(2) nsl by (auto simp: freshNode_def)
    have "\<not> isWrapper m"
      using insertChild_wf [OF m(1) assms(4) p(1) _ _ p(3)] fb p(2) nsl by (auto simp: freshNode_def)
    moreover have "staticNode m" using wm(2) by (simp add: startsWith_def)
    note R = retype_preds [OF this refl]
    ultimately show ?thesis
      using wm True by (simp add: m(2) rootOK_def R del: wfTree.simps entries.simps)
  next
    case False
    then have r: "wfTree rc n" "startsWith (CHR ''/'') n" "\<not> isWrapper n"
      using assms(2) by (auto simp: rootOK_def)
    have "\<not> (npath (ndata (bumpPrio n)) = [] \<and> nindices (ndata (bumpPrio n)) = [])"
      using r(2,3) by (auto simp: startsWith_def isHolder_def split: if_splits)
    then obtain m where m: "addWalk rc (bumpPrio n) path path h f = Inr m" "n' = foldMaxParams path m"
      using assms(1) by (auto simp: insertRoute_def Let_def split: if_splits sum.splits)
    have "enters (bumpPrio n) path" using r(2) p unfolding enters_bump by (simp add: enters_def)
    then have "inserted rc n m path (entryOf path h f path)"
      using addWalk_wf [OF m(1)] r(1) assms(4) p(3) by (simp add: inserted_bump)
    then show ?thesis using r(2) p(2) m(2) by (auto simp: inserted_def rootOK_def)
  qed
qed

text \<open>A pattern with optional segments stands for the concrete patterns it expands to.\<close>

function expansions :: "string \<Rightarrow> string list" where
  "expansions path =
     (case expandOptional path of
        Inr (Some (a, b)) \<Rightarrow> expansions a @ expansions b
      | _ \<Rightarrow> [path])"
  by pat_completeness auto
termination
  by (relation "measure length") (auto dest: expandOptional_shorter)

declare expansions.simps [simp del]

lemma addRouteInternal_entries:
  assumes "addRouteInternal rc n path h f = Inr n'" "rootOK rc n"
    and "\<forall>q \<in> set (expansions path). routable q" "h \<noteq> None \<or> f \<noteq> None"
  shows "rootOK rc n'
    \<and> mset (entries n') = mset (map (\<lambda>q. entryOf q h f q) (expansions path)) + mset (entries n)
    \<and> distinct (expansions path) \<and> set (expansions path) \<inter> fst ` set (entries n) = {}"
  using assms
proof (induction rc n path h f arbitrary: n' rule: addRouteInternal.induct)
  case (1 rc n path h f)
  have le: "\<not> countOptionalSegments path > maxOptionalSegments"
    using "1.prems"(1) by (subst (asm) addRouteInternal.simps) (simp split: if_splits)
  note main = "1.prems"(1) [unfolded addRouteInternal.simps [of rc n path] if_not_P [OF le]]
  obtain ex where ex: "expandOptional path = Inr ex" using main by (auto split: sum.splits)
  show ?case
  proof (cases ex)
    case None
    then have "expansions path = [path]" using ex by (subst expansions.simps) simp
    then show ?thesis
      using insertRoute_entries [of rc n path h f n'] main ex None "1.prems"(2-4) by simp
  next
    case (Some ab)
    obtain a b where ab: "expandOptional path = Inr (Some (a, b))" using Some ex by (cases ab) auto
    obtain m where m: "addRouteInternal rc n a h f = Inr m" "addRouteInternal rc m b h f = Inr n'"
      using main ab by (auto split: sum.splits)
    have e: "expansions path = expansions a @ expansions b" using ab by (subst expansions.simps) simp
    have A: "rootOK rc m
      \<and> mset (entries m) = mset (map (\<lambda>q. entryOf q h f q) (expansions a)) + mset (entries n)
      \<and> distinct (expansions a) \<and> set (expansions a) \<inter> fst ` set (entries n) = {}"
      using "1.IH"(1) [OF le ab refl refl m(1) "1.prems"(2)] "1.prems"(3,4) e by simp
    have B: "rootOK rc n'
      \<and> mset (entries n') = mset (map (\<lambda>q. entryOf q h f q) (expansions b)) + mset (entries m)
      \<and> distinct (expansions b) \<and> set (expansions b) \<inter> fst ` set (entries m) = {}"
      using "1.IH"(2) [OF le ab refl refl m(1,2)] A "1.prems"(3,4) e by simp
    have sm: "set (entries m) = (\<lambda>q. entryOf q h f q) ` set (expansions a) \<union> set (entries n)"
    proof -
      have "set_mset (mset (entries m)) = set_mset (mset (map (\<lambda>q. entryOf q h f q) (expansions a)) + mset (entries n))"
        using A by simp
      then show ?thesis by (simp only: set_mset_union set_mset_mset set_map)
    qed
    have "fst ` set (entries m) = set (expansions a) \<union> fst ` set (entries n)"
      unfolding sm image_Un image_image by (simp add: entryOf_def)
    then show ?thesis using A B e by auto
  qed
qed

text \<open>Registering a list of patterns, as \<open>Mux\<close> does before it serves: the first panic ends it.\<close>

fun registerAll ::
  "regexLib \<Rightarrow> ('h, 'f) node \<Rightarrow> (string \<times> 'h option \<times> 'f option) list \<Rightarrow> goPanic + ('h, 'f) node"
where
  "registerAll rc n [] = Inr n"
| "registerAll rc n ((p, h, f) # rs) =
     (case addRouteInternal rc n p h f of Inl e \<Rightarrow> Inl e | Inr m \<Rightarrow> registerAll rc m rs)"

definition registered ::
  "(string \<times> 'h option \<times> 'f option) list \<Rightarrow> (string \<times> ('h, 'f) leaf) list" where
  "registered rs = concat (map (\<lambda>(p, h, f). map (\<lambda>q. entryOf q h f q) (expansions p)) rs)"

definition registrable :: "(string \<times> 'h option \<times> 'f option) list \<Rightarrow> bool" where
  "registrable rs \<longleftrightarrow>
     (\<forall>(p, h, f) \<in> set rs. (h \<noteq> None \<or> f \<noteq> None) \<and> (\<forall>q \<in> set (expansions p). routable q))"

lemma registered_patterns:
  "map fst (registered rs) = concat (map (\<lambda>(p, h, f). expansions p) rs)"
  by (induction rs) (auto simp: registered_def entryOf_def comp_def)

lemma registerAll_entries:
  assumes "registerAll rc n rs = Inr n'" "rootOK rc n" "registrable rs" "distinct (map fst (entries n))"
  shows "rootOK rc n' \<and> mset (entries n') = mset (registered rs) + mset (entries n)
    \<and> distinct (map fst (entries n'))"
  using assms
proof (induction rs arbitrary: n)
  case Nil
  then show ?case by (simp add: registered_def)
next
  case (Cons r rs)
  obtain p h f where r: "r = (p, h, f)" by (cases r)
  obtain m where m: "addRouteInternal rc n p h f = Inr m" "registerAll rc m rs = Inr n'"
    using Cons.prems(1) r by (auto split: sum.splits)
  have A: "rootOK rc m \<and> mset (entries m) = mset (map (\<lambda>q. entryOf q h f q) (expansions p)) + mset (entries n)
    \<and> distinct (expansions p) \<and> set (expansions p) \<inter> fst ` set (entries n) = {}"
    using addRouteInternal_entries [OF m(1) Cons.prems(2)] Cons.prems(3) by (simp add: registrable_def r)
  have fm: "mset (map fst (entries m)) = mset (expansions p @ map fst (entries n))"
  proof -
    have "mset (map fst (entries m)) = image_mset fst (mset (map (\<lambda>q. entryOf q h f q) (expansions p)) + mset (entries n))"
      using A by (metis mset_map)
    then show ?thesis by (simp add: entryOf_def multiset.map_comp comp_def)
  qed
  have "distinct (expansions p @ map fst (entries n))" using A Cons.prems(4) by auto
  then have "distinct (map fst (entries m))" using fm by (metis mset_eq_imp_distinct_iff)
  then show ?case
    using Cons.IH [OF m(2)] A Cons.prems(3) by (simp add: registrable_def registered_def r)
qed

end
