(* ===== verification/TreeMatch.thy ===== *)
theory TreeMatch
  imports TreeSearch TreeInsert
begin

text \<open>
  What a lookup finds. \<open>matchPat\<close> says what a single pattern matches, byte for byte; on a
  well-formed tree the search returns a pattern of the tree that matches, with the parameters
  the matcher captures, and no other matching pattern is preferred to it; it misses only if no
  pattern matches, and it never panics. This is the case-sensitive lookup.
\<close>

section \<open>The reference matcher\<close>

text \<open>
  What a registered pattern means: literal bytes match themselves, \<open>:name\<close> and
  \<open>{name:expr}\<close> take one non-empty segment, \<open>/*name\<close> takes the rest with its slash.
\<close>

function matchPat :: "regexLib \<Rightarrow> string \<Rightarrow> string \<Rightarrow> Params option" where
  "matchPat rc [] path = (if path = [] then Some [] else None)"
| "matchPat rc (c # q) path =
     (let seg = takeWhile (\<lambda>x. x \<noteq> CHR ''/'') path; more = dropWhile (\<lambda>x. x \<noteq> CHR ''/'') path;
          rest = dropWhile (\<lambda>x. x \<noteq> CHR ''/'') q
      in if c = CHR '':'' then
           (if seg = [] then None
            else map_option (\<lambda>ps. mkParam (takeWhile (\<lambda>x. x \<noteq> CHR ''/'') q) seg # ps) (matchPat rc rest more))
         else if c = CHR ''{'' then
           (case strIndex q '':'' of
              None \<Rightarrow> None
            | Some k \<Rightarrow>
                (case rc (regexExpr (c # takeWhile (\<lambda>x. x \<noteq> CHR ''/'') q) k) of
                   None \<Rightarrow> None
                 | Some re \<Rightarrow>
                     if seg = [] \<or> \<not> re seg then None
                     else map_option (\<lambda>ps. mkParam (take k q) seg # ps) (matchPat rc rest more)))
         else if c = CHR ''/'' \<and> q \<noteq> [] \<and> hd q = CHR ''*'' then
           (if path \<noteq> [] \<and> hd path = CHR ''/'' then Some [mkParam (tl q) path] else None)
         else (case path of [] \<Rightarrow> None | x # xs \<Rightarrow> if x = c then matchPat rc q xs else None))"
  by pat_completeness auto
termination
proof (relation "measure (\<lambda>(rc, q, path). length q)")
  show "wf (measure (\<lambda>(rc :: regexLib, q :: string, path :: string). length q))" by simp
qed (simp_all add: le_imp_less_Suc length_dropWhile_le)

declare matchPat.simps(2) [simp del]

lemma segmentEnd_take [simp]: "take (segmentEnd path) path = takeWhile (\<lambda>x. x \<noteq> CHR ''/'') path"
  unfolding segmentEnd_def by (rule takeWhile_eq_take [symmetric])

lemma segmentEnd_drop [simp]: "drop (segmentEnd path) path = dropWhile (\<lambda>x. x \<noteq> CHR ''/'') path"
  unfolding segmentEnd_def by (rule dropWhile_eq_drop [symmetric])

lemma segmentEnd_full: "segmentEnd path = length path \<longleftrightarrow> dropWhile (\<lambda>x. x \<noteq> CHR ''/'') path = []"
proof -
  have "length path = length (takeWhile (\<lambda>x. x \<noteq> CHR ''/'') path) + length (dropWhile (\<lambda>x. x \<noteq> CHR ''/'') path)"
    by (metis length_append takeWhile_dropWhile_id)
  then show ?thesis by (simp add: segmentEnd_def)
qed

lemma matchPat_Nil_path: "q \<noteq> [] \<Longrightarrow> matchPat rc q [] = None"
  by (cases q) (auto simp: matchPat.simps(2) Let_def split: option.split)

lemma matchPat_literal:
  assumes "\<not> wildByte c" "\<not> (c = CHR ''/'' \<and> q \<noteq> [] \<and> hd q = CHR ''*'')"
  shows "matchPat rc (c # q) (x # xs) = (if x = c then matchPat rc q xs else None)"
proof -
  have "c \<noteq> CHR '':''" "c \<noteq> CHR ''{''" using assms(1) by (simp_all add: wildByte_def)
  then show ?thesis
    unfolding matchPat.simps(2) Let_def by (simp only: if_False assms(2) list.case)
qed

text \<open>A literal prefix is compared as such.\<close>

lemma matchPat_prefix:
  assumes "\<forall>c \<in> set pre. \<not> wildByte c" "q = [] \<or> hd q \<noteq> CHR ''*''"
  shows "matchPat rc (pre @ q) path =
     (if length pre \<le> length path \<and> take (length pre) path = pre then matchPat rc q (drop (length pre) path) else None)"
  using assms(1)
proof (induction pre arbitrary: path)
  case (Cons c pre)
  have nst: "\<not> (c = CHR ''/'' \<and> pre @ q \<noteq> [] \<and> hd (pre @ q) = CHR ''*'')"
    using assms(2) Cons.prems by (cases pre) (auto simp: wildByte_def)
  show ?case
  proof (cases path)
    case Nil
    then show ?thesis using matchPat_Nil_path [of "c # pre @ q" rc] by simp
  next
    case (Cons x xs)
    then show ?thesis using matchPat_literal [OF _ nst, of rc x xs] Cons.prems Cons.IH [of xs] by auto
  qed
qed simp

lemma matchPat_param:
  assumes "path \<noteq> []"
  shows "matchPat rc (CHR '':'' # q) path =
     (if hd path = CHR ''/'' then None
      else map_option (\<lambda>ps. mkParam (takeWhile (\<lambda>x. x \<noteq> CHR ''/'') q) (takeWhile (\<lambda>x. x \<noteq> CHR ''/'') path) # ps)
             (matchPat rc (dropWhile (\<lambda>x. x \<noteq> CHR ''/'') q) (dropWhile (\<lambda>x. x \<noteq> CHR ''/'') path)))"
  using assms by (cases path) (auto simp: matchPat.simps(2) Let_def)

lemma matchPat_catchAll:
  "path \<noteq> [] \<Longrightarrow> hd path = CHR ''/'' \<Longrightarrow> matchPat rc (CHR ''/'' # CHR ''*'' # nm) path = Some [mkParam nm path]"
  by (simp add: matchPat.simps(2) Let_def)

section \<open>What a search has to return\<close>

text \<open>The first difference between two patterns is a literal against a wildcard.\<close>

definition preferred :: "string \<Rightarrow> string \<Rightarrow> bool" where
  "preferred q q' \<longleftrightarrow>
     (\<exists>a c s d s'. q = a @ c # s \<and> q' = a @ d # s' \<and> \<not> wildByte c \<and> wildByte d)"

lemma preferred_append [simp]: "preferred q q' \<Longrightarrow> preferred (a @ q) (a @ q')"
  unfolding preferred_def by (metis append.assoc)

definition matching :: "regexLib \<Rightarrow> (string \<times> ('h, 'f) leaf) list \<Rightarrow> string \<Rightarrow> string set" where
  "matching rc es path = {q. q \<in> fst ` set es \<and> matchPat rc q path \<noteq> None}"

definition answers ::
  "regexLib \<Rightarrow> (string \<times> ('h, 'f) leaf) list \<Rightarrow> string \<Rightarrow> goPanic + ('h, 'f) result \<Rightarrow> bool" where
  "answers rc es path res =
     (case res of
        Inl e \<Rightarrow> False
      | Inr (Miss t) \<Rightarrow> matching rc es path = {}
      | Inr (Hit h f p ps) \<Rightarrow>
          (\<exists>q. (q, h, f, p) \<in> set es \<and> matchPat rc q path = Some ps
             \<and> (\<forall>q' \<in> matching rc es path. q' = q \<or> preferred q q')))"

definition searchable :: "bool \<Rightarrow> ('h, 'f) node \<Rightarrow> string \<Rightarrow> bool" where
  "searchable via n path \<longleftrightarrow>
     path \<noteq> [] \<and> (if via then paramish n \<or> ntype (ndata n) = Wildcard \<and> hd path = CHR ''/''
                  else staticNode n \<and> (isWrapper n \<longrightarrow> hd path = CHR ''/''))"

lemma matching_iff: "q \<in> matching rc es path \<longleftrightarrow> (\<exists>l. (q, l) \<in> set es) \<and> matchPat rc q path \<noteq> None"
  by (force simp: matching_def)

lemma matching_append: "matching rc (es @ fs) path = matching rc es path \<union> matching rc fs path"
  by (auto simp: matching_def)

lemma matching_concat: "matching rc (concat ess) path = (\<Union>es \<in> set ess. matching rc es path)"
  by (auto simp: matching_def)

lemma answers_mono:
  assumes "answers rc es path (Inr (Hit h f p ps))" "set es \<subseteq> set fs"
    and "\<And>q'. q' \<in> matching rc fs path \<Longrightarrow> q' \<in> matching rc es path \<or> (\<forall>q \<in> matching rc es path. preferred q q')"
  shows "answers rc fs path (Inr (Hit h f p ps))"
proof -
  obtain q where q: "(q, h, f, p) \<in> set es" "matchPat rc q path = Some ps"
    "\<forall>q' \<in> matching rc es path. q' = q \<or> preferred q q'"
    using assms(1) by (auto simp: answers_def)
  have qm: "q \<in> matching rc es path" using q(1,2) by (auto simp: matching_def image_iff intro!: bexI)
  have "q' = q \<or> preferred q q'" if "q' \<in> matching rc fs path" for q'
    using assms(3) [OF that] q(3) qm by blast
  moreover have "(q, h, f, p) \<in> set fs" using q(1) assms(2) by blast
  ultimately show ?thesis using q(2) by (auto simp: answers_def)
qed

section \<open>Entries below a node\<close>

definition belowEntries :: "('h, 'f) node \<Rightarrow> (string \<times> ('h, 'f) leaf) list" where
  "belowEntries n = ownEntry (ndata n) @ concat (map entries (nchildren n))"

lemma entries_below: "entries n = prefixAll (npath (ndata n)) (belowEntries n)"
  by (simp add: entries_def2 [of n] belowEntries_def)

lemma belowEntries_cases:
  "(q, l) \<in> set (belowEntries n) \<longleftrightarrow>
     q = [] \<and> hasLeaf n \<and> l = (nhandler (ndata n), nfast (ndata n), npattern (ndata n))
     \<or> (\<exists>c \<in> set (nchildren n). (q, l) \<in> set (entries c))"
  by (auto simp: belowEntries_def ownEntry_def hasLeaf_def)

lemma answers_prefix:
  assumes "answers rc es path1 res"
    and "\<And>q l. (q, l) \<in> set es \<Longrightarrow> matchPat rc (pre @ q) path = map_option ((@) caps) (matchPat rc q path1)"
  shows "answers rc (prefixAll pre es) path (map_sum id (onHit caps) res)"
proof -
  have m: "matching rc (prefixAll pre es) path = (@) pre ` matching rc es path1"
    using assms(2) by (auto simp: matching_iff in_prefixAll image_iff) blast+
  show ?thesis
  proof (cases res)
    case (Inl e)
    then show ?thesis using assms(1) by (simp add: answers_def)
  next
    case (Inr r)
    show ?thesis
    proof (cases r)
      case (Hit h f p ps)
      obtain q where q: "(q, h, f, p) \<in> set es" "matchPat rc q path1 = Some ps"
        "\<forall>q' \<in> matching rc es path1. q' = q \<or> preferred q q'"
        using assms(1) Inr Hit by (auto simp: answers_def)
      have "(pre @ q, h, f, p) \<in> set (prefixAll pre es)" using q(1) by (simp add: in_prefixAll)
      moreover have "matchPat rc (pre @ q) path = Some (caps @ ps)" using assms(2) [OF q(1)] q(2) by simp
      moreover have "\<forall>q' \<in> matching rc (prefixAll pre es) path. q' = pre @ q \<or> preferred (pre @ q) q'"
        using q(3) by (auto simp: m)
      ultimately show ?thesis using Inr Hit by (auto simp: answers_def onHit_def)
    next
      case (Miss t)
      then show ?thesis using assms(1) Inr m by (simp add: answers_def onHit_def)
    qed
  qed
qed

lemma entries_literal_head:
  assumes "(q, l) \<in> set (entries k)" "wfTree rc k" "startsWith b k" "\<not> wildByte b" "matchPat rc q path \<noteq> None"
  shows "path \<noteq> [] \<and> hd path = b"
proof -
  obtain q' where q: "q = b # q'" using entries_hd [OF assms(2,3,1)] by blast
  have "path \<noteq> []" using assms(5) q matchPat_Nil_path [of q rc] by auto
  moreover have "b \<noteq> CHR '':''" "b \<noteq> CHR ''{''" using assms(4) by (simp_all add: wildByte_def)
  ultimately show ?thesis
    using assms(5) unfolding q matchPat.simps(2) Let_def
    by (cases path) (simp_all split: if_splits)
qed

lemma paramish_head:
  assumes "wfTree rc w" "paramish w" "(q, l) \<in> set (entries w)"
  shows "q \<noteq> [] \<and> wildByte (hd q) \<and> hd q \<noteq> CHR ''*''"
proof -
  have "npath (ndata w) \<noteq> []" "hd (npath (ndata w)) = CHR '':'' \<or> hd (npath (ndata w)) = CHR ''{''"
    using assms(1,2) by (auto simp: wfTree_def2 [of rc w] wfData_def paramish_def Let_def)
  then show ?thesis using entries_ne [OF assms(3)] by (cases "npath (ndata w)") (auto simp: wildByte_def)
qed

text \<open>The static children and the wildcard child of a well-formed static node.\<close>

lemma staticOK_children:
  assumes "wfTree rc n" "staticOK n" "c \<in> set (nchildren n)"
  obtains j where "j < length (nindices (ndata n))" "c = nchildren n ! j" "j < length (nchildren n)"
      "startsWith (nindices (ndata n) ! j) c" "\<not> wildByte (nindices (ndata n) ! j)"
  | "nwild (ndata n)" "c = last (nchildren n)" "paramish c"
proof -
  obtain S W where SW: "nchildren n = S @ W" "list_all2 startsWith (nindices (ndata n)) S"
    "W = (if nwild (ndata n) then [last (nchildren n)] else [])" "\<forall>w \<in> set W. paramish w"
    using staticOK_parts [OF assms(2)] by metis
  have len: "length (nindices (ndata n)) = length S" using SW(2) by (rule list_all2_lengthD)
  have nw: "\<forall>x \<in> set (nindices (ndata n)). \<not> wildByte x" using assms(2) by (simp add: staticOK_def)
  from assms(3) SW(1) consider "c \<in> set S" | "c \<in> set W" by auto
  then show ?thesis
  proof cases
    case 1
    then obtain j where j: "j < length S" "S ! j = c" by (auto simp: in_set_conv_nth)
    have "startsWith (nindices (ndata n) ! j) c" using list_all2_nthD2 [OF SW(2) j(1)] j by simp
    moreover have "\<not> wildByte (nindices (ndata n) ! j)" using nw j(1) len by simp
    moreover have "c = nchildren n ! j" "j < length (nchildren n)" using j SW(1) by (simp_all add: nth_append)
    ultimately show ?thesis using that(1) j(1) len by simp
  next
    case 2
    then show ?thesis using that(2) SW(3,4) by (auto split: if_splits)
  qed
qed

lemma staticOK_index:
  assumes "wfTree rc n" "staticOK n" "j < length (nindices (ndata n))"
  shows "j < length (nchildren n)" "startsWith (nindices (ndata n) ! j) (nchildren n ! j)"
    "wfTree rc (nchildren n ! j)"
proof -
  obtain S W where SW: "nchildren n = S @ W" "list_all2 startsWith (nindices (ndata n)) S"
    using staticOK_parts [OF assms(2)] by metis
  then have j: "j < length S" using assms(3) by (simp add: list_all2_lengthD)
  then show "j < length (nchildren n)" "startsWith (nindices (ndata n) ! j) (nchildren n ! j)"
    using list_all2_nthD2 [OF SW(2) j] by (simp_all add: SW(1) nth_append)
  then show "wfTree rc (nchildren n ! j)" using assms(1) by (simp add: wfTree_def2 [of rc n])
qed

lemma staticOK_wild:
  assumes "wfTree rc n" "staticOK n" "nwild (ndata n)"
  shows "nchildren n \<noteq> []" "paramish (last (nchildren n))" "wfTree rc (last (nchildren n))"
  using assms by (auto simp: staticOK_def wfTree_def2 [of rc n])

lemma below_noStar:
  assumes "wfTree rc n" "staticOK n" "(q, l) \<in> set (belowEntries n)"
  shows "q = [] \<or> hd q \<noteq> CHR ''*''"
proof -
  have cw: "\<forall>c \<in> set (nchildren n). wfTree rc c" using assms(1) by (simp add: wfTree_def2 [of rc n])
  from assms(3) consider "q = []" | c where "c \<in> set (nchildren n)" "(q, l) \<in> set (entries c)"
    by (auto simp: belowEntries_cases)
  then show ?thesis
  proof cases
    case 2
    show ?thesis
    proof (rule staticOK_children [OF assms(1,2) 2(1)])
      fix j assume "startsWith (nindices (ndata n) ! j) c" "\<not> wildByte (nindices (ndata n) ! j)"
      then show ?thesis using entries_hd [of rc c _ q l] cw 2 by (fastforce simp: wildByte_def)
    next
      assume "paramish c"
      then show ?thesis using paramish_head [of rc c q l] cw 2 by blast
    qed
  qed simp
qed

text \<open>Which children can match a path with a given first byte.\<close>

lemma below_matching:
  assumes "wfTree rc n" "staticOK n" "path1 \<noteq> []"
  shows "matching rc (belowEntries n) path1 =
     (case findIdx (\<lambda>x. hd path1 = x) (nindices (ndata n)) of
        None \<Rightarrow> {} | Some j \<Rightarrow> matching rc (entries (nchildren n ! j)) path1)
     \<union> (if nwild (ndata n) then matching rc (entries (last (nchildren n))) path1 else {})"
    (is "?L = ?R")
proof
  have cw: "\<forall>c \<in> set (nchildren n). wfTree rc c" using assms(1) by (simp add: wfTree_def2 [of rc n])
  show "?L \<subseteq> ?R"
  proof
    fix q assume "q \<in> ?L"
    then obtain l where q: "(q, l) \<in> set (belowEntries n)" "matchPat rc q path1 \<noteq> None"
      by (auto simp: matching_iff)
    have "q \<noteq> []" using q(2) assms(3) by auto
    then obtain c where c: "c \<in> set (nchildren n)" "(q, l) \<in> set (entries c)"
      using q(1) by (auto simp: belowEntries_cases)
    have m: "q \<in> matching rc (entries c) path1" using c(2) q(2) unfolding matching_iff by blast
    show "q \<in> ?R"
    proof (rule staticOK_children [OF assms(1,2) c(1)])
      fix j assume j: "j < length (nindices (ndata n))" "c = nchildren n ! j"
        "startsWith (nindices (ndata n) ! j) c" "\<not> wildByte (nindices (ndata n) ! j)"
      have h: "hd path1 = nindices (ndata n) ! j"
        using entries_literal_head [OF c(2) _ j(3,4) q(2)] cw c(1) by simp
      have "distinct (nindices (ndata n))" using assms(2) by (simp add: staticOK_def)
      then have "findIdx (\<lambda>x. hd path1 = x) (nindices (ndata n)) = Some j"
        using h j(1) by (auto simp: findIdx_Some_iff nth_eq_iff_index_eq)
      then show ?thesis using m j(2) by simp
    next
      assume "nwild (ndata n)" "c = last (nchildren n)"
      then show ?thesis using m by simp
    qed
  qed
  show "?R \<subseteq> ?L"
  proof -
    have sub: "matching rc (entries c) path1 \<subseteq> ?L" if "c \<in> set (nchildren n)" for c
    proof
      fix q assume "q \<in> matching rc (entries c) path1"
      then obtain l where l: "(q, l) \<in> set (entries c)" "matchPat rc q path1 \<noteq> None"
        unfolding matching_iff by blast
      then have "(q, l) \<in> set (belowEntries n)" using that unfolding belowEntries_cases by blast
      then show "q \<in> ?L" using l(2) unfolding matching_iff by blast
    qed
    have "nchildren n ! j \<in> set (nchildren n)"
      if "findIdx (\<lambda>x. hd path1 = x) (nindices (ndata n)) = Some j" for j
      using staticOK_index(1) [OF assms(1,2)] findIdx_SomeD [OF that] by simp
    moreover have "last (nchildren n) \<in> set (nchildren n)" if "nwild (ndata n)"
      using staticOK_wild(1) [OF assms(1,2) that] by simp
    ultimately show ?thesis using sub by (auto split: option.split)
  qed
qed

section \<open>The search finds what the patterns say\<close>

lemma answers_Miss: "answers rc es path (Inr (Miss t)) \<longleftrightarrow> matching rc es path = {}"
  by (simp add: answers_def)

lemma answers_own:
  assumes "hasLeaf n" "matching rc (belowEntries n) path \<subseteq> {[]}" "matchPat rc [] path = Some ps"
  shows "answers rc (belowEntries n) path
    (Inr (Hit (nhandler (ndata n)) (nfast (ndata n)) (npattern (ndata n)) ps))"
proof -
  have "([], nhandler (ndata n), nfast (ndata n), npattern (ndata n)) \<in> set (belowEntries n)"
    using assms(1) by (simp add: belowEntries_cases)
  then show ?thesis using assms(2,3) by (auto simp: answers_def)
qed

text \<open>At the end of the path only the node's own pattern is left.\<close>

lemma below_at_end:
  assumes "\<And>c q l. c \<in> set (nchildren n) \<Longrightarrow> (q, l) \<in> set (entries c) \<Longrightarrow> q \<noteq> []"
  shows "answers rc (belowEntries n) []
    (Inr (if hasLeaf n then Hit (nhandler (ndata n)) (nfast (ndata n)) (npattern (ndata n)) [] else Miss t))"
proof -
  have "matching rc (belowEntries n) [] \<subseteq> (if hasLeaf n then {[]} else {})"
  proof
    fix q assume "q \<in> matching rc (belowEntries n) []"
    then obtain l where q: "(q, l) \<in> set (belowEntries n)" "matchPat rc q [] \<noteq> None"
      unfolding matching_iff by blast
    then have "q = []" using matchPat_Nil_path [of q rc] by (cases q) simp_all
    then have "hasLeaf n" using q(1) assms unfolding belowEntries_cases by blast
    then show "q \<in> (if hasLeaf n then {[]} else {})" using \<open>q = []\<close> by simp
  qed
  then show ?thesis using answers_own [of n rc "[]" "[]"] by (simp add: answers_Miss split: if_splits)
qed

lemma children_nonempty:
  assumes "wfTree rc n" "c \<in> set (nchildren n)" "(q, l) \<in> set (entries c)" "ntype (ndata n) \<noteq> Wildcard"
  shows "q \<noteq> []"
proof -
  have wc: "wfTree rc c" using assms(1,2) by (simp add: wfTree_def2 [of rc n])
  consider "isWrapper n" | "staticOK n" | "paramish n"
    using assms(1,4) by (cases "ntype (ndata n)")
      (auto simp: wfTree_def2 [of rc n] wfData_static staticNode_def paramish_def)
  then show ?thesis
  proof cases
    case 1
    then have "ntype (ndata c) = Wildcard" using assms(2) by (auto simp: isWrapper_def length_Suc_conv)
    then show ?thesis using entries_hd_catchAll [OF wc _ assms(3)] by auto
  next
    case 2
    show ?thesis
    proof (rule staticOK_children [OF assms(1) 2 assms(2)])
      fix j assume "startsWith (nindices (ndata n) ! j) c"
      then show ?thesis using entries_hd [OF wc _ assms(3)] by blast
    next
      assume "paramish c"
      then show ?thesis using paramish_head [OF wc _ assms(3)] by blast
    qed
  next
    case 3
    then have "startsWith (CHR ''/'') c"
      using assms(1,2) by (auto simp: paramish_def wfTree_def2 [of rc n] wfData_def Let_def length_Suc_conv)
    then show ?thesis using entries_hd [OF wc _ assms(3)] by blast
  qed
qed

lemma own_end:
  assumes "wfTree rc n" "ntype (ndata n) \<noteq> Wildcard"
  shows "answers rc (belowEntries n) []
    (Inr (if found (leafOutcome n hint) then Hit (nhandler (ndata n)) (nfast (ndata n)) (npattern (ndata n)) [] else Miss t))"
proof -
  have "found (leafOutcome n hint) = hasLeaf n" by (simp add: found_def leafOutcome_def hasLeaf_def)
  then show ?thesis using below_at_end [of n rc t] children_nonempty [OF assms(1) _ _ assms(2)] by simp
qed

text \<open>The static branch, with the prefix already taken off.\<close>

lemma static_matchPat:
  assumes "wfTree rc n" "staticOK n" "(q, l) \<in> set (belowEntries n)"
  shows "matchPat rc (npath (ndata n) @ q) path =
     (if length (npath (ndata n)) \<le> length path \<and> take (length (npath (ndata n))) path = npath (ndata n)
      then matchPat rc q (drop (length (npath (ndata n))) path) else None)"
  using matchPat_prefix [OF _ below_noStar [OF assms]] assms(2) by (simp add: staticOK_def)

lemma static_mismatch:
  assumes "wfTree rc n" "staticOK n"
    "\<not> (length (npath (ndata n)) \<le> length path \<and> take (length (npath (ndata n))) path = npath (ndata n))"
  shows "matching rc (entries n) path = {}"
proof -
  have "matchPat rc (npath (ndata n) @ q) path = None" if "(q, l) \<in> set (belowEntries n)" for q l
    by (simp only: static_matchPat [OF assms(1,2) that] assms(3) if_False)
  then show ?thesis by (auto simp: matching_iff entries_below in_prefixAll)
qed

lemma map_option_Nil: "map_option ((@) []) x = x"
  by (cases x) simp_all

lemma static_match:
  assumes "wfTree rc n" "staticOK n" "path = npath (ndata n) @ path1" "answers rc (belowEntries n) path1 res"
  shows "answers rc (entries n) path res"
proof -
  have "map_sum id (onHit []) res = res" by (cases res) simp_all
  moreover have "answers rc (prefixAll (npath (ndata n)) (belowEntries n)) path (map_sum id (onHit []) res)"
    using static_matchPat [OF assms(1,2)] assms(3) by (intro answers_prefix [OF assms(4)]) (simp add: map_option_Nil)
  ultimately show ?thesis by (simp add: entries_below)
qed

lemma leafOutcome_sel [simp]:
  "ohandler (leafOutcome n t) = nhandler (ndata n)" "ofast (leafOutcome n t) = nfast (ndata n)"
  "opattern (leafOutcome n t) = npattern (ndata n)" "otsr (leafOutcome n t) = t"
  by (simp_all add: leafOutcome_def)

definition childrenAnswer :: "regexLib \<Rightarrow> ('h, 'f) node \<Rightarrow> bool" where
  "childrenAnswer rc n \<longleftrightarrow>
     (\<forall>m via p. m \<in> set (nchildren n) \<and> searchable via m p \<longrightarrow> answers rc (entries m) p (search False via m p))"

lemma entries_sub_below: "c \<in> set (nchildren n) \<Longrightarrow> set (entries c) \<subseteq> set (belowEntries n)"
  by (auto simp: belowEntries_def)

lemma capture_static [simp]: "capture False n path = []"
  by (simp add: capture_def)

lemma literal_preferred:
  assumes "wfTree rc k" "startsWith b k" "\<not> wildByte b" "q \<in> matching rc (entries k) p"
    "wfTree rc w" "paramish w" "q' \<in> matching rc (entries w) p"
  shows "preferred q q'"
proof -
  obtain l l' where "(q, l) \<in> set (entries k)" "(q', l') \<in> set (entries w)"
    using assms(4,7) unfolding matching_iff by blast
  then obtain s where "q = b # s" "q' \<noteq> []" "wildByte (hd q')"
    using entries_hd [OF assms(1,2)] paramish_head [OF assms(5,6)] by metis
  then have "q = [] @ b # s \<and> q' = [] @ hd q' # tl q' \<and> \<not> wildByte b \<and> wildByte (hd q')"
    using assms(3) by simp
  then show ?thesis unfolding preferred_def by blast
qed

lemma answers_sub:
  assumes "answers rc es path res" "set es \<subseteq> set fs" "matching rc fs path = matching rc es path"
  shows "answers rc fs path res"
proof (cases res)
  case (Inr r)
  then show ?thesis
    using assms answers_mono [OF _ assms(2), of rc path] by (cases r) (simp_all add: answers_Miss)
qed (use assms(1) in \<open>simp add: answers_def\<close>)

lemma search_Enter_plain:
  assumes "gvStep ci via n path (Some pb) = Inr (Enter m path' qs v False)" "capture via n path = []"
  shows "search ci via n path = search ci v m path'"
  using assms by (simp add: search_Enter split: sum.split result.split)

lemma search_static_below:
  assumes "wfTree rc n" "staticOK n" "childrenAnswer rc n" "path = npath (ndata n) @ path1" "path1 \<noteq> []"
  shows "answers rc (belowEntries n) path1 (search False False n path)"
proof -
  let ?cs = "nchildren n" and ?w = "last (nchildren n)"
  have wch: "?w \<in> set ?cs" "paramish ?w" "wfTree rc ?w" if "nwild (ndata n)"
    using staticOK_wild [OF assms(1,2) that] by simp_all
  have wans: "answers rc (entries ?w) path1 (search False True ?w path1)" if "nwild (ndata n)"
    using assms(3,5) wch [OF that] by (simp add: childrenAnswer_def searchable_def)
  note bm = below_matching [OF assms(1,2,5)]
  have len: "length path > length (npath (ndata n))" using assms(4,5) by simp
  have tk: "take (length (npath (ndata n))) path = npath (ndata n)" "drop (length (npath (ndata n))) path = path1"
    using assms(4) by simp_all
  show ?thesis
  proof (cases "findIdx (\<lambda>x. hd path1 = x) (nindices (ndata n))")
    case None
    show ?thesis
    proof (cases "nwild (ndata n)")
      case False
      have "gvStep False False n path (Some emptyBuf) = Inr (Break (noMatch (Some (path1 = ''/'' \<and> hasLeaf n))) (Some emptyBuf))"
        using len tk None False by (simp add: gvStep_def gvStatic_def Let_def)
      from search_Break [OF this] show ?thesis using bm None False by (simp add: answers_Miss)
    next
      case True
      have st: "gvStep False False n path (Some emptyBuf) = Inr (Enter ?w path1 (Some emptyBuf) True False)"
        using len tk None True staticOK_wild(1) [OF assms(1,2) True] by (simp add: gvStep_def gvStatic_def Let_def)
      have m: "matching rc (belowEntries n) path1 = matching rc (entries ?w) path1" using bm None True by simp
      show ?thesis
        using answers_sub [OF wans [OF True] entries_sub_below [OF wch(1) [OF True]] m]
        by (simp add: search_Enter_plain [OF st])
    qed
  next
    case (Some j)
    let ?k = "?cs ! j"
    have j: "j < length (nindices (ndata n))" "nindices (ndata n) ! j = hd path1"
      using findIdx_SomeD [OF Some] by auto
    note ix = staticOK_index [OF assms(1,2) j(1)]
    have k: "?k \<in> set ?cs" "wfTree rc ?k" "startsWith (hd path1) ?k" using ix j(2) by simp_all
    have nwb: "\<not> wildByte (hd path1)" using assms(2) j by (metis nth_mem staticOK_def)
    have "searchable False ?k path1" using k(3) assms(5) by (auto simp: searchable_def startsWith_def isWrapper_def)
    then have kans: "answers rc (entries ?k) path1 (search False False ?k path1)"
      using assms(3) k(1) by (simp add: childrenAnswer_def)
    have st: "gvStep False False n path (Some emptyBuf) = Inr (Enter ?k path1 (Some emptyBuf) False (nwild (ndata n)))"
      using len tk Some ix(1) by (simp add: gvStep_def gvStatic_def Let_def)
    note bm = bm [unfolded Some option.case]
    show ?thesis
    proof (cases "search False False ?k path1")
      case (Inl e)
      then show ?thesis using kans by (simp add: answers_def)
    next
      case (Inr r)
      show ?thesis
      proof (cases r)
        case (Hit h f p ps)
        have "answers rc (belowEntries n) path1 (Inr (Hit h f p ps))"
        proof (rule answers_mono [OF _ entries_sub_below [OF k(1)]])
          show "answers rc (entries ?k) path1 (Inr (Hit h f p ps))" using kans Inr Hit by simp
          fix q' assume "q' \<in> matching rc (belowEntries n) path1"
          then consider "q' \<in> matching rc (entries ?k) path1" | "nwild (ndata n)" "q' \<in> matching rc (entries ?w) path1"
            using bm by (auto split: if_splits)
          then show "q' \<in> matching rc (entries ?k) path1 \<or> (\<forall>q \<in> matching rc (entries ?k) path1. preferred q q')"
          proof cases
            case 2
            then show ?thesis using literal_preferred [OF k(2,3) nwb _ wch(3,2)] by blast
          qed blast
        qed
        then show ?thesis using Inr Hit by (simp add: search_Enter [OF st])
      next
        case (Miss t)
        have mk: "matching rc (entries ?k) path1 = {}" using kans Inr Miss by (simp add: answers_Miss)
        show ?thesis
        proof (cases "nwild (ndata n)")
          case False
          then show ?thesis using Inr Miss bm mk by (simp add: search_Enter [OF st] answers_Miss)
        next
          case True
          have m: "matching rc (belowEntries n) path1 = matching rc (entries ?w) path1" using bm mk True by simp
          have ne: "?cs \<noteq> []" using staticOK_wild(1) [OF assms(1,2) True] .
          show ?thesis
          proof (cases "search False True ?w path1")
            case (Inl e)
            then show ?thesis using wans [OF True] by (simp add: answers_def)
          next
            case Iw: (Inr r2)
            then show ?thesis
              using wans [OF True] m Inr Miss True ne
                answers_mono [OF _ entries_sub_below [OF wch(1) [OF True]], of rc path1]
              by (cases r2) (auto simp: search_Enter [OF st] answers_Miss)
          qed
        qed
      qed
    qed
  qed
qed

lemma search_static:
  assumes "wfTree rc n" "staticOK n" "childrenAnswer rc n" "path \<noteq> []" "staticNode n"
  shows "answers rc (entries n) path (search False False n path)"
proof (cases "length (npath (ndata n)) \<le> length path \<and> take (length (npath (ndata n))) path = npath (ndata n)")
  case False
  have "\<exists>t. gvStep False False n path (Some emptyBuf) = Inr (Break (noMatch t) (Some emptyBuf))"
  proof (cases "length path > length (npath (ndata n))")
    case True
    then show ?thesis using False by (auto simp: gvStep_def gvStatic_def Let_def)
  next
    case nl: False
    then have "path \<noteq> npath (ndata n)" using False by auto
    then show ?thesis using nl by (auto simp: gvStep_def gvStatic_def Let_def)
  qed
  then obtain t where "gvStep False False n path (Some emptyBuf) = Inr (Break (noMatch t) (Some emptyBuf))" ..
  from search_Break [OF this] show ?thesis
    using static_mismatch [OF assms(1,2) False] by (simp add: answers_Miss)
next
  case True
  then obtain path1 where p: "path = npath (ndata n) @ path1" by (metis append_take_drop_id)
  show ?thesis
  proof (cases "path1 = []")
    case False
    then show ?thesis
      using static_match [OF assms(1,2) p search_static_below [OF assms(1-3) p]] by simp
  next
    case e: True
    have "\<exists>t. gvStep False False n path (Some emptyBuf) = Inr (Break (leafOutcome n t) (Some emptyBuf))"
    proof (cases "findIdx (\<lambda>x. x = CHR ''/'') (nindices (ndata n))")
      case None
      then have "nindices (ndata n) \<noteq> ''/''" by (intro notI) simp
      then show ?thesis
        using None p e
        by (intro exI [of _ "if hasLeaf n then None else Some (path = ''/'')"])
          (simp add: gvStep_def gvStatic_def Let_def)
    next
      case (Some j)
      then have "j < length (nchildren n)"
        using staticOK_index(1) [OF assms(1,2)] findIdx_SomeD by blast
      then show ?thesis
        using Some p e
        by (intro exI [of _ "if hasLeaf n then None else Some (slashChildTSR (nchildren n ! j))"])
          (simp add: gvStep_def gvStatic_def Let_def)
    qed
    then obtain t where st: "gvStep False False n path (Some emptyBuf) = Inr (Break (leafOutcome n t) (Some emptyBuf))" ..
    have "ntype (ndata n) \<noteq> Wildcard" using assms(5) by (auto simp: staticNode_def)
    from static_match [OF assms(1,2) p, unfolded e,
        OF own_end [OF assms(1) this, where hint = t and t = "otsr (leafOutcome n t) = Some True"]]
    show ?thesis
      unfolding search_Break [OF st] by (simp split: if_splits)
  qed
qed

text \<open>The wildcard branch.\<close>

lemma search_wrapper:
  assumes "wfTree rc n" "isWrapper n" "childrenAnswer rc n" "path \<noteq> []" "hd path = CHR ''/''"
  shows "answers rc (entries n) path (search False False n path)"
proof -
  obtain w where w: "nchildren n = [w]" "wfTree rc w" "ntype (ndata w) = Wildcard" "entries n = entries w"
    using assms(1,2) by (rule entries_wrapper)
  have "gvStep False False n path (Some emptyBuf) = Inr (Enter w path (Some emptyBuf) True False)"
    using assms(2,4) w(1) by (simp add: gvStep_def gvStatic_def Let_def isWrapper_def)
  from search_Enter_plain [OF this] have "search False False n path = search False True w path" by simp
  moreover have "searchable True w path" using w(3) assms(4,5) by (simp add: searchable_def)
  ultimately show ?thesis using assms(3) w(1,4) by (simp add: childrenAnswer_def)
qed

lemma search_catchAll:
  assumes "wfTree rc n" "ntype (ndata n) = Wildcard" "path \<noteq> []" "hd path = CHR ''/''"
  shows "answers rc (entries n) path (search False True n path)"
proof -
  obtain nm where nm: "nchildren n = []" "hasLeaf n" "npath (ndata n) = ''/*'' @ nm"
    using assms(1,2) by (auto simp: wfTree_def2 [of rc n] wfData_def Let_def)
  have "gvStep False True n path (Some emptyBuf)
      = Inr (Break (leafOutcome n None) (addParam (Some emptyBuf) (drop 2 (npath (ndata n))) path))"
    using nm(3) assms(2) by (simp add: gvStep_def gvWild_def Let_def)
  note S = search_Break [OF this]
  have f: "found (leafOutcome n None)" using nm(2) by (auto simp: found_def hasLeaf_def)
  have "entries n = [(''/*'' @ nm, nhandler (ndata n), nfast (ndata n), npattern (ndata n))]"
    using nm by (simp add: entries_def2 [of n] ownEntry_def hasLeaf_def)
  moreover have "matchPat rc (''/*'' @ nm) path = Some [mkParam nm path]"
    using matchPat_catchAll [OF assms(3,4)] by simp
  moreover have "capture True n path = [mkParam nm path]"
    using assms(2) nm(3) by (simp add: capture_def)
  ultimately show ?thesis
    using f by (auto simp: S answers_def matching_iff)
qed

lemma map_option_single: "map_option ((@) [x]) v = map_option ((#) x) v"
  by (cases v) simp_all

lemma takeWhile_segment:
  assumes "CHR ''/'' \<notin> set nm" "q = [] \<or> hd q = CHR ''/''"
  shows "takeWhile (\<lambda>x. x \<noteq> CHR ''/'') (nm @ q) = nm" "dropWhile (\<lambda>x. x \<noteq> CHR ''/'') (nm @ q) = q"
proof -
  have all: "\<And>x. x \<in> set nm \<Longrightarrow> x \<noteq> CHR ''/''" using assms(1) by blast
  have "takeWhile (\<lambda>x. x \<noteq> CHR ''/'') q = []" "dropWhile (\<lambda>x. x \<noteq> CHR ''/'') q = q"
    using assms(2) by (cases q, auto)+
  then show "takeWhile (\<lambda>x. x \<noteq> CHR ''/'') (nm @ q) = nm" "dropWhile (\<lambda>x. x \<noteq> CHR ''/'') (nm @ q) = q"
    using takeWhile_append2 [of nm "\<lambda>x. x \<noteq> CHR ''/''" q, OF all]
      dropWhile_append2 [of nm "\<lambda>x. x \<noteq> CHR ''/''" q, OF all] by simp_all
qed

lemma search_param:
  assumes "wfTree rc n" "ntype (ndata n) = Param" "childrenAnswer rc n" "path \<noteq> []"
  shows "answers rc (entries n) path (search False True n path)"
proof -
  obtain nm where nm: "npath (ndata n) = CHR '':'' # nm" "CHR ''/'' \<notin> set nm"
    using assms(1,2) by (cases "npath (ndata n)") (auto simp: wfTree_def2 [of rc n] wfData_def Let_def)
  have ch: "nchildren n = [] \<or> (\<exists>k. nchildren n = [k] \<and> startsWith (CHR ''/'') k)"
    using assms(1,2) by (auto simp: wfTree_def2 [of rc n] wfData_def Let_def length_Suc_conv)
  have cw: "\<forall>c \<in> set (nchildren n). wfTree rc c" using assms(1) by (simp add: wfTree_def2 [of rc n])
  have qs: "q = [] \<or> hd q = CHR ''/''" if "(q, l) \<in> set (belowEntries n)" for q l
  proof -
    from that consider "q = []" | c where "c \<in> set (nchildren n)" "(q, l) \<in> set (entries c)"
      unfolding belowEntries_cases by blast
    then show ?thesis
    proof cases
      case 2
      then have "startsWith (CHR ''/'') c" "wfTree rc c" using ch cw by auto
      then show ?thesis using entries_hd [OF _ _ 2(2)] by force
    qed simp
  qed
  let ?seg = "takeWhile (\<lambda>x. x \<noteq> CHR ''/'') path" and ?more = "dropWhile (\<lambda>x. x \<noteq> CHR ''/'') path"
  show ?thesis
  proof (cases "hd path = CHR ''/''")
    case True
    have "gvStep False True n path (Some emptyBuf) = Inr (Break (noMatch None) (Some emptyBuf))"
      using assms(2,4) True by (simp add: gvStep_def gvWild_def Let_def)
    note S = search_Break [OF this]
    have "matchPat rc (npath (ndata n) @ q) path = None" for q
      using True assms(4) by (simp add: nm(1) matchPat_param)
    then have "matching rc (entries n) path = {}" by (auto simp: matching_iff entries_below in_prefixAll)
    then show ?thesis by (simp add: S answers_Miss)
  next
    case False
    let ?caps = "[mkParam nm ?seg]"
    have cap: "capture True n path = ?caps" using assms(2) nm(1) by (simp add: capture_def)
    have mp: "matchPat rc (npath (ndata n) @ q) path = map_option ((@) ?caps) (matchPat rc q ?more)"
      if "(q, l) \<in> set (belowEntries n)" for q l
      using False assms(4) takeWhile_segment [OF nm(2) qs [OF that]]
      by (simp add: nm(1) matchPat_param map_option_single)
    have pre: "answers rc (entries n) path (map_sum id (onHit ?caps) res)"
      if "answers rc (belowEntries n) ?more res" for res
      using answers_prefix [OF that mp] by (simp add: entries_below)
    let ?ps = "addParam (Some emptyBuf) nm ?seg"
    have st: "gvStep False True n path (Some emptyBuf) = gvAfterSegment n path (segmentEnd path) ?ps"
      using assms(2,4) False nm(1) by (simp add: gvStep_def gvWild_def Let_def)
    have nW: "ntype (ndata n) \<noteq> Wildcard" using assms(2) by simp
    show ?thesis
    proof (cases "?more = []")
      case True
      then have "\<exists>t. gvStep False True n path (Some emptyBuf) = Inr (Break (leafOutcome n t) ?ps)"
        unfolding st by (auto simp: gvAfterSegment_def Let_def segmentEnd_full)
      then obtain t where st': "gvStep False True n path (Some emptyBuf) = Inr (Break (leafOutcome n t) ?ps)" ..
      from pre [unfolded True, OF own_end [OF assms(1) nW, where hint = t and t = "otsr (leafOutcome n t) = Some True"]]
      show ?thesis by (simp add: search_Break [OF st'] cap onHit_def split: if_splits)
    next
      case more: False
      then have ne: "segmentEnd path \<noteq> length path" by (simp add: segmentEnd_full)
      have own: "matchPat rc [] ?more = None" using more by simp
      show ?thesis
      proof (cases "nchildren n = []")
        case True
        have "gvStep False True n path (Some emptyBuf)
            = Inr (Break (noMatch (Some (length path = segmentEnd path + 1))) ?ps)"
          unfolding st using ne True by (simp add: gvAfterSegment_def Let_def)
        note S = search_Break [OF this]
        have "matching rc (belowEntries n) ?more = {}"
          using own True by (auto simp: matching_iff belowEntries_cases)
        then have "answers rc (belowEntries n) ?more (Inr (Miss False))" by (simp add: answers_Miss)
        from pre [OF this] show ?thesis by (simp add: S onHit_def answers_Miss)
      next
        case False
        then obtain k where k: "nchildren n = [k]" "startsWith (CHR ''/'') k" using ch by blast
        have st': "gvStep False True n path (Some emptyBuf) = Inr (Enter k ?more ?ps False False)"
          unfolding st using ne k(1) by (simp add: gvAfterSegment_def Let_def)
        have "hd ?more = CHR ''/''" using hd_dropWhile [OF more] by simp
        then have "searchable False k ?more" using k(2) more by (simp add: searchable_def startsWith_def)
        then have "answers rc (entries k) ?more (search False False k ?more)"
          using assms(3) k(1) by (simp add: childrenAnswer_def)
        then have "answers rc (belowEntries n) ?more (search False False k ?more)"
        proof (rule answers_sub)
          show "set (entries k) \<subseteq> set (belowEntries n)" using k(1) by (simp add: belowEntries_def)
          have "matching rc (ownEntry (ndata n)) ?more = {}"
            using own by (auto simp: matching_def ownEntry_def simp del: matchPat.simps(1))
          then show "matching rc (belowEntries n) ?more = matching rc (entries k) ?more"
            using k(1) by (simp add: belowEntries_def matching_append)
        qed
        from pre [OF this] show ?thesis
          by (simp add: search_Enter [OF st'] cap onHit_def map_sum_def split: sum.split_asm result.split_asm)
      qed
    qed
  qed
qed

lemma search_regex:
  assumes "wfTree rc n" "ntype (ndata n) = RegexParam" "path \<noteq> []"
  shows "answers rc (entries n) path (search False True n path)"
proof -
  let ?p = "npath (ndata n)"
  obtain k re where wd: "nchildren n = []" "hd ?p = CHR ''{''" "2 \<le> length ?p" "CHR ''/'' \<notin> set ?p"
    "strIndex (tl ?p) '':'' = Some k" "nregexpEnd (ndata n) = of_nat (1 + k)" "1 + k \<le> 255"
    "rc (regexExpr ?p k) = Some re" "nregexp (ndata n) = Some re"
    using assms(1,2) by (auto simp: wfTree_def2 [of rc n] wfData_def Let_def)
  obtain nm where nm: "?p = CHR ''{'' # nm" using wd(2,3) by (cases ?p) auto
  have k: "k < length nm" using strIndex_lt [of "'':''" nm k] wd(5) nm by simp
  have un: "unat (nregexpEnd (ndata n)) = 1 + k"
    unfolding wd(6) using wd(7) by (simp only: unat_of_nat) simp
  let ?seg = "takeWhile (\<lambda>x. x \<noteq> CHR ''/'') path" and ?more = "dropWhile (\<lambda>x. x \<noteq> CHR ''/'') path"
  have tw: "takeWhile (\<lambda>x. x \<noteq> CHR ''/'') nm = nm" "dropWhile (\<lambda>x. x \<noteq> CHR ''/'') nm = []"
    using takeWhile_segment [of nm "[]"] wd(4) nm by auto
  have seg: "?seg = [] \<longleftrightarrow> hd path = CHR ''/''" using assms(3) by (cases path) auto
  have mp: "matchPat rc ?p path =
      (if ?seg = [] \<or> \<not> re ?seg \<or> ?more \<noteq> [] then None else Some [mkParam (take k nm) ?seg])"
    unfolding nm matchPat.simps(2) Let_def tw using wd(5,8) nm by simp blast
  have ent: "entries n = (if hasLeaf n then [(?p, nhandler (ndata n), nfast (ndata n), npattern (ndata n))] else [])"
    using wd(1) by (simp add: entries_def2 [of n] ownEntry_def hasLeaf_def)
  have cap: "capture True n path = [mkParam (take k nm) ?seg]"
    using assms(2) un nm by (simp add: capture_def)
  have gw: "gvStep False True n path ps = gvWild n path ps" for ps by (simp add: gvStep_def)
  let ?ps = "addParam (Some emptyBuf) (take k nm) ?seg"
  have after: "gvWild n path (Some emptyBuf) = gvAfterSegment n path (segmentEnd path) ?ps"
    if "\<not> (?seg = [] \<or> \<not> re ?seg)"
    using that seg assms(2,3) wd(9) un nm k by (simp add: gvWild_def Let_def)
  show ?thesis
  proof (cases "?seg = [] \<or> \<not> re ?seg \<or> ?more \<noteq> []")
    case True
    have "\<exists>t ps. gvStep False True n path (Some emptyBuf) = Inr (Break (noMatch t) ps)"
    proof (cases "?seg = [] \<or> \<not> re ?seg")
      case True
      then have "gvWild n path (Some emptyBuf) = Inr (Break (noMatch None) (Some emptyBuf))"
        using seg assms(2,3) wd(9) by (auto simp: gvWild_def Let_def)
      then show ?thesis unfolding gw by blast
    next
      case False
      then have "segmentEnd path \<noteq> length path" using True segmentEnd_full by blast
      then have "gvAfterSegment n path (segmentEnd path) ?ps
          = Inr (Break (noMatch (Some (length path = segmentEnd path + 1))) ?ps)"
        using wd(1) by (simp add: gvAfterSegment_def Let_def)
      then show ?thesis unfolding gw after [OF False] by blast
    qed
    then obtain t ps where "gvStep False True n path (Some emptyBuf) = Inr (Break (noMatch t) ps)" by blast
    note S = search_Break [OF this]
    have "matching rc (entries n) path = {}" using mp True ent by (auto simp: matching_iff)
    then show ?thesis by (simp add: S answers_Miss)
  next
    case False
    have "segmentEnd path = length path" "\<not> (?seg = [] \<or> \<not> re ?seg)" using False segmentEnd_full by blast+
    then have "gvStep False True n path (Some emptyBuf) = Inr (Break (leafOutcome n None) ?ps)"
      unfolding gw using after wd(1) by (simp add: gvAfterSegment_def Let_def)
    note S = search_Break [OF this]
    have f: "found (leafOutcome n None) = hasLeaf n" by (simp add: found_def hasLeaf_def)
    show ?thesis
    proof (cases "hasLeaf n")
      case True
      then show ?thesis using mp False ent f cap by (auto simp: S answers_def matching_iff)
    next
      case nl: False
      then show ?thesis using ent f by (simp add: S answers_Miss matching_def)
    qed
  qed
qed

text \<open>The search on a well-formed tree returns the preferred matching pattern.\<close>

lemma search_answers:
  "wfTree rc n \<Longrightarrow> searchable via n path \<Longrightarrow> answers rc (entries n) path (search False via n path)"
proof (induction n arbitrary: via path rule: measure_induct_rule [where f = nodeCount])
  case (less n)
  have ca: "childrenAnswer rc n"
    unfolding childrenAnswer_def
    using less.IH nodeCount_child less.prems(1) by (metis wfTree_def2)
  have ne: "path \<noteq> []" using less.prems(2) by (simp add: searchable_def)
  show ?case
  proof (cases via)
    case False
    then have st: "staticNode n" "isWrapper n \<longrightarrow> hd path = CHR ''/''"
      using less.prems(2) by (simp_all add: searchable_def)
    have "isWrapper n \<or> staticOK n"
      using less.prems(1) st(1) by (simp add: wfTree_def2 [of rc n] wfData_static)
    then show ?thesis
      using search_wrapper [OF less.prems(1) _ ca ne] search_static [OF less.prems(1) _ ca ne st(1)] st False
      by auto
  next
    case True
    then consider "ntype (ndata n) = Param" | "ntype (ndata n) = RegexParam"
      | "ntype (ndata n) = Wildcard" "hd path = CHR ''/''"
      using less.prems(2) by (auto simp: searchable_def paramish_def)
    then show ?thesis
    proof cases
      case 1
      then show ?thesis using search_param [OF less.prems(1) _ ca ne] True by simp
    next
      case 2
      then show ?thesis using search_regex [OF less.prems(1) _ ne] True by simp
    next
      case 3
      then show ?thesis using search_catchAll [OF less.prems(1) _ ne] True by simp
    qed
  qed
qed

lemma search_root:
  assumes "rootOK rc n" "path \<noteq> []" "hd path = CHR ''/''"
  shows "answers rc (entries n) path (search False False n path)"
proof (cases "freshNode n")
  case True
  then have "gvStep False False n path (Some emptyBuf) = Inr (Break (noMatch (Some False)) (Some emptyBuf))"
    using assms(2) by (simp add: gvStep_def gvStatic_def Let_def freshNode_def)
  from search_Break [OF this] show ?thesis using True by (simp add: answers_Miss matching_def)
next
  case False
  then have "wfTree rc n" "staticNode n" using assms(1) by (auto simp: rootOK_def startsWith_def)
  then show ?thesis using search_answers [of rc n False path] assms(2,3) by (simp add: searchable_def)
qed
end
