(* ===== verification/TreeStatic.thy ===== *)
theory TreeStatic
  imports TreeMatch
begin

text \<open>
  Trees of literal patterns. Registering a literal pattern keeps the tree free of wildcard
  nodes and fails only on a duplicate; on such a tree the walk without parameter handling is
  the general lookup; and the root's parameter count, by which the dispatcher chooses between
  the two, is zero only for such trees.
\<close>

section \<open>Trees without wildcards\<close>

fun noWild :: "('h, 'f) node \<Rightarrow> bool" where
  "noWild (Node d cs) \<longleftrightarrow>
     \<not> nwild d \<and> (ntype d = Static \<or> ntype d = Root) \<and> (\<forall>c \<in> set cs. noWild c)"

definition literalPat :: "string \<Rightarrow> bool" where
  "literalPat p \<longleftrightarrow> (\<forall>c \<in> set p. \<not> wildByte c)"

lemma noWild_def2:
  "noWild n \<longleftrightarrow> \<not> nwild (ndata n) \<and> staticNode n \<and> (\<forall>c \<in> set (nchildren n). noWild c)"
  by (cases n) (auto simp: staticNode_def)

lemma noWild_bumpPrio [simp]: "noWild (bumpPrio n) = noWild n"
  by (simp add: noWild_def2 [of "bumpPrio n"] noWild_def2 [of n])

lemma noWild_emptyNode [simp]: "noWild emptyNode"
  by (simp add: emptyNode_def emptyData_def)

lemma literal_findWildcard: "literalPat p \<Longrightarrow> fst (snd (findWildcard p)) = None"
  by (simp add: findWildcard_None_iff literalPat_def)

lemma insertChild_literal:
  assumes "literalPat path"
  shows "insertChild rc n path full h f =
    Inr (Node ((ndata n)\<lparr>npath := path, nhandler := h, nfast := f, npattern := full\<rparr>) (nchildren n))"
  using literal_findWildcard [OF assms]
  by (subst insertChild.simps) (auto split: prod.split option.split)

lemma splitAt_noWild: "noWild n \<Longrightarrow> noWild (splitAt n path)"
  by (auto simp: splitAt_def Let_def splitNode_def noWild_def2 [of n] staticNode_def)

lemma incrementChildPrio_set:
  assumes "incrementChildPrio d cs pos = Inr (d', cs', j)"
  shows "set cs' \<subseteq> insert (bumpPrio (cs ! pos)) (set cs)" "j < length cs'"
    "nwild d' = nwild d" "ntype d' = ntype d"
proof -
  note D = incrementChildPrio_InrD [OF assms]
  show "set cs' \<subseteq> insert (bumpPrio (cs ! pos)) (set cs)"
    unfolding D(5) by (auto dest: in_set_takeD in_set_dropD)
  show "j < length cs'" using D(1-3) by simp
  show "nwild d' = nwild d" "ntype d' = ntype d" using D(6) by auto
qed

lemma incrementChildPrio_ok:
  assumes "pos < length cs"
  obtains d' cs' j where "incrementChildPrio d cs pos = Inr (d', cs', j)"
proof -
  obtain cs' p where "bubbleUp (cs[pos := bumpPrio (cs ! pos)]) (nprio (ndata (bumpPrio (cs ! pos)))) pos = (cs', p)"
    by (rule prod.exhaust)
  then show ?thesis using assms that by (simp add: incrementChildPrio_def Let_def)
qed

lemma update_all: "\<forall>c \<in> set cs. P c \<Longrightarrow> P m \<Longrightarrow> \<forall>c \<in> set (cs[j := m]). P c"
  using set_update_subset_insert by fastforce

text \<open>A literal pattern keeps the tree free of wildcards, and only a duplicate stops it.\<close>

lemma addWalk_literal:
  assumes "noWild n" "literalPat path" "wfTree rc n" "enters n path"
  shows "case addWalk rc n path full h f of
      Inl e \<Rightarrow> e = DuplicateHandler full \<and> path \<in> fst ` set (entries n)
    | Inr n' \<Rightarrow> noWild n'"
  using assms
proof (induction rc n path full h f rule: addWalk.induct)
  case (1 rc n path full h f)
  define i where "i = longestCommonPrefix path (npath (ndata n))"
  define n1 where "n1 = splitAt n path"
  define d where "d = ndata n1"
  define cs where "cs = nchildren n1"
  note ready = splitAt_ready [OF "1.prems"(3,4) i_def, folded n1_def]
  have nw1: "noWild n1" unfolding n1_def using "1.prems"(1) by (rule splitAt_noWild)
  then have nw: "\<not> nwild d" "ntype d \<noteq> Param" "\<forall>c \<in> set cs. noWild c" "staticNode n1"
    by (auto simp: noWild_def2 [of n1] d_def cs_def staticNode_def)
  show ?case
  proof (cases "i < length path")
    case False
    have np: "npath (ndata n1) = path" using ready(3) False by simp
    have main: "addWalk rc n path full h f =
        (if hasLeaf n1 then Inl (DuplicateHandler full)
         else Inr (Node (d\<lparr>nhandler := h, nfast := f, npattern := full\<rparr>) cs))"
      using False by (subst addWalk.simps) (simp add: Let_def i_def n1_def d_def cs_def)
    have "path \<in> fst ` set (entries n)" if "hasLeaf n1"
    proof -
      have "([], nhandler d, nfast d, npattern d) \<in> set (ownEntry d)"
        using that by (simp add: ownEntry_def hasLeaf_def d_def)
      then have "(path @ [], nhandler d, nfast d, npattern d) \<in> set (entries n1)"
        by (simp add: entries_def2 [of n1] in_prefixAll np d_def)
      then show ?thesis using ready(2) by force
    qed
    moreover have "noWild (Node (d\<lparr>nhandler := h, nfast := f, npattern := full\<rparr>) cs)"
      using nw by (auto simp: staticNode_def d_def)
    ultimately show ?thesis unfolding main by simp
  next
    case True
    define path1 where "path1 = drop i path"
    define c where "c = hd path1"
    have p1: "path1 \<noteq> []" "npath (ndata n1) @ path1 = path" using True ready(3) by (auto simp: path1_def)
    have l1: "literalPat path1"
      using "1.prems"(2) by (auto simp: literalPat_def path1_def dest: in_set_dropD)
    then have cw: "\<not> wildByte c" using p1(1) by (simp add: literalPat_def c_def)
    note IH = "1.IH" [OF i_def n1_def d_def cs_def True path1_def c_def]
    have nA: "\<not> (ntype d = Param \<and> c = CHR ''/'' \<and> length cs = 1)" using nw(2) by simp
    note eq = addWalk.simps [of rc n path full h f, unfolded Let_def, folded i_def,
        folded n1_def, folded d_def cs_def path1_def, folded c_def,
        unfolded if_P [OF True] if_not_P [OF nA]]
    have np: "\<not> paramish n1" using nw(4) by (auto simp: paramish_def staticNode_def)
    then have sw: "startsWith (hd path) n1" using "1.prems"(4) ready(5,6) by (auto simp: enters_def)
    have nwr: "\<not> isWrapper n1" using nw(1) by (auto simp: isWrapper_def d_def)
    have ok: "staticOK n1" using ready(1) nw(4) nwr by (simp add: wfTree_def2 [of rc n1] wfData_static)
    have cww: "\<forall>k \<in> set cs. wfTree rc k" using ready(1) by (simp add: wfTree_def2 [of rc n1] cs_def)
    have so: "staticsOf n1 = cs" using nw(1) by (simp add: staticsOf_def d_def cs_def)
    have la: "list_all2 startsWith (nindices d) cs" using ok by (simp add: staticOK_def so d_def)
    show ?thesis
    proof (cases "findIdx (\<lambda>x. c = x) (nindices d)")
      case (Some j)
      have j: "j < length cs" "nindices d ! j = c"
        using findIdx_SomeD [OF Some] la by (auto simp: list_all2_lengthD)
      have sk: "startsWith c (cs ! j)" using list_all2_nthD2 [OF la j(1)] j(2) by simp
      obtain d' cs' j' where inc: "incrementChildPrio d cs j = Inr (d', cs', j')"
        using incrementChildPrio_ok [OF j(1)] .
      have bump: "cs' ! j' = bumpPrio (cs ! j)" using incrementChildPrio_InrD(4) [OF inc] .
      have ent: "enters (cs' ! j') path1" using sk p1(1) unfolding bump enters_bump by (simp add: enters_def c_def)
      have kw: "wfTree rc (cs' ! j')" "noWild (cs' ! j')" using cww nw(3) j(1) by (simp_all add: bump)
      note I = IH(3) [OF nA Some inc refl refl kw(2) l1 kw(1) ent]
      have up: "path \<in> fst ` set (entries n)" if "path1 \<in> fst ` set (entries (cs ! j))"
      proof -
        obtain l where "(path1, l) \<in> set (entries (cs ! j))" using \<open>path1 \<in> _\<close> by auto
        then have "(path, l) \<in> set (entries n1)"
          unfolding in_entries_iff [of path l n1] using p1(2) j(1) cs_def nth_mem by blast
        then show ?thesis using ready(2) by force
      qed
      show ?thesis
      proof (cases "addWalk rc (cs' ! j') path1 full h f")
        case (Inl e)
        then show ?thesis using I up unfolding eq Some by (simp add: inc bump)
      next
        case (Inr m)
        then have "noWild m" using I by simp
        moreover have "\<forall>k \<in> set cs'. noWild k"
          using incrementChildPrio_set(1) [OF inc] nw(3) j(1) by fastforce
        moreover have "ntype d' = ntype d" "nwild d' = nwild d" using incrementChildPrio_set [OF inc] by simp_all
        ultimately have "noWild (Node d' (cs'[j' := m]))"
          using nw(1,4) update_all [of cs' noWild m j'] by (simp add: staticNode_def d_def)
        then show ?thesis using Inr unfolding eq Some by (simp add: inc)
      qed
    next
      case None
      have cc: "c \<noteq> CHR '':'' \<and> c \<noteq> CHR ''*'' \<and> c \<noteq> CHR ''{''" using cw by (simp add: wildByte_def)
      have len: "length (nindices d) = length cs" using la by (rule list_all2_lengthD)
      obtain d' cs' j' where inc: "incrementChildPrio (d\<lparr>nindices := nindices d @ [c]\<rparr>) (cs @ [emptyNode])
          (length (nindices d)) = Inr (d', cs', j')"
        by (rule incrementChildPrio_ok [of "length (nindices d)" "cs @ [emptyNode]" "d\<lparr>nindices := nindices d @ [c]\<rparr>"])
          (simp add: len)
      then have add: "addStaticChild d cs c = Inr (d', cs', j')"
        using nw(1) by (simp add: addStaticChild_def Let_def)
      let ?m = "Node ((ndata (cs' ! j'))\<lparr>npath := path1, nhandler := h, nfast := f, npattern := full\<rparr>) (nchildren (cs' ! j'))"
      have b: "cs' ! j' = bumpPrio emptyNode"
        using incrementChildPrio_InrD(4) [OF inc] len by (simp add: nth_append)
      have main: "addWalk rc n path full h f = Inr (Node d' (cs'[j' := ?m]))"
        unfolding eq None using nw(1) cc by (simp add: add insertChild_literal [OF l1])
      have "noWild ?m" unfolding b by (simp add: bumpPrio_def emptyNode_def emptyData_def)
      moreover have "\<forall>k \<in> set cs'. noWild k"
        using incrementChildPrio_set(1) [OF inc] nw(3) len by (fastforce simp: nth_append)
      moreover have "ntype d' = ntype d" "nwild d' = nwild d" using incrementChildPrio_set [OF inc] by simp_all
      ultimately have "noWild (Node d' (cs'[j' := ?m]))"
        using nw(1,4) update_all [of cs' noWild ?m j'] by (simp add: staticNode_def d_def del: noWild.simps) (simp add: staticNode_def)
      then show ?thesis unfolding main by simp
    qed
  qed
qed

text \<open>The same at the root, and over optional segments and lists of registrations.\<close>

lemma foldMaxParams_noWild [simp]: "noWild (foldMaxParams p n) = noWild n"
  by (simp add: foldMaxParams_def Let_def noWild_def2 [of "foldMaxParams p n"] noWild_def2 [of n] staticNode_def)

lemma insertRoute_literal:
  assumes "noWild n" "literalPat path" "rootOK rc n" "routable path" "utf8Valid path"
  shows "case insertRoute rc n path h f of
      Inl e \<Rightarrow> e = DuplicateHandler path \<and> path \<in> fst ` set (entries n)
    | Inr n' \<Rightarrow> noWild n'"
proof (cases "freshNode n")
  case True
  then have "noWild (Node ((ndata (bumpPrio n))\<lparr>npath := path, nhandler := h, nfast := f,
      npattern := path, ntype := Root\<rparr>) (nchildren n))"
    by (auto simp: freshNode_def)
  then show ?thesis
    using True assms(5) by (simp add: insertRoute_def Let_def insertChild_literal [OF assms(2)] freshNode_def)
next
  case False
  then have r: "wfTree rc n" "startsWith (CHR ''/'') n" "\<not> isWrapper n"
    using assms(3) by (auto simp: rootOK_def)
  have nr: "\<not> (npath (ndata (bumpPrio n)) = [] \<and> nindices (ndata (bumpPrio n)) = [])"
    using r(2,3) by (auto simp: startsWith_def isHolder_def split: if_splits)
  have en: "enters (bumpPrio n) path"
    using r(2) assms(4) unfolding enters_bump by (simp add: enters_def routable_def)
  have A: "case addWalk rc (bumpPrio n) path path h f of
      Inl e \<Rightarrow> e = DuplicateHandler path \<and> path \<in> fst ` set (entries (bumpPrio n))
    | Inr n' \<Rightarrow> noWild n'"
    by (rule addWalk_literal) (use assms(1,2) r(1) en in simp_all)
  show ?thesis
    unfolding insertRoute_def Let_def if_not_P [OF nr] using A assms(5) by (simp split: sum.splits)
qed

lemma literal_no_optional:
  assumes "literalPat p"
  shows "strIndex p ''{/:'' = None" "countOptionalFrom p k = 0"
proof -
  have nb: "CHR ''{'' \<notin> set p" using assms by (auto simp: literalPat_def wildByte_def)
  then show "strIndex p ''{/:'' = None" by (induction p) (auto simp: hasPrefix_def)
  from nb show "countOptionalFrom p k = 0"
    by (induction p k rule: countOptionalFrom.induct) (auto simp: hasPrefix_def)
qed

lemma literal_expansions: "literalPat p \<Longrightarrow> expansions p = [p]"
  by (subst expansions.simps) (simp add: expandOptional_def literal_no_optional)

lemma literal_addRouteInternal:
  "literalPat p \<Longrightarrow> addRouteInternal rc n p h f = insertRoute rc n p h f"
  by (subst addRouteInternal.simps)
    (simp add: expandOptional_def countOptionalSegments_def literal_no_optional maxOptionalSegments_def)

definition literalRoutes :: "(string \<times> 'h option \<times> 'f option) list \<Rightarrow> bool" where
  "literalRoutes rs \<longleftrightarrow>
     (\<forall>(p, h, f) \<in> set rs. literalPat p \<and> routable p \<and> utf8Valid p \<and> (h \<noteq> None \<or> f \<noteq> None))"

lemma registerAll_literal:
  assumes "literalRoutes rs" "distinct (map fst rs)" "noWild n" "rootOK rc n"
    "fst ` set rs \<inter> fst ` set (entries n) = {}"
  shows "\<exists>n'. registerAll rc n rs = Inr n' \<and> noWild n'"
  using assms
proof (induction rs arbitrary: n)
  case (Cons r rs)
  obtain p h f where r: "r = (p, h, f)" by (cases r)
  have lit: "literalPat p" "routable p" "utf8Valid p" "h \<noteq> None \<or> f \<noteq> None"
    using Cons.prems(1) by (auto simp: literalRoutes_def r)
  have new: "p \<notin> fst ` set (entries n)" using Cons.prems(5) by (auto simp: r)
  obtain m where m: "insertRoute rc n p h f = Inr m" "noWild m"
    using insertRoute_literal [OF Cons.prems(3) lit(1) Cons.prems(4) lit(2,3), of h f] new
    by (auto split: sum.splits)
  have e: "rootOK rc m" "mset (entries m) = add_mset (entryOf p h f p) (mset (entries n))"
    using insertRoute_entries [OF m(1) Cons.prems(4) lit(2,4)] by auto
  have "set (entries m) = insert (entryOf p h f p) (set (entries n))"
    using e(2) by (metis set_mset_add_mset_insert set_mset_mset)
  then have "fst ` set (entries m) = insert p (fst ` set (entries n))" by (simp add: entryOf_def)
  then have "fst ` set rs \<inter> fst ` set (entries m) = {}" using Cons.prems(2,5) by (auto simp: r)
  moreover have "literalRoutes rs" using Cons.prems(1) by (simp add: literalRoutes_def)
  ultimately obtain n' where "registerAll rc m rs = Inr n'" "noWild n'"
    using Cons.IH [OF _ _ m(2) e(1)] Cons.prems(2) by auto
  then show ?case by (simp add: r literal_addRouteInternal [OF lit(1)] m(1))
qed simp

section \<open>The walk for trees without wildcards\<close>

lemma slashChildTSR_noWild:
  "noWild m \<Longrightarrow> slashChildTSR m \<longleftrightarrow> npath (ndata m) = ''/'' \<and> hasLeaf m"
  by (simp add: slashChildTSR_def noWild_def2 [of m])

definition settled :: "('h, 'f) outcome \<Rightarrow> ('h, 'f) outcome" where
  "settled r = Outcome (ohandler r) (ofast r) (opattern r) (Some (case otsr r of None \<Rightarrow> False | Some t \<Rightarrow> t))"

lemma settled_simps [simp]:
  "settled (noMatch None) = noMatch (Some False)" "settled (noMatch (Some t)) = noMatch (Some t)"
  "settled (leafOutcome n None) = leafOutcome n (Some False)"
  "settled (leafOutcome n (Some t)) = leafOutcome n (Some t)"
  by (simp_all add: settled_def noMatch_def leafOutcome_def)

definition staticGoOn ::
  "bool \<Rightarrow> goPanic + ('h, 'f) step \<Rightarrow> goPanic + ('h, 'f) outcome" where
  "staticGoOn ci x =
     (case x of
        Inl e \<Rightarrow> Inl e
      | Inr (Break r _) \<Rightarrow> Inr (settled r)
      | Inr (Enter m p _ _ _) \<Rightarrow> getValueStatic m p ci)"

lemma staticGoOn_simps:
  "staticGoOn ci (Inl e) = Inl e" "staticGoOn ci (Inr (Break r qs)) = Inr (settled r)"
  "staticGoOn ci (Inr (Enter m p qs v fk)) = getValueStatic m p ci"
  "staticGoOn ci (if b then x else y) = (if b then staticGoOn ci x else staticGoOn ci y)"
  "staticGoOn ci (case v' of None \<Rightarrow> x | Some j \<Rightarrow> z j) = (case v' of None \<Rightarrow> staticGoOn ci x | Some j \<Rightarrow> staticGoOn ci (z j))"
  by (simp_all add: staticGoOn_def split: option.split)

lemma getValueStatic_step:
  assumes "noWild n"
  shows "getValueStatic n path ci = staticGoOn ci (gvStatic ci n path ps)"
proof -
  have nw: "nwild (ndata n) = False" "\<forall>c \<in> set (nchildren n). noWild c"
    using assms by (auto simp: noWild_def2 [of n])
  have sl: "(if j < length (nchildren n)
      then Inr (leafOutcome n (Some (npath (ndata (nchildren n ! j)) = ''/'' \<and> hasLeaf (nchildren n ! j))))
      else Inl IndexOutOfRange)
    = (if j < length (nchildren n) then Inr (leafOutcome n (Some (slashChildTSR (nchildren n ! j)))) else Inl IndexOutOfRange)" for j
    using nw(2) by (simp add: slashChildTSR_noWild)
  show ?thesis
    unfolding getValueStatic.simps [of n path ci] gvStatic_def Let_def staticGoOn_simps settled_simps nw(1) sl
    by (simp only: if_True not_False_eq_True)
qed

lemma gvStatic_noWild:
  assumes "noWild n"
  shows "gvStatic ci n path ps = Inr (Enter m p qs v fk) \<Longrightarrow> qs = ps \<and> \<not> v \<and> \<not> fk \<and> m \<in> set (nchildren n)"
    "gvStatic ci n path ps = Inr (Break r qs) \<Longrightarrow> qs = ps"
proof -
  show "gvStatic ci n path ps = Inr (Break r qs) \<Longrightarrow> qs = ps" using gvStatic_params by force
  assume g: "gvStatic ci n path ps = Inr (Enter m p qs v fk)"
  then have "qs = ps" "m \<in> set (nchildren n)" using gvStatic_params [OF g] gvStatic_child [OF g] by simp_all
  moreover have "\<not> v \<and> \<not> fk"
    using g assms by (auto simp: gvStatic_def Let_def noWild_def2 [of n] split: if_splits option.splits)
  ultimately show "qs = ps \<and> \<not> v \<and> \<not> fk \<and> m \<in> set (nchildren n)" by blast
qed

lemma gvRun_static:
  "noWild n \<Longrightarrow>
     (case gvRun ci False n path ps False of
        Inl e \<Rightarrow> getValueStatic n path ci = Inl e
      | Inr (r, qs, cb) \<Rightarrow> qs = ps \<and> \<not> cb \<and> getValueStatic n path ci = Inr (settled r))"
proof (induction n arbitrary: path rule: measure_induct_rule [where f = nodeCount])
  case (less n)
  note S = getValueStatic_step [OF less.prems, of path ci ps]
  show ?case
  proof (cases "gvStatic ci n path ps")
    case (Inl e)
    then show ?thesis by (subst gvRun.simps) (simp add: gvStep_def S staticGoOn_simps)
  next
    case (Inr s)
    show ?thesis
    proof (cases s)
      case (Break r qs)
      then have "qs = ps" using gvStatic_noWild(2) [OF less.prems] Inr by blast
      then show ?thesis using Inr Break by (subst gvRun.simps) (simp add: gvStep_def S staticGoOn_simps)
    next
      case (Enter m p qs v fk)
      then have e: "qs = ps" "\<not> v" "\<not> fk" "m \<in> set (nchildren n)"
        using gvStatic_noWild(1) [OF less.prems] Inr by blast+
      have "noWild m" using less.prems e(4) by (simp add: noWild_def2 [of n])
      note IH = less.IH [OF nodeCount_child [OF e(4)] this, of p]
      have g: "gvRun ci False n path ps False = gvRun ci False m p ps False"
        using Inr Enter e by (subst gvRun.simps) (simp add: gvStep_def)
      have v: "getValueStatic n path ci = getValueStatic m p ci"
        using Inr Enter by (simp add: S staticGoOn_simps)
      show ?thesis unfolding g v by (rule IH)
    qed
  qed
qed

lemma getValue_static:
  assumes "noWild n"
  shows "getValue n path ps ci = map_sum id (\<lambda>r. (r, ps)) (getValueStatic n path ci)"
  using gvRun_static [OF assms, where ci = ci and path = path and ps = ps]
  by (auto simp: getValue_def settled_def split: sum.splits)

section \<open>The parameter count of the root\<close>

lemma splitAt_max [simp]: "nmaxParams (ndata (splitAt n path)) = nmaxParams (ndata n)"
  by (simp add: splitAt_def splitNode_def Let_def)

lemma incrementChildPrio_max:
  "incrementChildPrio d cs pos = Inr (d', cs', j) \<Longrightarrow> nmaxParams d' = nmaxParams d"
  by (auto dest: incrementChildPrio_InrD(6) split: if_splits)

lemma addStaticChild_max:
  "addStaticChild d cs c = Inr (d', cs', j) \<Longrightarrow> nmaxParams d' = nmaxParams d"
  by (auto simp: addStaticChild_def Let_def dest!: incrementChildPrio_max)

lemma insertChild_max:
  "insertChild rc n path full h f = Inr m \<Longrightarrow> nmaxParams (ndata m) = nmaxParams (ndata n)"
  by (subst (asm) insertChild.simps)
    (auto simp: Let_def catchAllBelow_def split: prod.splits option.splits if_splits sum.splits)

lemma addWalk_max:
  "addWalk rc n path full h f = Inr m \<Longrightarrow> nmaxParams (ndata m) = nmaxParams (ndata n)"
  by (subst (asm) addWalk.simps)
    (auto simp: Let_def dest!: incrementChildPrio_max addStaticChild_max insertChild_max
      split: prod.splits option.splits if_splits sum.splits)

lemma unat_byte_le: "unat (x :: 8 word) \<le> 255"
proof -
  have "unat x < 2 ^ LENGTH(8)" by (rule unsigned_less)
  then show ?thesis by simp
qed

lemma clip_fold: "min 255 (fold max ks (min 255 k)) = min 255 (fold max ks (k :: nat))"
proof (induction ks arbitrary: k)
  case (Cons a ks)
  have eq: "min 255 (max a (min 255 k)) = min 255 (max a k)" by arith
  then have "fold max (a # ks) (min 255 k) = fold max ks (max a (min 255 k))"
    "fold max (a # ks) k = fold max ks (max a k)" by simp_all
  then show ?case
    using Cons.IH [of "max a (min 255 k)"] Cons.IH [of "max a k"] eq by (simp only:)
qed simp

lemma foldMaxParams_max:
  "unat (nmaxParams (ndata (foldMaxParams p n))) = min 255 (max (unat (nmaxParams (ndata n))) (countPatternParams p))"
proof -
  have small: "unat (of_nat k :: 8 word) = k" if "k \<le> 255" for k
    using that by (simp add: unat_of_nat)
  show ?thesis
    using unat_byte_le [of "nmaxParams (ndata n)"]
    by (auto simp: foldMaxParams_def Let_def small)
qed

lemma insertRoute_max:
  assumes "insertRoute rc n path h f = Inr n'"
  shows "unat (nmaxParams (ndata n')) = min 255 (max (unat (nmaxParams (ndata n))) (countPatternParams path))"
proof -
  obtain m where m: "n' = foldMaxParams path m" "nmaxParams (ndata m) = nmaxParams (ndata n)"
    using assms
    by (auto simp: insertRoute_def Let_def dest!: insertChild_max addWalk_max split: if_splits sum.splits)
  show ?thesis unfolding m(1) foldMaxParams_max m(2) ..
qed

lemma addRouteInternal_max:
  "addRouteInternal rc n path h f = Inr n' \<Longrightarrow>
     unat (nmaxParams (ndata n'))
       = min 255 (fold max (map countPatternParams (expansions path)) (unat (nmaxParams (ndata n))))"
proof (induction rc n path h f arbitrary: n' rule: addRouteInternal.induct)
  case (1 rc n path h f)
  have le: "\<not> countOptionalSegments path > maxOptionalSegments"
    using "1.prems"(1) by (subst (asm) addRouteInternal.simps) (simp split: if_splits)
  note main = "1.prems"(1) [unfolded addRouteInternal.simps [of rc n path] if_not_P [OF le]]
  obtain ex where ex: "expandOptional path = Inr ex" using main by (auto split: sum.splits)
  show ?case
  proof (cases ex)
    case None
    then have "expansions path = [path]" using ex by (subst expansions.simps) simp
    moreover have "insertRoute rc n path h f = Inr n'" using main ex None by simp
    ultimately show ?thesis using insertRoute_max by (simp add: max.commute)
  next
    case (Some ab)
    obtain a b where ab: "expandOptional path = Inr (Some (a, b))" using Some ex by (cases ab) auto
    obtain m where m: "addRouteInternal rc n a h f = Inr m" "addRouteInternal rc m b h f = Inr n'"
      using main ab by (auto split: sum.splits)
    have e: "expansions path = expansions a @ expansions b" using ab by (subst expansions.simps) simp
    show ?thesis
      using "1.IH"(1) [OF le ab refl refl m(1)] "1.IH"(2) [OF le ab refl refl m(1,2)] e clip_fold by simp
  qed
qed

lemma registerAll_max:
  "registerAll rc n rs = Inr n' \<Longrightarrow>
     unat (nmaxParams (ndata n'))
       = min 255 (fold max (map countPatternParams (map fst (registered rs))) (unat (nmaxParams (ndata n))))"
proof (induction rs arbitrary: n)
  case Nil
  then show ?case using unat_byte_le [of "nmaxParams (ndata n)"] by (simp add: registered_def)
next
  case (Cons r rs)
  obtain p h f where r: "r = (p, h, f)" by (cases r)
  obtain m where m: "addRouteInternal rc n p h f = Inr m" "registerAll rc m rs = Inr n'"
    using Cons.prems r by (auto split: sum.splits)
  show ?case
    using Cons.IH [OF m(2)] addRouteInternal_max [OF m(1)] clip_fold by (simp add: registered_patterns r)
qed

lemma set_registered: "fst ` set (registered rs) = (\<Union>(p, h, f) \<in> set rs. set (expansions p))"
proof -
  have "fst ` set (registered rs) = set (map fst (registered rs))" by simp
  then show ?thesis by (simp only: registered_patterns) auto
qed

lemma countPatternParams_zero: "countPatternParams p = 0 \<longleftrightarrow> literalPat p"
  using findWildcard_None_iff [of p]
  by (subst countPatternParams.simps) (auto simp: literalPat_def split: prod.split option.split)

text \<open>A root whose count is zero has literal patterns only, and so no wildcard node.\<close>

lemma registerAll_noWild:
  assumes "registerAll rc n rs = Inr n'" "\<forall>q \<in> fst ` set (registered rs). literalPat q" "noWild n" "rootOK rc n"
    "registrable rs"
  shows "noWild n'"
proof -
  have step: "noWild m" if "addRouteInternal rc k p h f = Inr m" "\<forall>q \<in> set (expansions p). literalPat q \<and> routable q"
    "noWild k" "rootOK rc k" "h \<noteq> None \<or> f \<noteq> None" for k p h f m
    using that
  proof (induction rc k p h f arbitrary: m rule: addRouteInternal.induct)
    case (1 rc k p h f)
    have le: "\<not> countOptionalSegments p > maxOptionalSegments"
      using "1.prems"(1) by (subst (asm) addRouteInternal.simps) (simp split: if_splits)
    note main = "1.prems"(1) [unfolded addRouteInternal.simps [of rc k p] if_not_P [OF le]]
    obtain ex where ex: "expandOptional p = Inr ex" using main by (auto split: sum.splits)
    show ?case
    proof (cases ex)
      case None
      then have "expansions p = [p]" using ex by (subst expansions.simps) simp
      then have lit: "literalPat p" "routable p" using "1.prems"(2) by simp_all
      have ins: "insertRoute rc k p h f = Inr m" using main ex None by simp
      then have "utf8Valid p" by (simp add: insertRoute_def split: if_splits)
      then show ?thesis
        using insertRoute_literal [OF "1.prems"(3) lit(1) "1.prems"(4) lit(2), of h f] ins by simp
    next
      case (Some ab)
      obtain a b where ab: "expandOptional p = Inr (Some (a, b))" using Some ex by (cases ab) auto
      obtain x where x: "addRouteInternal rc k a h f = Inr x" "addRouteInternal rc x b h f = Inr m"
        using main ab by (auto split: sum.splits)
      have e: "expansions p = expansions a @ expansions b" using ab by (subst expansions.simps) simp
      have "noWild x" using "1.IH"(1) [OF le ab refl refl x(1)] "1.prems"(2-5) e by simp
      moreover have "rootOK rc x" using addRouteInternal_entries [OF x(1)] "1.prems"(2,4,5) e by simp
      ultimately show ?thesis using "1.IH"(2) [OF le ab refl refl x(1,2)] "1.prems"(2,5) e by simp
    qed
  qed
  show ?thesis
    using assms
  proof (induction rs arbitrary: n)
    case (Cons r rs)
    obtain p h f where r: "r = (p, h, f)" by (cases r)
    obtain m where m: "addRouteInternal rc n p h f = Inr m" "registerAll rc m rs = Inr n'"
      using Cons.prems(1) r by (auto split: sum.splits)
    have reg: "(h \<noteq> None \<or> f \<noteq> None) \<and> (\<forall>q \<in> set (expansions p). routable q)" "registrable rs"
      using Cons.prems(5) by (simp_all add: registrable_def r)
    have lit: "\<forall>q \<in> set (expansions p). literalPat q" "\<forall>q \<in> fst ` set (registered rs). literalPat q"
      using Cons.prems(2) by (simp_all add: set_registered r ball_Un)
    have "noWild m" by (rule step [OF m(1)]) (use lit reg Cons.prems in auto)
    moreover have "rootOK rc m" using addRouteInternal_entries [OF m(1) Cons.prems(4)] reg by simp
    ultimately show ?case using Cons.IH [OF m(2) lit(2) _ _ reg(2)] by simp
  qed simp
qed
end
