(* ===== verification/TreeProperties.thy ===== *)
theory TreeProperties
  imports TreeStatic
begin

text \<open>
  The properties of the routing tree of tree.go, over the component theories: what a routing
  table registered into a new tree answers, that both walks are one search, what a registration
  adds and refuses, when the walk without parameters may be used, and what listing reports.
  The last section records what happens outside the invariant.
\<close>

section \<open>Listing the routes\<close>

lemma walkLeaves_entries:
  "(\<forall>(q, h, f, p) \<in> set (entries n). p \<noteq> []) \<Longrightarrow>
     walkLeaves n = map (\<lambda>(q, h, f, p). (p, h, f)) (entries n)"
proof (induction n)
  case (Node d cs)
  have strip: "map (\<lambda>(q, h, f, p). (p, h, f)) (prefixAll x es) = map (\<lambda>(q, h, f, p). (p, h, f)) es"
    for x and es :: "(string \<times> ('a, 'b) leaf) list"
    by (induction es) auto
  have sub: "\<forall>(q, h, f, p) \<in> set (entries c). p \<noteq> []" if "c \<in> set cs" for c
    using Node.prems that by (fastforce simp: in_prefixAll prefixAll_def)
  have "map walkLeaves cs = map (\<lambda>c. map (\<lambda>(q, h, f, p). (p, h, f)) (entries c)) cs"
    using Node.IH sub by (intro map_cong) auto
  then have cs: "concat (map walkLeaves cs) = map (\<lambda>(q, h, f, p). (p, h, f)) (concat (map entries cs))"
    by (simp only: map_concat map_map comp_def)
  have "npattern d \<noteq> [] \<or> nhandler d = None \<and> nfast d = None"
  proof (rule ccontr)
    assume "\<not> ?thesis"
    then have "npattern d = []" "(npath d, nhandler d, nfast d, npattern d) \<in> set (entries (Node d cs))"
      by (auto simp: ownEntry_def)
    then show False using Node.prems by blast
  qed
  then show ?case
    by (simp add: strip cs ownEntry_def del: map_concat)
qed

lemma registerAll_walk:
  assumes "registerAll rc emptyNode rs = Inr n" "registrable rs"
  shows "mset (walkLeaves n) = mset (map (\<lambda>(q, h, f, p). (p, h, f)) (registered rs))"
proof -
  have e: "mset (entries n) = mset (registered rs)"
    using registerAll_entries [OF assms(1) rootOK_empty assms(2)]
    by (simp add: emptyNode_def emptyData_def ownEntry_def)
  have "p \<noteq> []" if "(q, h, f, p) \<in> set (entries n)" for q h f p
  proof -
    have "(q, h, f, p) \<in> set (registered rs)" using that mset_eq_setD [OF e] by simp
    then obtain p0 where "p \<in> set (expansions p0)" "\<exists>h f. (p0, h, f) \<in> set rs"
      by (auto simp: registered_def entryOf_def)
    then have "routable p" using assms(2) by (auto simp: registrable_def)
    then show ?thesis by (simp add: routable_def)
  qed
  then have "walkLeaves n = map (\<lambda>(q, h, f, p). (p, h, f)) (entries n)"
    by (intro walkLeaves_entries) auto
  then show ?thesis using e by simp
qed

lemma answers_cong: "set es = set fs \<Longrightarrow> answers rc es path res = answers rc fs path res"
  unfolding answers_def matching_def by (rule arg_cong [where f = "\<lambda>S. case res of
        Inl e \<Rightarrow> False
      | Inr (Miss t) \<Rightarrow> {q. q \<in> fst ` S \<and> matchPat rc q path \<noteq> None} = {}
      | Inr (Hit h f p ps) \<Rightarrow>
          (\<exists>q. (q, h, f, p) \<in> S \<and> matchPat rc q path = Some ps
             \<and> (\<forall>q' \<in> {q. q \<in> fst ` S \<and> matchPat rc q path \<noteq> None}. q' = q \<or> preferred q q'))"])

lemma fold_max_ge: "k \<le> fold max ks (k :: nat)"
proof (induction ks arbitrary: k)
  case (Cons a ks)
  have "k \<le> max a k" by simp
  also have "\<dots> \<le> fold max ks (max a k)" by (rule Cons.IH)
  finally show ?case by simp
qed simp

lemma fold_max_elem: "x \<in> set ks \<Longrightarrow> x \<le> fold max ks (k :: nat)"
proof (induction ks arbitrary: k)
  case (Cons a ks)
  show ?case
  proof (cases "x = a")
    case True
    have "a \<le> max a k" by simp
    also have "\<dots> \<le> fold max ks (max a k)" by (rule fold_max_ge)
    finally show ?thesis using True by simp
  qed (use Cons in simp)
qed simp

section \<open>Trees made by registrations\<close>

lemma registered_answers:
  assumes "registerAll rc emptyNode rs = Inr n" "registrable rs"
    and "path \<noteq> []" "hd path = CHR ''/''" "bufOK pb" "pcount pb = 0"
  shows "case lookupView (getValue n path (Some pb) False) of
      Inl e \<Rightarrow> False
    | Inr (Miss t) \<Rightarrow> \<forall>q \<in> fst ` set (registered rs). matchPat rc q path = None
    | Inr (Hit h f p ps) \<Rightarrow>
        (p, h, f, p) \<in> set (registered rs) \<and> matchPat rc p path = Some ps
        \<and> (\<forall>q \<in> fst ` set (registered rs). matchPat rc q path \<noteq> None \<longrightarrow> q = p \<or> preferred p q)"
proof -
  have r: "rootOK rc n" "set (entries n) = set (registered rs)"
    using registerAll_entries [OF assms(1) rootOK_empty assms(2)]
    by (auto simp: emptyNode_def emptyData_def ownEntry_def dest: mset_eq_setD)
  have same: "q = p" if "(q, h, f, p) \<in> set (registered rs)" for q h f p
    using that by (auto simp: registered_def entryOf_def)
  have A: "answers rc (registered rs) path (lookupView (getValue n path (Some pb) False))"
    using search_root [OF r(1) assms(3,4)] answers_cong [OF r(2)] by (simp add: getValue_search [OF assms(5,6)])
  show ?thesis
  proof (cases "lookupView (getValue n path (Some pb) False)")
    case (Inr r)
    show ?thesis
    proof (cases r)
      case (Hit h f p ps)
      obtain q where q: "(q, h, f, p) \<in> set (registered rs)" "matchPat rc q path = Some ps"
        "\<forall>q' \<in> matching rc (registered rs) path. q' = q \<or> preferred q q'"
        using A Inr Hit by (auto simp: answers_def)
      have "q = p" using same [OF q(1)] .
      then show ?thesis using q Inr Hit by (simp add: matching_def)
    next
      case (Miss t)
      then show ?thesis using A Inr by (auto simp: answers_def matching_def)
    qed
  qed (use A in \<open>simp add: answers_def\<close>)
qed

lemma registered_noWild:
  assumes "registerAll rc emptyNode rs = Inr n" "registrable rs" "nmaxParams (ndata n) = 0"
  shows "noWild n"
proof -
  have "fold max (map countPatternParams (map fst (registered rs))) 0 = 0"
    using registerAll_max [OF assms(1)] assms(3) by (simp add: emptyNode_def emptyData_def)
  then have "\<forall>x \<in> set (map countPatternParams (map fst (registered rs))). x = 0"
    using fold_max_elem by (metis le_zero_eq)
  then have "\<forall>q \<in> fst ` set (registered rs). countPatternParams q = 0" by simp
  then have "\<forall>q \<in> fst ` set (registered rs). literalPat q" by (simp add: countPatternParams_zero)
  then show ?thesis
    by (rule registerAll_noWild [OF assms(1) _ noWild_emptyNode rootOK_empty assms(2)])
qed

section \<open>A concrete library and routing table\<close>

text \<open>An instance of the expression compiler that knows one expression, and a routing table.\<close>

definition lettersOnly :: regexLib where
  "lettersOnly e =
     (if e = ''^(?:[a-z]+)$''
      then Some (\<lambda>s. s \<noteq> [] \<and> (\<forall>c \<in> set s. 97 \<le> byteOf c \<and> byteOf c \<le> 122)) else None)"

definition blogRoutes :: "(string \<times> nat option \<times> nat option) list" where
  "blogRoutes =
     [(''/users/:id'', Some 1, None), (''/users/new'', Some 2, None), (''/files/*path'', None, Some 3),
      (''/tag/{name:[a-z]+}'', Some 4, None), (''/posts{/:page}'', Some 5, None)]"

definition blogTree :: "(nat, nat) node" where
  "blogTree = (case registerAll lettersOnly emptyNode blogRoutes of Inl e \<Rightarrow> emptyNode | Inr n \<Rightarrow> n)"

lemma blogTree_registered: "registerAll lettersOnly emptyNode blogRoutes = Inr blogTree"
proof -
  have "\<not> isl (registerAll lettersOnly emptyNode blogRoutes)" by code_simp
  then show ?thesis
    by (cases "registerAll lettersOnly emptyNode blogRoutes") (simp_all add: blogTree_def)
qed

lemma blogRoutes_registrable: "registrable blogRoutes"
  by code_simp

section \<open>Properties of the routing tree\<close>

text \<open>
  C1. The router is its routing table. After a successful list of registrations of \<open>registrable\<close>
  patterns into a new tree (each with a handler, and every expansion \<open>routable\<close>: a regex token
  only ends its pattern, so no two patterns share one and go on), a case-sensitive lookup of a
  path that starts with a slash, with a fresh parameter buffer, never panics; when it finds
  something, it is a registered pattern that matches the path, with its own handler and
  exactly the parameters that pattern captures, and no other matching pattern is preferred to
  it (at their first difference the found one has a literal byte); when it finds nothing, no
  registered pattern matches. The last section shows what fails without these hypotheses.
\<close>

theorem router_correct:
  assumes "registerAll rc emptyNode rs = Inr n" "registrable rs"
    and "path \<noteq> []" "hd path = CHR ''/''" "bufOK pb" "pcount pb = 0"
  shows "case lookupView (getValue n path (Some pb) False) of
      Inl e \<Rightarrow> False
    | Inr (Miss t) \<Rightarrow> \<forall>q \<in> fst ` set (registered rs). matchPat rc q path = None
    | Inr (Hit h f p ps) \<Rightarrow>
        (p, h, f, p) \<in> set (registered rs) \<and> matchPat rc p path = Some ps
        \<and> (\<forall>q \<in> fst ` set (registered rs). matchPat rc q path \<noteq> None \<longrightarrow> q = p \<or> preferred p q)"
  by (rule registered_answers [OF assms])

lemma router_correct_witness:
  "case lookupView (getValue blogTree ''/users/42'' (Some emptyBuf) False) of
      Inl e \<Rightarrow> False
    | Inr (Miss t) \<Rightarrow> \<forall>q \<in> fst ` set (registered blogRoutes). matchPat lettersOnly q ''/users/42'' = None
    | Inr (Hit h f p ps) \<Rightarrow>
        (p, h, f, p) \<in> set (registered blogRoutes) \<and> matchPat lettersOnly p ''/users/42'' = Some ps
        \<and> (\<forall>q \<in> fst ` set (registered blogRoutes).
             matchPat lettersOnly q ''/users/42'' \<noteq> None \<longrightarrow> q = p \<or> preferred p q)"
  by (rule router_correct [OF blogTree_registered blogRoutes_registrable])
    (simp_all add: emptyBuf_def bufOK_def)

text \<open>
  C2. Both walks are the same search. On every tree, case-sensitive or not, the optimistic walk
  with its fallback and the backtracking walk with its explicit frames, started with a fresh
  parameter buffer, return what the recursive search returns: the same panic, the same handler,
  pattern and captured parameters, or the same trailing-slash hint.
\<close>

theorem lookup_refines_search:
  assumes "bufOK pb" "pcount pb = 0"
  shows "lookupView (getValue n path (Some pb) ci) = search ci False n path
    \<and> lookupView (getValueBacktrack n path (Some pb) ci) = search ci False n path"
  using getValue_search [OF assms] getValueBacktrack_search [OF assms] by blast

lemma lookup_refines_search_witness:
  "lookupView (getValue blogTree ''/users/new'' (Some emptyBuf) True) = search True False blogTree ''/users/new''
    \<and> lookupView (getValueBacktrack blogTree ''/users/new'' (Some emptyBuf) True)
        = search True False blogTree ''/users/new''"
  by (rule lookup_refines_search) (simp_all add: emptyBuf_def bufOK_def)

text \<open>
  C3. A registration adds exactly its patterns. Where registering a pattern with a handler in a
  well-formed tree succeeds, and every expansion of its optional segments is \<open>routable\<close> (a regex
  token only ends it), it gives a well-formed tree whose patterns are the old ones and the new
  ones, each once with its handler, whatever nodes were split, shared or reordered on the way.
  For a regex token inside a pattern it can lose a route (\<open>regex_sibling_suffix_lost\<close>).
\<close>

theorem registration_adds_its_patterns:
  assumes "addRouteInternal rc n path h f = Inr n'" "rootOK rc n"
    and "\<forall>q \<in> set (expansions path). routable q" "h \<noteq> None \<or> f \<noteq> None"
  shows "rootOK rc n'
    \<and> mset (entries n') = mset (map (\<lambda>q. entryOf q h f q) (expansions path)) + mset (entries n)"
  using addRouteInternal_entries [OF assms] by blast

lemma registration_adds_its_patterns_witness:
  "\<exists>n'. addRouteInternal lettersOnly blogTree ''/users/:id/files{/:name}'' (Some 6) None = Inr n'
     \<and> rootOK lettersOnly n'
     \<and> mset (entries n') = mset (map (\<lambda>q. entryOf q (Some 6) None q) (expansions ''/users/:id/files{/:name}''))
         + mset (entries blogTree)"
proof -
  have "\<not> isl (addRouteInternal lettersOnly blogTree ''/users/:id/files{/:name}'' (Some 6) None)" by code_simp
  then obtain n' where n': "addRouteInternal lettersOnly blogTree ''/users/:id/files{/:name}'' (Some 6) None = Inr n'"
    by (cases "addRouteInternal lettersOnly blogTree ''/users/:id/files{/:name}'' (Some 6) (None :: nat option)") simp_all
  have ok: "rootOK lettersOnly blogTree"
    using registerAll_entries [OF blogTree_registered rootOK_empty blogRoutes_registrable]
    by (simp add: emptyNode_def emptyData_def ownEntry_def)
  have "\<forall>q \<in> set (expansions ''/users/:id/files{/:name}''). routable q" by code_simp
  from registration_adds_its_patterns [OF n' ok this] show ?thesis using n' by blast
qed

text \<open>
  C4. No routable pattern is registered twice. In a well-formed tree, when all the concrete
  patterns that a registration with a handler stands for are \<open>routable\<close> (a regex token only ends
  them) and one of them is already in the tree, the registration panics. For a regex token
  inside a pattern it need not (\<open>regex_duplicate_accepted\<close>).
\<close>

theorem duplicate_registration_panics:
  assumes "rootOK rc n" "\<forall>q \<in> set (expansions path). routable q" "h \<noteq> None \<or> f \<noteq> None"
    and "q \<in> set (expansions path)" "q \<in> fst ` set (entries n)"
  shows "\<exists>e. addRouteInternal rc n path h f = Inl e"
proof (cases "addRouteInternal rc n path h f")
  case (Inr n')
  then have "set (expansions path) \<inter> fst ` set (entries n) = {}"
    using addRouteInternal_entries [OF _ assms(1-3)] by blast
  then show ?thesis using assms(4,5) by blast
qed simp

lemma duplicate_registration_panics_witness:
  "\<exists>e. addRouteInternal lettersOnly blogTree ''/posts{/:year}'' (Some 9) None = Inl e"
proof (rule duplicate_registration_panics [where q = "''/posts''"])
  show "rootOK lettersOnly blogTree"
    using registerAll_entries [OF blogTree_registered rootOK_empty blogRoutes_registrable]
    by (simp add: emptyNode_def emptyData_def ownEntry_def)
  show "\<forall>q \<in> set (expansions ''/posts{/:year}''). routable q" "''/posts'' \<in> set (expansions ''/posts{/:year}'')"
    "''/posts'' \<in> fst ` set (entries blogTree)"
    by code_simp+
qed simp

text \<open>
  Literal routes always register. A list of distinct literal patterns (valid UTF-8, starting
  with a slash) is accepted whole, in any order and whatever prefixes they share, and gives a
  tree without wildcard nodes.
\<close>

theorem literal_routes_register:
  assumes "literalRoutes rs" "distinct (map fst rs)"
  shows "\<exists>n. registerAll rc emptyNode rs = Inr n \<and> noWild n"
  by (rule registerAll_literal [OF assms])
    (simp_all add: emptyNode_def emptyData_def ownEntry_def rootOK_def freshNode_def staticNode_def hasLeaf_def)

definition shopRoutes :: "(string \<times> nat option \<times> nat option) list" where
  "shopRoutes =
     [(''/cart'', Some 1, None), (''/car'', Some 2, None), (''/card/new'', None, Some 3), (''/'', Some 4, None)]"

lemma literal_routes_register_witness:
  "\<exists>n. registerAll lettersOnly emptyNode shopRoutes = Inr n \<and> noWild n"
proof (rule literal_routes_register)
  show "literalRoutes shopRoutes" by code_simp
  show "distinct (map fst shopRoutes)" by code_simp
qed

text \<open>
  C5. The dispatcher's choice of walk is safe. When the root's parameter count is zero after a
  list of registrations of \<open>registrable\<close> patterns into a new tree, the walk without parameter handling returns exactly what the general
  lookup returns, case-sensitive or not, and the parameter buffer is left as it was.
\<close>

theorem static_walk_is_lookup:
  assumes "registerAll rc emptyNode rs = Inr n" "registrable rs" "nmaxParams (ndata n) = 0"
  shows "getValue n path ps ci = map_sum id (\<lambda>r. (r, ps)) (getValueStatic n path ci)"
  by (rule getValue_static) (rule registered_noWild [OF assms])

definition shopTree :: "(nat, nat) node" where
  "shopTree = (case registerAll lettersOnly emptyNode shopRoutes of Inl e \<Rightarrow> emptyNode | Inr n \<Rightarrow> n)"

lemma shopTree_registered: "registerAll lettersOnly emptyNode shopRoutes = Inr shopTree"
proof -
  have "\<not> isl (registerAll lettersOnly emptyNode shopRoutes)" by code_simp
  then show ?thesis
    by (cases "registerAll lettersOnly emptyNode shopRoutes") (simp_all add: shopTree_def)
qed

lemma static_walk_is_lookup_witness:
  "getValue shopTree ''/CARD/new'' (Some emptyBuf) True
     = map_sum id (\<lambda>r. (r, Some emptyBuf)) (getValueStatic shopTree ''/CARD/new'' True)"
proof (rule static_walk_is_lookup [OF shopTree_registered])
  show "registrable shopRoutes" by code_simp
  show "nmaxParams (ndata shopTree) = 0" by code_simp
qed

text \<open>
  The root's parameter count. After a list of registrations it is the largest number of
  wildcard tokens of any registered pattern, saturated at 255, for every kind of pattern.
\<close>

theorem root_parameter_count:
  assumes "registerAll rc emptyNode rs = Inr n"
  shows "unat (nmaxParams (ndata n))
     = min 255 (fold max (map countPatternParams (map fst (registered rs))) 0)"
  using registerAll_max [OF assms] by (simp add: emptyNode_def emptyData_def)

lemma root_parameter_count_witness:
  "unat (nmaxParams (ndata blogTree))
     = min 255 (fold max (map countPatternParams (map fst (registered blogRoutes))) 0)"
  by (rule root_parameter_count [OF blogTree_registered])

definition bufAddAll :: "(string \<times> string) list \<Rightarrow> paramsBuf \<Rightarrow> paramsBuf" where
  "bufAddAll kvs pb = fold (\<lambda>(k, v) b. bufAdd b k v) kvs pb"

lemma bufAddAll_view:
  "bufOK pb \<Longrightarrow> bufOK (bufAddAll kvs pb)
     \<and> bufParams (bufAddAll kvs pb) = bufParams pb @ map (\<lambda>(k, v). mkParam k v) kvs"
  by (induction kvs arbitrary: pb) (auto simp: bufAddAll_def)

text \<open>
  The parameter buffer is a list with truncation. After any additions, rewinding to an
  earlier count (with the overflow length recorded at that count) and adding others, the
  parameters are the first ones followed by the others, in order, across the boundary between
  the inline array and the overflow slice.
\<close>

theorem buffer_is_a_list:
  assumes "k \<le> length kvs"
  shows "bufParams (bufAddAll added (bufRewind (bufAddAll kvs emptyBuf) k (k - maxInline)))
     = map (\<lambda>(k, v). mkParam k v) (take k kvs @ added)"
proof -
  have A: "bufOK (bufAddAll kvs emptyBuf)" "bufParams (bufAddAll kvs emptyBuf) = map (\<lambda>(k, v). mkParam k v) kvs"
    using bufAddAll_view [OF bufOK_empty, of kvs] by simp_all
  then have "pcount (bufAddAll kvs emptyBuf) = length kvs"
    using length_bufParams [OF A(1)] by simp
  then have B: "bufOK (bufRewind (bufAddAll kvs emptyBuf) k (k - maxInline))"
    "bufParams (bufRewind (bufAddAll kvs emptyBuf) k (k - maxInline)) = take k (map (\<lambda>(k, v). mkParam k v) kvs)"
    using bufRewind_view [OF A(1), of k] A(2) assms by simp_all
  show ?thesis using bufAddAll_view [OF B(1), of added] B(2) by (simp add: take_map)
qed

lemma buffer_is_a_list_witness:
  "bufParams (bufAddAll [(''x'', ''9'')]
      (bufRewind (bufAddAll [(''a'', ''1''), (''b'', ''2''), (''c'', ''3''), (''d'', ''4''), (''e'', ''5'')] emptyBuf)
        4 (4 - maxInline)))
     = map (\<lambda>(k, v). mkParam k v)
         (take 4 [(''a'', ''1''), (''b'', ''2''), (''c'', ''3''), (''d'', ''4''), (''e'', ''5'')] @ [(''x'', ''9'')])"
  by (rule buffer_is_a_list) simp

text \<open>
  Listing the routes. Walking the tree after a list of registrations reports every
  registered pattern exactly once, with its handler, and nothing else.
\<close>

theorem walk_lists_the_routes:
  assumes "registerAll rc emptyNode rs = Inr n" "registrable rs"
  shows "mset (walkLeaves n) = mset (map (\<lambda>(q, h, f, p). (p, h, f)) (registered rs))"
  by (rule registerAll_walk [OF assms])

lemma walk_lists_the_routes_witness:
  "mset (walkLeaves blogTree) = mset (map (\<lambda>(q, h, f, p). (p, h, f)) (registered blogRoutes))"
  by (rule walk_lists_the_routes [OF blogTree_registered blogRoutes_registrable])

section \<open>What the invariant excludes\<close>

text \<open>
  Two routes that share a regular-expression segment and differ after it: the insertion of the
  second does not descend into the segment's node, and its new child takes the place of the
  existing one. The first route is lost without a panic.
\<close>

theorem regex_sibling_suffix_lost:
  "map_sum id walkLeaves (registerAll lettersOnly emptyNode
     [(''/a/{id:[a-z]+}/x'', Some (1 :: nat), None :: nat option), (''/a/{id:[a-z]+}/y'', Some 2, None)])
   = Inr [(''/a/{id:[a-z]+}/y'', Some 2, None)]"
  by code_simp

text \<open>For the same reason the same pattern is accepted a second time, and the second handler wins.\<close>

theorem regex_duplicate_accepted:
  "map_sum id walkLeaves (registerAll lettersOnly emptyNode
     [(''/a/{id:[a-z]+}/x'', Some (1 :: nat), None :: nat option), (''/a/{id:[a-z]+}/x'', Some 2, None)])
   = Inr [(''/a/{id:[a-z]+}/x'', Some 2, None)]"
  by code_simp

text \<open>The same defect can leave a catch-all under a wildcard flag, and a request then panics.\<close>

theorem regex_sibling_suffix_panics:
  "(case registerAll lettersOnly emptyNode
     [(''/a/{id:[a-z]+}/x:b'', Some (1 :: nat), None :: nat option), (''/a/{id:[a-z]+}/foo/*rest'', Some 2, None)] of
      Inl e \<Rightarrow> Inl e
    | Inr n \<Rightarrow> lookupView (getValue n ''/a/q/foox'' (Some emptyBuf) False))
   = Inl InvalidNodeType"
  by code_simp

text \<open>
  Case-insensitive lookup takes the first index whose folded byte agrees and does not come
  back: with "/Abc" and "/abd" registered, "/abd" itself is not found.
\<close>

theorem case_insensitive_sibling_shadowed:
  "(case registerAll lettersOnly emptyNode
     [(''/Abc'', Some (1 :: nat), None :: nat option), (''/abd'', Some 2, None)] of
      Inl e \<Rightarrow> Inl e
    | Inr n \<Rightarrow> lookupView (getValue n ''/abd'' (Some emptyBuf) True))
   = Inr (Miss False)"
  by code_simp

end
