(* ===== verification/HTTP.thy ===== *)
theory HTTP
  imports TreeLookup
begin

text \<open>
  What the router uses of the Go standard library: URLs, requests with their context chain,
  the response writer, \<open>path.Clean\<close>, \<open>url.PathUnescape\<close>, \<open>html.EscapeString\<close> and
  \<open>http.Error\<close>. Serving is a function from the request and the writer to the writer it leaves
  and the panic it raises, if any; 'w is the state outside the response that handlers may read
  and change.
\<close>

section \<open>Requests\<close>

record url =
  uPath :: string
  uRawPath :: string
  uRawQuery :: string

type_synonym headers = "string \<Rightarrow> string list option"

text \<open>
  Times are nanoseconds since the epoch; a zero \<open>time.Time\<close> is None. The claims of a JSON web
  token and the response of a token introspection, which the authentication middleware put into
  the context.
\<close>

record jwtClaims =
  clSubject :: string
  clIssuer :: string
  clAudience :: "string list"
  clExpiresAt :: "int option"
  clIssuedAt :: "int option"
  clNotBefore :: "int option"
  clRawPayload :: string

record introspectResponse =
  irActive :: bool
  irSubject :: string
  irScope :: string
  irClientID :: string
  irUsername :: string
  irTokenType :: string
  irExpiresAt :: "int option"
  irIssuedAt :: "int option"
  irNotBefore :: "int option"
  irIssuer :: string
  irAudience :: "string list"

text \<open>
  Context keys: the private key types of the middleware package, and any key of other code by a
  name.
\<close>

datatype ctxKey = UserKey string | APIKeyKey | RequestIDKey | JWTKey | OAuth2Key

datatype ctxValue = TextVal string | ClaimsVal jwtClaims | TokenVal introspectResponse

text \<open>
  The context chain. The layers of the package are the three tiers of request contexts, the
  Mount prefix and the redirect target; a middleware or other code puts a layer with one key and
  value, or one with a deadline.
\<close>

datatype ctx =
    Background
  | RequestCtx1 ctx string Param
  | RequestCtx2 ctx string Param Param
  | RequestCtx ctx Params string
  | MountPrefixCtx ctx string
  | RedirectCtx ctx string nat
  | ValueCtx ctx ctxKey ctxValue
  | TimerCtx ctx int

record request =
  rMethod :: string
  rURL :: url
  rHeader :: headers
  rCtx :: "ctx option"
  rRemoteAddr :: string
  rHost :: string

text \<open>\<open>r.Context()\<close> and \<open>getReqCtxUnsafe\<close>: a nil context reads as the background.\<close>

definition requestContext :: "request \<Rightarrow> ctx" where
  "requestContext r = (case rCtx r of None \<Rightarrow> Background | Some c \<Rightarrow> c)"

definition getReqCtxUnsafe :: "request \<Rightarrow> ctx" where
  "getReqCtxUnsafe r = (case rCtx r of Some c \<Rightarrow> c | None \<Rightarrow> Background)"

definition setReqCtxUnsafe :: "request \<Rightarrow> ctx \<Rightarrow> request" where
  "setReqCtxUnsafe r c = r\<lparr>rCtx := Some c\<rparr>"

definition withContext :: "request \<Rightarrow> ctx \<Rightarrow> request" where
  "withContext r c = r\<lparr>rCtx := Some c\<rparr>"

section \<open>Responses\<close>

text \<open>
  The first \<open>WriteHeader\<close> sends the status with the headers as they are; later ones are
  ignored, and so are later header changes, for the client.
\<close>

record 'w rw =
  wHeader :: headers
  wSent :: "(nat \<times> headers) option"
  wBody :: string
  wWorld :: 'w

definition setHeader :: "string \<Rightarrow> string list \<Rightarrow> 'w rw \<Rightarrow> 'w rw" where
  "setHeader k v w = w\<lparr>wHeader := (wHeader w)(k \<mapsto> v)\<rparr>"

definition delHeader :: "string \<Rightarrow> 'w rw \<Rightarrow> 'w rw" where
  "delHeader k w = w\<lparr>wHeader := (wHeader w)(k := None)\<rparr>"

definition writeHeader :: "nat \<Rightarrow> 'w rw \<Rightarrow> 'w rw" where
  "writeHeader code w =
     (case wSent w of None \<Rightarrow> w\<lparr>wSent := Some (code, wHeader w)\<rparr> | Some _ \<Rightarrow> w)"

definition writeBody :: "string \<Rightarrow> 'w rw \<Rightarrow> 'w rw" where
  "writeBody s w = (let w1 = writeHeader 200 w in w1\<lparr>wBody := wBody w1 @ s\<rparr>)"

type_synonym 'w served = "'w rw \<times> goPanic option"
type_synonym 'w serve = "request \<Rightarrow> 'w rw \<Rightarrow> 'w served"

definition ok :: "'w rw \<Rightarrow> 'w served" where
  "ok w = (w, None)"

section \<open>Strings\<close>

definition newline :: string where
  "newline = [char_of (10 :: nat)]"

fun splitAtSlash :: "string \<Rightarrow> string list" where
  "splitAtSlash [] = [[]]"
| "splitAtSlash (c # s) =
     (if c = CHR ''/'' then [] # splitAtSlash s
      else case splitAtSlash s of [] \<Rightarrow> [[c]] | seg # segs \<Rightarrow> (c # seg) # segs)"

fun joinSlash :: "string list \<Rightarrow> string" where
  "joinSlash [] = []"
| "joinSlash [s] = s"
| "joinSlash (s # ss) = s @ ''/'' @ joinSlash ss"

text \<open>
  \<open>path.Clean\<close>: elements are kept on a stack (top first); "." and empty ones are dropped and
  ".." removes the element before it, or is dropped at the root of a rooted path.
\<close>

fun cleanElems :: "bool \<Rightarrow> string list \<Rightarrow> string list \<Rightarrow> string list" where
  "cleanElems rooted stack [] = rev stack"
| "cleanElems rooted stack (e # es) =
     (if e = [] \<or> e = ''.'' then cleanElems rooted stack es
      else if e = ''..'' then
        (if stack \<noteq> [] \<and> hd stack \<noteq> ''..'' then cleanElems rooted (tl stack) es
         else if rooted then cleanElems rooted stack es
         else cleanElems rooted (e # stack) es)
      else cleanElems rooted (e # stack) es)"

definition pathClean :: "string \<Rightarrow> string" where
  "pathClean p =
     (if p = [] then ''.''
      else let rooted = (hd p = CHR ''/'');
               out = (if rooted then ''/'' else []) @ joinSlash (cleanElems rooted [] (splitAtSlash p))
           in if out = [] then ''.'' else out)"

definition unhex :: "char \<Rightarrow> nat option" where
  "unhex c =
     (let b = byteOf c in
      if 48 \<le> b \<and> b \<le> 57 then Some (b - 48)
      else if 97 \<le> b \<and> b \<le> 102 then Some (b - 87)
      else if 65 \<le> b \<and> b \<le> 70 then Some (b - 55)
      else None)"

text \<open>\<open>url.PathUnescape\<close>; None is its error.\<close>

fun pathUnescape :: "string \<Rightarrow> string option" where
  "pathUnescape [] = Some []"
| "pathUnescape (c # s) =
     (if c = CHR ''%'' then
        (case s of
           a # b # rest \<Rightarrow>
             (case (unhex a, unhex b) of
                (Some x, Some y) \<Rightarrow> map_option (\<lambda>t. char_of (16 * x + y) # t) (pathUnescape rest)
              | _ \<Rightarrow> None)
         | _ \<Rightarrow> None)
      else map_option (\<lambda>t. c # t) (pathUnescape s))"

definition escapeByte :: "char \<Rightarrow> string" where
  "escapeByte c =
     (if c = CHR ''&'' then ''&amp;''
      else if c = char_of (39 :: nat) then ''&#39;''
      else if c = CHR ''<'' then ''&lt;''
      else if c = CHR ''>'' then ''&gt;''
      else if c = char_of (34 :: nat) then ''&#34;''
      else [c])"

definition htmlEscape :: "string \<Rightarrow> string" where
  "htmlEscape s = concat (map escapeByte s)"

text \<open>\<open>http.StatusText\<close> for the codes the package writes; any other code has its own text.\<close>

definition statusText :: "nat \<Rightarrow> string" where
  "statusText code =
     (if code = 200 then ''OK'' else if code = 204 then ''No Content''
      else if code = 300 then ''Multiple Choices''
      else if code = 301 then ''Moved Permanently'' else if code = 302 then ''Found''
      else if code = 303 then ''See Other'' else if code = 304 then ''Not Modified''
      else if code = 305 then ''Use Proxy''
      else if code = 307 then ''Temporary Redirect'' else if code = 308 then ''Permanent Redirect''
      else if code = 400 then ''Bad Request'' else if code = 401 then ''Unauthorized''
      else if code = 403 then ''Forbidden'' else if code = 503 then ''Service Unavailable''
      else if code = 404 then ''Not Found'' else if code = 405 then ''Method Not Allowed''
      else if code = 500 then ''Internal Server Error'' else [])"

text \<open>\<open>http.Error\<close> and \<open>http.NotFound\<close>.\<close>

definition httpError :: "string \<Rightarrow> nat \<Rightarrow> 'w rw \<Rightarrow> 'w rw" where
  "httpError msg code w =
     writeBody (msg @ newline)
       (writeHeader code
         (setHeader ''X-Content-Type-Options'' [''nosniff'']
           (setHeader ''Content-Type'' [''text/plain; charset=utf-8''] (delHeader ''Content-Length'' w))))"

definition httpNotFound :: "'w serve" where
  "httpNotFound r w = ok (httpError ''404 page not found'' 404 w)"

end
