(* ===== verification/Params.thy ===== *)
theory Params
  imports HTTP
begin

text \<open>
  params.go: the accessors of \<open>Params\<close> with the number parsers of package \<open>strconv\<close> they
  call, the request contexts that carry the parameters, the accessors that read them back from
  a context chain, and the pools of parameter slices and request bundles.
\<close>

section \<open>Accessors\<close>

fun paramsGet :: "Params \<Rightarrow> string \<Rightarrow> string" where
  "paramsGet [] name = []"
| "paramsGet (p # ps) name = (if Key p = name then Value p else paramsGet ps name)"

fun paramsLookup :: "Params \<Rightarrow> string \<Rightarrow> string \<times> bool" where
  "paramsLookup [] name = ([], False)"
| "paramsLookup (p # ps) name = (if Key p = name then (Value p, True) else paramsLookup ps name)"

text \<open>Later entries with the same key overwrite earlier ones in the map.\<close>

definition paramsMap :: "Params \<Rightarrow> string \<Rightarrow> string option" where
  "paramsMap ps = fold (\<lambda>p m. m(Key p \<mapsto> Value p)) ps Map.empty"

section \<open>Parsing numbers\<close>

datatype parseError = ParamNotFound | SyntaxError | RangeError

definition digitOf :: "char \<Rightarrow> nat option" where
  "digitOf c = (if 48 \<le> byteOf c \<and> byteOf c \<le> 57 then Some (byteOf c - 48) else None)"

definition maxUint64 :: nat where
  "maxUint64 = 2 ^ 64 - 1"

text \<open>
  \<open>strconv.ParseUint(s, 10, 64)\<close>: digits are consumed from the left and the first failure,
  a byte that is no digit or a value out of range, ends the loop.
\<close>

fun parseDigits :: "string \<Rightarrow> nat \<Rightarrow> nat \<times> parseError option" where
  "parseDigits [] n = (n, None)"
| "parseDigits (c # s) n =
     (case digitOf c of
        None \<Rightarrow> (0, Some SyntaxError)
      | Some d \<Rightarrow>
          if n \<ge> maxUint64 div 10 + 1 \<or> n * 10 + d > maxUint64 then (maxUint64, Some RangeError)
          else parseDigits s (n * 10 + d))"

definition parseUint :: "string \<Rightarrow> nat \<times> parseError option" where
  "parseUint s = (if s = [] then (0, Some SyntaxError) else parseDigits s 0)"

text \<open>\<open>strconv.ParseInt(s, 10, 64)\<close>, and \<open>strconv.Atoi\<close> where \<open>int\<close> has 64 bits.\<close>

definition signedResult :: "bool \<Rightarrow> nat \<times> parseError option \<Rightarrow> int \<times> parseError option" where
  "signedResult neg r =
     (let un = fst r in
      if snd r = Some SyntaxError then (0, Some SyntaxError)
      else if \<not> neg \<and> un \<ge> 2 ^ 63 then (2 ^ 63 - 1, Some RangeError)
      else if neg \<and> un > 2 ^ 63 then (- (2 ^ 63), Some RangeError)
      else ((if neg then - int un else int un), None))"

definition parseInt :: "string \<Rightarrow> int \<times> parseError option" where
  "parseInt s =
     (case s of
        [] \<Rightarrow> (0, Some SyntaxError)
      | c # s' \<Rightarrow>
          if c = CHR ''+'' then signedResult False (parseUint s')
          else if c = CHR ''-'' then signedResult True (parseUint s')
          else signedResult False (parseUint s))"

definition parseBool :: "string \<Rightarrow> bool \<times> parseError option" where
  "parseBool s =
     (if s \<in> {''1'', ''t'', ''T'', ''TRUE'', ''true'', ''True''} then (True, None)
      else if s \<in> {''0'', ''f'', ''F'', ''FALSE'', ''false'', ''False''} then (False, None)
      else (False, Some SyntaxError))"

definition paramsInt :: "Params \<Rightarrow> string \<Rightarrow> int \<times> parseError option" where
  "paramsInt ps name =
     (let (v, found) = paramsLookup ps name in
      if \<not> found then (0, Some ParamNotFound) else parseInt v)"

definition paramsInt64 :: "Params \<Rightarrow> string \<Rightarrow> int \<times> parseError option" where
  "paramsInt64 ps name =
     (let (v, found) = paramsLookup ps name in
      if \<not> found then (0, Some ParamNotFound) else parseInt v)"

definition paramsUint64 :: "Params \<Rightarrow> string \<Rightarrow> nat \<times> parseError option" where
  "paramsUint64 ps name =
     (let (v, found) = paramsLookup ps name in
      if \<not> found then (0, Some ParamNotFound) else parseUint v)"

text \<open>\<open>strconv.ParseFloat\<close> is a parameter: nothing here depends on the numbers it yields.\<close>

definition paramsFloat64 ::
  "(string \<Rightarrow> 'r \<times> parseError option) \<Rightarrow> 'r \<Rightarrow> Params \<Rightarrow> string \<Rightarrow> 'r \<times> parseError option"
where
  "paramsFloat64 parseFloat zero ps name =
     (let (v, found) = paramsLookup ps name in
      if \<not> found then (zero, Some ParamNotFound) else parseFloat v)"

definition paramsBool :: "Params \<Rightarrow> string \<Rightarrow> bool \<times> parseError option" where
  "paramsBool ps name =
     (let (v, found) = paramsLookup ps name in
      if \<not> found then (False, Some ParamNotFound) else parseBool v)"

section \<open>The parsers on decimal numerals\<close>

definition digitChar :: "nat \<Rightarrow> char" where
  "digitChar d = char_of (48 + d)"

fun decimal :: "nat \<Rightarrow> string" where
  "decimal n = (if n < 10 then [digitChar n] else decimal (n div 10) @ [digitChar (n mod 10)])"

declare decimal.simps [simp del]

definition decimalInt :: "int \<Rightarrow> string" where
  "decimalInt i = (if i < 0 then CHR ''-'' # decimal (nat (- i)) else decimal (nat i))"

lemma digitOf_digitChar [simp]: "d < 10 \<Longrightarrow> digitOf (digitChar d) = Some d"
  by (simp add: digitOf_def digitChar_def byteOf_def)

lemma outOfRange_iff: "(n \<ge> maxUint64 div 10 + 1 \<or> n * 10 + d > maxUint64) = (n * 10 + d > maxUint64)"
  by (auto simp: maxUint64_def)

lemma parseDigits_Cons:
  "parseDigits (c # s) n =
     (case digitOf c of
        None \<Rightarrow> (0, Some SyntaxError)
      | Some d \<Rightarrow>
          if n * 10 + d > maxUint64 then (maxUint64, Some RangeError) else parseDigits s (n * 10 + d))"
  by (simp only: parseDigits.simps(2) outOfRange_iff)

declare parseDigits.simps(2) [simp del]

lemma parseDigits_append:
  "snd (parseDigits a n) = None \<Longrightarrow> parseDigits (a @ b) n = parseDigits b (fst (parseDigits a n))"
  by (induction a arbitrary: n) (auto simp: parseDigits_Cons split: option.splits if_splits)

lemma parseDigits_append_error:
  "snd (parseDigits a n) = Some e \<Longrightarrow> parseDigits (a @ b) n = parseDigits a n"
  by (induction a arbitrary: n) (auto simp: parseDigits_Cons split: option.splits if_splits)

lemma parseDigits_decimal:
  "parseDigits (decimal n) 0 = (if n \<le> maxUint64 then (n, None) else (maxUint64, Some RangeError))"
proof (induction n rule: decimal.induct)
  case (1 n)
  show ?case
  proof (cases "n < 10")
    case True
    then show ?thesis by (subst decimal.simps) (simp add: parseDigits_Cons maxUint64_def)
  next
    case False
    have split: "decimal n = decimal (n div 10) @ [digitChar (n mod 10)]"
      using False by (subst decimal.simps) simp
    have IH: "parseDigits (decimal (n div 10)) 0
        = (if n div 10 \<le> maxUint64 then (n div 10, None) else (maxUint64, Some RangeError))"
      using 1 False by simp
    show ?thesis
    proof (cases "n div 10 \<le> maxUint64")
      case True
      then show ?thesis
        using IH by (simp add: split parseDigits_append parseDigits_Cons)
    next
      case out: False
      then have "\<not> n \<le> maxUint64"
        by (meson div_le_dividend le_trans)
      then show ?thesis using IH out by (simp add: split parseDigits_append_error)
    qed
  qed
qed

lemma decimal_Cons: "\<exists>c s. decimal n = c # s \<and> c \<noteq> CHR ''+'' \<and> c \<noteq> CHR ''-''"
proof (induction n rule: decimal.induct)
  case (1 n)
  show ?case
  proof (cases "n < 10")
    case True
    then have "byteOf (digitChar n) = 48 + n" by (simp add: digitChar_def byteOf_def)
    then have "digitChar n \<noteq> CHR ''+''" "digitChar n \<noteq> CHR ''-''" by (auto simp: byteOf_def)
    then show ?thesis using True by (subst decimal.simps) simp
  next
    case False
    then obtain c s where "decimal (n div 10) = c # s" "c \<noteq> CHR ''+''" "c \<noteq> CHR ''-''"
      using 1 by blast
    then show ?thesis using False by (subst decimal.simps) simp
  qed
qed

lemma parseUint_decimal:
  "parseUint (decimal n) = (if n \<le> maxUint64 then (n, None) else (maxUint64, Some RangeError))"
  using decimal_Cons [of n] parseDigits_decimal [of n] by (auto simp: parseUint_def)

lemma parseInt_decimalInt:
  "parseInt (decimalInt i) =
     (if i < - (2 ^ 63) then (- (2 ^ 63), Some RangeError)
      else if i > 2 ^ 63 - 1 then (2 ^ 63 - 1, Some RangeError)
      else (i, None))"
proof (cases "i < 0")
  case True
  then show ?thesis
    by (auto simp: decimalInt_def parseInt_def parseUint_decimal signedResult_def maxUint64_def Let_def)
next
  case False
  obtain c s where cs: "decimal (nat i) = c # s" "c \<noteq> CHR ''+''" "c \<noteq> CHR ''-''"
    using decimal_Cons by blast
  then have "parseInt (decimalInt i) = signedResult False (parseUint (decimal (nat i)))"
    using False by (simp add: decimalInt_def parseInt_def)
  then show ?thesis
    using False by (auto simp: parseUint_decimal signedResult_def maxUint64_def Let_def)
qed

lemma paramsLookup_get: "fst (paramsLookup ps name) = paramsGet ps name"
  by (induction ps) auto

lemma paramsLookup_found: "snd (paramsLookup ps name) = (name \<in> Key ` set ps)"
  by (induction ps) auto

section \<open>Reading parameters back from a context\<close>

text \<open>\<open>ctx.Value(contextKey{})\<close>: the nearest request-context layer of the chain.\<close>

fun routeLayer :: "ctx \<Rightarrow> ctx option" where
  "routeLayer Background = None"
| "routeLayer (RequestCtx1 c pat p) = Some (RequestCtx1 c pat p)"
| "routeLayer (RequestCtx2 c pat p q) = Some (RequestCtx2 c pat p q)"
| "routeLayer (RequestCtx c ps pat) = Some (RequestCtx c ps pat)"
| "routeLayer (MountPrefixCtx c pre) = routeLayer c"
| "routeLayer (RedirectCtx c t k) = routeLayer c"
| "routeLayer (ValueCtx c k v) = routeLayer c"
| "routeLayer (TimerCtx c d) = routeLayer c"

definition routeCtxParams :: "ctx \<Rightarrow> Params" where
  "routeCtxParams c =
     (case c of
        RequestCtx1 _ _ p \<Rightarrow> [p]
      | RequestCtx _ ps _ \<Rightarrow> ps
      | RequestCtx2 _ _ p q \<Rightarrow> [p, q]
      | _ \<Rightarrow>
          (case routeLayer c of
             Some (RequestCtx1 _ _ p) \<Rightarrow> [p]
           | Some (RequestCtx _ ps _) \<Rightarrow> ps
           | Some (RequestCtx2 _ _ p q) \<Rightarrow> [p, q]
           | _ \<Rightarrow> []))"

definition routeCtxPattern :: "ctx \<Rightarrow> string" where
  "routeCtxPattern c =
     (case c of
        RequestCtx1 _ pat _ \<Rightarrow> pat
      | RequestCtx _ _ pat \<Rightarrow> pat
      | RequestCtx2 _ pat _ _ \<Rightarrow> pat
      | _ \<Rightarrow>
          (case routeLayer c of
             Some (RequestCtx1 _ pat _) \<Rightarrow> pat
           | Some (RequestCtx _ _ pat) \<Rightarrow> pat
           | Some (RequestCtx2 _ pat _ _) \<Rightarrow> pat
           | _ \<Rightarrow> []))"

definition pathParam :: "request \<Rightarrow> string \<Rightarrow> string" where
  "pathParam r name = paramsGet (routeCtxParams (requestContext r)) name"

definition paramsFromContext :: "ctx \<Rightarrow> Params" where
  "paramsFromContext c = routeCtxParams c"

definition routePattern :: "request \<Rightarrow> string" where
  "routePattern r = routeCtxPattern (requestContext r)"

end
