(* ===== verification/Mount.thy ===== *)
theory Mount
  imports Params
begin

text \<open>
  Mount of mux.go: which prefixes are refused, what of the request path and of the raw path a
  mounted handler receives, and the chain of mount prefixes carried in the context.
\<close>

definition endsWithOptionalParam :: "string \<Rightarrow> bool" where
  "endsWithOptionalParam prefix =
     (let trimmed = trimRight prefix (CHR ''/'') in
      case strLastIndex trimmed ''{/:'' of
        None \<Rightarrow> False
      | Some i \<Rightarrow>
          (case indexByte (drop i trimmed) (CHR ''}'') of
             None \<Rightarrow> False
           | Some j \<Rightarrow> int (i + j) = int (length trimmed) - 1))"

text \<open>
  One segment up to the next '/', and what follows it: the two branches of the loop body, the
  remaining string empty when there is no further '/'.
\<close>

definition cutSegment :: "string \<Rightarrow> string \<times> string" where
  "cutSegment s =
     (case indexByte s (CHR ''/'') of
        Some i \<Rightarrow> (take i s, drop i s)
      | None \<Rightarrow> (s, []))"

lemma cutSegment_span:
  "cutSegment s = (takeWhile (\<lambda>x. x \<noteq> CHR ''/'') s, dropWhile (\<lambda>x. x \<noteq> CHR ''/'') s)"
proof (induction s)
  case Nil
  then show ?case by (simp add: cutSegment_def indexByte_def)
next
  case (Cons c s)
  then show ?case
    by (auto simp: cutSegment_def indexByte_def split: option.splits)
qed

function rawPathRemainder :: "string \<Rightarrow> string \<Rightarrow> string option" where
  "rawPathRemainder mp rp =
     (if mp = [] then Some rp
      else if rp = [] \<or> hd rp \<noteq> CHR ''/'' then None
      else
        (let (mSeg, mRest) = cutSegment (tl mp);
             (rSeg, rRest) = cutSegment (tl rp)
         in case pathUnescape rSeg of
              None \<Rightarrow> None
            | Some decoded \<Rightarrow> if decoded \<noteq> mSeg then None else rawPathRemainder mRest rRest))"
  by pat_completeness auto
termination
proof (relation "measure (\<lambda>(mp, rp). length mp)")
  fix mp rp mSeg mRest rSeg rRest
  fix x y :: "string \<times> string" and decoded
  assume "mp \<noteq> []" "x = cutSegment (tl mp)" "(mSeg, mRest) = x"
  then have "length mRest \<le> length (tl mp)" by (simp add: cutSegment_span length_dropWhile_le del: length_tl)
  then show "((mRest, rRest), mp, rp) \<in> measure (\<lambda>(mp, rp). length mp)"
    using \<open>mp \<noteq> []\<close> by (cases mp) auto
qed simp

declare rawPathRemainder.simps [simp del]

section \<open>The prefix chain in the context\<close>

text \<open>\<open>ctx.Value(mountPrefixKey{})\<close>: the nearest mount layer of the chain.\<close>

fun mountLayer :: "ctx \<Rightarrow> string option" where
  "mountLayer Background = None"
| "mountLayer (RequestCtx1 c pat p) = mountLayer c"
| "mountLayer (RequestCtx2 c pat p q) = mountLayer c"
| "mountLayer (RequestCtx c ps pat) = mountLayer c"
| "mountLayer (MountPrefixCtx c pre) = Some pre"
| "mountLayer (RedirectCtx c t k) = mountLayer c"
| "mountLayer (ValueCtx c k v) = mountLayer c"
| "mountLayer (TimerCtx c d) = mountLayer c"

definition mountPrefixFrom :: "ctx \<Rightarrow> string" where
  "mountPrefixFrom c =
     (case c of
        MountPrefixCtx _ pre \<Rightarrow> pre
      | _ \<Rightarrow> (case mountLayer c of Some pre \<Rightarrow> pre | None \<Rightarrow> []))"

section \<open>The request a mounted handler receives\<close>

definition matchedPrefix :: "string \<Rightarrow> string \<Rightarrow> string" where
  "matchedPrefix rawSuffix path =
     (let n = length rawSuffix in
      if n > 0 \<and> n \<le> length path then take (length path - n) path else path)"

definition mountedRawPath :: "string \<Rightarrow> bool \<Rightarrow> string \<Rightarrow> string \<Rightarrow> string" where
  "mountedRawPath prefix hasParam mp raw =
     (if raw = [] then []
      else if hasParam then (case rawPathRemainder mp raw of Some rem \<Rightarrow> rem | None \<Rightarrow> [])
      else
        (let trimmed = trimPrefix raw prefix in
         if length trimmed = length raw then []
         else if trimmed \<noteq> [] \<and> hd trimmed \<noteq> CHR ''/'' then []
         else trimmed))"

text \<open>
  The closure of \<open>mountAt\<close> up to the call of the mounted handler. \<open>hasReqCtxField\<close>, decided
  once at initialisation by reflection, selects how the context is read and set.
\<close>

definition mountRequest :: "bool \<Rightarrow> string \<Rightarrow> bool \<Rightarrow> request \<Rightarrow> request" where
  "mountRequest hasReqCtxField prefix hasParam r =
     (let rawSuffix = pathParam r ''mux_mount'';
          p = (if rawSuffix = [] then ''/'' else rawSuffix);
          mp = matchedPrefix rawSuffix (uPath (rURL r));
          composed = mountPrefixFrom (requestContext r) @ mp;
          rawPath = mountedRawPath prefix hasParam mp (uRawPath (rURL r));
          r2 = r\<lparr>rURL := (rURL r)\<lparr>uPath := p, uRawPath := rawPath\<rparr>\<rparr>
      in if hasReqCtxField then setReqCtxUnsafe r2 (MountPrefixCtx (getReqCtxUnsafe r) composed)
         else withContext r2 (MountPrefixCtx (requestContext r) composed))"

text \<open>The checks and the normalisation of \<open>mountAt\<close>, giving the prefix and \<open>hasParam\<close>.\<close>

definition mountPrefix :: "string \<Rightarrow> goPanic + string \<times> bool" where
  "mountPrefix prefix =
     (if prefix = [] \<or> hd prefix \<noteq> CHR ''/'' then Inl MountPrefixWithoutSlash
      else if \<not> utf8Valid prefix then Inl MountInvalidUTF8
      else if endsWithOptionalParam prefix then Inl (MountOptionalLast prefix)
      else
        (let q = trimRight prefix (CHR ''/'')
         in Inr (q, CHR '':'' \<in> set q \<or> CHR ''{'' \<in> set q)))"

section \<open>The raw path that is passed on\<close>

text \<open>A path as the concatenation of its segments, each after a '/'.\<close>

definition slashed :: "string list \<Rightarrow> string" where
  "slashed ss = concat (map (\<lambda>s. CHR ''/'' # s) ss)"

definition segment :: "string \<Rightarrow> bool" where
  "segment s \<longleftrightarrow> CHR ''/'' \<notin> set s"

lemma cutSegment_slashed:
  assumes "segment s" "t = [] \<or> hd t = CHR ''/''"
  shows "cutSegment (s @ t) = (s, t)"
proof -
  have "takeWhile (\<lambda>x. x \<noteq> CHR ''/'') t = []" "dropWhile (\<lambda>x. x \<noteq> CHR ''/'') t = t"
    using assms(2) by (cases t; simp)+
  moreover have "takeWhile (\<lambda>x. x \<noteq> CHR ''/'') s = s" "dropWhile (\<lambda>x. x \<noteq> CHR ''/'') s = []"
    using assms(1) by (auto simp: segment_def)
  ultimately show ?thesis
    using assms(1) by (auto simp: cutSegment_span segment_def takeWhile_append dropWhile_append)
qed

lemma cutSegment_parts:
  "cutSegment s = (a, b) \<Longrightarrow> s = a @ b \<and> segment a \<and> (b = [] \<or> hd b = CHR ''/'')"
  using hd_dropWhile [of "\<lambda>x. x \<noteq> CHR ''/''" s]
  by (auto simp: cutSegment_span segment_def dest: set_takeWhileD)

lemma slashed_head: "slashed ss = [] \<or> hd (slashed ss) = CHR ''/''"
  by (cases ss) (auto simp: slashed_def)

lemma rawPathRemainder_some:
  assumes "\<forall>s \<in> set ss. segment s"
  shows "rawPathRemainder (slashed ss) rp = Some rem
    \<longleftrightarrow> (\<exists>rs. rp = slashed rs @ rem \<and> length rs = length ss
           \<and> (ss \<noteq> [] \<longrightarrow> rem = [] \<or> hd rem = CHR ''/'')
           \<and> (\<forall>s \<in> set rs. segment s) \<and> map pathUnescape rs = map Some ss)"
  using assms
proof (induction ss arbitrary: rp)
  case Nil
  then show ?case by (auto simp: slashed_def rawPathRemainder.simps [of "[]"])
next
  case (Cons s ss)
  have cm: "cutSegment (s @ slashed ss) = (s, slashed ss)"
    using Cons.prems slashed_head by (intro cutSegment_slashed) auto
  have IH: "\<And>rp. rawPathRemainder (slashed ss) rp = Some rem
    \<longleftrightarrow> (\<exists>rs. rp = slashed rs @ rem \<and> length rs = length ss
           \<and> (ss \<noteq> [] \<longrightarrow> rem = [] \<or> hd rem = CHR ''/'')
           \<and> (\<forall>s \<in> set rs. segment s) \<and> map pathUnescape rs = map Some ss)"
    using Cons by simp
  have sl: "slashed (s # ss) = CHR ''/'' # s @ slashed ss" by (simp add: slashed_def)
  show ?case
  proof (cases "rp \<noteq> [] \<and> hd rp = CHR ''/''")
    case False
    have "rp \<noteq> slashed (r # rs) @ rem" for r rs using False by (auto simp: slashed_def)
    then show ?thesis
      using False by (subst rawPathRemainder.simps) (auto simp: sl length_Suc_conv)
  next
    case True
    then obtain t where rp: "rp = CHR ''/'' # t" by (cases rp) auto
    obtain a b where ab: "cutSegment t = (a, b)" by fastforce
    have parts: "t = a @ b" "segment a" "b = [] \<or> hd b = CHR ''/''"
      using cutSegment_parts [OF ab] by auto
    have step: "rawPathRemainder (slashed (s # ss)) rp = Some rem
        \<longleftrightarrow> pathUnescape a = Some s \<and> rawPathRemainder (slashed ss) b = Some rem"
      unfolding sl rp by (subst rawPathRemainder.simps) (auto simp: cm ab split: option.splits)
    show ?thesis
    proof
      assume L: "rawPathRemainder (slashed (s # ss)) rp = Some rem"
      then obtain rs where rs: "b = slashed rs @ rem" "length rs = length ss"
        "ss \<noteq> [] \<longrightarrow> rem = [] \<or> hd rem = CHR ''/''" "\<forall>s \<in> set rs. segment s"
        "map pathUnescape rs = map Some ss" "pathUnescape a = Some s"
        using step IH by blast
      have "rem = [] \<or> hd rem = CHR ''/''"
      proof (cases ss)
        case Nil
        then show ?thesis using rs(1,2) parts(3) by (simp add: slashed_def)
      qed (use rs(3) in simp)
      then show "\<exists>rs. rp = slashed rs @ rem \<and> length rs = length (s # ss)
           \<and> (s # ss \<noteq> [] \<longrightarrow> rem = [] \<or> hd rem = CHR ''/'')
           \<and> (\<forall>s \<in> set rs. segment s) \<and> map pathUnescape rs = map Some (s # ss)"
        using rs parts(1,2) rp by (intro exI [of _ "a # rs"]) (simp add: slashed_def)
    next
      assume "\<exists>rs. rp = slashed rs @ rem \<and> length rs = length (s # ss)
           \<and> (s # ss \<noteq> [] \<longrightarrow> rem = [] \<or> hd rem = CHR ''/'')
           \<and> (\<forall>s \<in> set rs. segment s) \<and> map pathUnescape rs = map Some (s # ss)"
      then obtain r rs where rs: "rp = slashed (r # rs) @ rem" "length rs = length ss"
        "rem = [] \<or> hd rem = CHR ''/''" "segment r" "\<forall>s \<in> set rs. segment s"
        "pathUnescape r = Some s" "map pathUnescape rs = map Some ss"
        by (auto simp: length_Suc_conv)
      have "t = r @ (slashed rs @ rem)" using rs(1) rp by (simp add: slashed_def)
      moreover have "slashed rs @ rem = [] \<or> hd (slashed rs @ rem) = CHR ''/''"
        using slashed_head [of rs] rs(3) by (cases "slashed rs") auto
      ultimately have "a = r" "b = slashed rs @ rem"
        using ab cutSegment_slashed [OF rs(4)] by auto
      then show "rawPathRemainder (slashed (s # ss)) rp = Some rem"
        using step IH rs by blast
    qed
  qed
qed

end
