(* ===== verification/Redirect.thy ===== *)
theory Redirect
  imports Mount
begin

text \<open>
  Redirect responses of mux.go: the target, its escapes, \<open>writeRedirect\<close> with the
  \<open>net/http.Redirect\<close> it specialises, and the redirect target carried in the context.
\<close>

definition buildRedirectTarget :: "string \<Rightarrow> string \<Rightarrow> string" where
  "buildRedirectTarget newPath rawQuery = (if rawQuery = [] then newPath else newPath @ ''?'' @ rawQuery)"

section \<open>Escapes\<close>

definition isRedirectControlByte :: "char \<Rightarrow> bool" where
  "isRedirectControlByte b \<longleftrightarrow> byteOf b < 32 \<or> byteOf b = 127"

text \<open>
  The loop of both escape functions: \<open>i\<close> scans the string and \<open>pos\<close> is where the bytes not
  yet copied begin, so that runs of unescaped bytes are appended at once.
\<close>

function escapeLoop :: "(char \<Rightarrow> bool) \<Rightarrow> (char \<Rightarrow> string) \<Rightarrow> string \<Rightarrow> nat \<Rightarrow> nat \<Rightarrow> string \<Rightarrow> string" where
  "escapeLoop special enc s i pos b =
     (if i < length s then
        (if special (s ! i)
         then escapeLoop special enc s (i + 1) (i + 1)
                ((if pos < i then b @ take (i - pos) (drop pos s) else b) @ enc (s ! i))
         else escapeLoop special enc s (i + 1) pos b)
      else if pos < length s then b @ drop pos s else b)"
  by pat_completeness auto
termination by (relation "measure (\<lambda>(special, enc, s, i, pos, b). length s - i)") auto

declare escapeLoop.simps [simp del]

definition upperHex :: "nat \<Rightarrow> char" where
  "upperHex n = ''0123456789ABCDEF'' ! n"

definition lowerHex :: "nat \<Rightarrow> char" where
  "lowerHex n = ''0123456789abcdef'' ! n"

definition percentUpper :: "char \<Rightarrow> string" where
  "percentUpper c = [CHR ''%'', upperHex (byteOf c div 16), upperHex (byteOf c mod 16)]"

text \<open>\<open>strconv.AppendInt\<close> in base 16.\<close>

fun formatHex :: "nat \<Rightarrow> string" where
  "formatHex n = (if n < 16 then [lowerHex n] else formatHex (n div 16) @ [lowerHex (n mod 16)])"

declare formatHex.simps [simp del]

definition percentEncodeControlBytes :: "string \<Rightarrow> string" where
  "percentEncodeControlBytes s =
     (if \<not> (\<exists>c \<in> set s. isRedirectControlByte c) then s
      else escapeLoop isRedirectControlByte percentUpper s 0 0 [])"

definition percentEncodeBackslash :: "string \<Rightarrow> string" where
  "percentEncodeBackslash s = concat (map (\<lambda>c. if c = char_of (92 :: nat) then ''%5C'' else [c]) s)"

definition nonASCII :: "char \<Rightarrow> bool" where
  "nonASCII c \<longleftrightarrow> byteOf c \<ge> 128"

definition hexEscapeNonASCII :: "string \<Rightarrow> string" where
  "hexEscapeNonASCII s =
     (let newLen = sum_list (map (\<lambda>c. if nonASCII c then 3 else 1) s) in
      if newLen = length s then s
      else escapeLoop nonASCII (\<lambda>c. CHR ''%'' # formatHex (byteOf c)) s 0 0 [])"

section \<open>Redirect responses\<close>

definition cutQuery :: "string \<Rightarrow> string \<times> string" where
  "cutQuery s = (case indexByte s (CHR ''?'') of Some i \<Rightarrow> (take i s, drop i s) | None \<Rightarrow> (s, []))"

definition cleanKeepSlash :: "string \<Rightarrow> string" where
  "cleanKeepSlash loc =
     (let trailing = hasSuffix loc ''/''; cleaned = pathClean loc in
      if trailing \<and> \<not> hasSuffix cleaned ''/'' then cleaned @ ''/'' else cleaned)"

definition redirectBody :: "string \<Rightarrow> nat \<Rightarrow> string" where
  "redirectBody loc code =
     ''<a href='' @ [char_of (34 :: nat)] @ htmlEscape loc @ [char_of (34 :: nat)] @ ''>'' @ statusText code
       @ ''</a>.'' @ newline @ newline"

text \<open>
  The headers, the status and the body, from the location: the same in both functions, the
  header values being set in the response's own map.
\<close>

definition respondRedirect :: "request \<Rightarrow> string \<Rightarrow> nat \<Rightarrow> 'w rw \<Rightarrow> 'w rw" where
  "respondRedirect r loc code w =
     (let hadCT = (wHeader w ''Content-Type'' \<noteq> None);
          meth = rMethod r;
          w1 = setHeader ''Location'' [hexEscapeNonASCII loc] w;
          w2 = (if \<not> hadCT \<and> (meth = ''GET'' \<or> meth = ''HEAD'')
                then setHeader ''Content-Type'' [''text/html; charset=utf-8''] w1 else w1);
          w3 = writeHeader code w2
      in if \<not> hadCT \<and> meth = ''GET'' then writeBody (redirectBody loc code) w3 else w3)"

text \<open>
  \<open>net/http.Redirect\<close>. \<open>relRef url\<close> says that \<open>url.Parse\<close> accepts the target and finds
  neither scheme nor host in it.
\<close>

definition httpRedirect :: "(string \<Rightarrow> bool) \<Rightarrow> request \<Rightarrow> string \<Rightarrow> nat \<Rightarrow> 'w rw \<Rightarrow> 'w rw" where
  "httpRedirect relRef r target code w =
     (let loc =
        (if relRef target then
           (let oldpath = (if uPath (rURL r) = [] then ''/'' else uPath (rURL r));
                olddir = (case lastIndexByte oldpath (CHR ''/'') of None \<Rightarrow> [] | Some i \<Rightarrow> take (i + 1) oldpath);
                full = (if target = [] \<or> hd target \<noteq> CHR ''/'' then olddir @ target else target);
                (loc, query) = cutQuery full
            in cleanKeepSlash loc @ query)
         else target)
      in respondRedirect r loc code w)"

definition writeRedirect :: "(string \<Rightarrow> bool) \<Rightarrow> request \<Rightarrow> string \<Rightarrow> nat \<Rightarrow> 'w rw \<Rightarrow> 'w rw" where
  "writeRedirect relRef r target0 code w =
     (let target = percentEncodeBackslash target0 in
      if length target = 0 \<or> hd target \<noteq> CHR ''/'' \<or> (length target > 1 \<and> target ! 1 = CHR ''/'')
      then httpRedirect relRef r (percentEncodeControlBytes target) code w
      else
        (let (loc, query) = cutQuery target
         in respondRedirect r (percentEncodeControlBytes (cleanKeepSlash loc @ query)) code w))"

section \<open>The target carried in the context\<close>

fun redirectLayer :: "ctx \<Rightarrow> (string \<times> nat) option" where
  "redirectLayer Background = None"
| "redirectLayer (RequestCtx1 c pat p) = redirectLayer c"
| "redirectLayer (RequestCtx2 c pat p q) = redirectLayer c"
| "redirectLayer (RequestCtx c ps pat) = redirectLayer c"
| "redirectLayer (MountPrefixCtx c pre) = redirectLayer c"
| "redirectLayer (RedirectCtx c t k) = Some (t, k)"
| "redirectLayer (ValueCtx c k v) = redirectLayer c"
| "redirectLayer (TimerCtx c d) = redirectLayer c"

definition redirectTargetFrom :: "ctx \<Rightarrow> string \<times> nat" where
  "redirectTargetFrom c =
     (case c of
        RedirectCtx _ t k \<Rightarrow> (t, k)
      | _ \<Rightarrow> (case redirectLayer c of Some rt \<Rightarrow> rt | None \<Rightarrow> ([], 0)))"

section \<open>What the escapes do\<close>

lemma escapeLoop_map:
  assumes "pos \<le> i" "i \<le> length s"
  shows "escapeLoop special enc s i pos b
    = b @ take (i - pos) (drop pos s) @ concat (map (\<lambda>c. if special c then enc c else [c]) (drop i s))"
  using assms
proof (induction special enc s i pos b rule: escapeLoop.induct)
  case (1 special enc s i pos b)
  show ?case
  proof (cases "i < length s")
    case False
    then show ?thesis using 1(3,4) by (subst escapeLoop.simps) auto
  next
    case True
    have d: "drop i s = s ! i # drop (Suc i) s" using True by (rule Cons_nth_drop_Suc [symmetric])
    show ?thesis
    proof (cases "special (s ! i)")
      case sp: True
      show ?thesis using 1(1) [OF True sp] 1(3,4) True sp by (subst escapeLoop.simps) (auto simp: d)
    next
      case sp: False
      have t: "take (Suc i - pos) (drop pos s) = take (i - pos) (drop pos s) @ [s ! i]"
        using 1(3) True by (simp add: Suc_diff_le take_Suc_conv_app_nth)
      show ?thesis using 1(2) [OF True sp] 1(3,4) True sp t by (subst escapeLoop.simps) (auto simp: d)
    qed
  qed
qed

lemma concat_map_id: "(\<forall>c \<in> set s. \<not> special c) \<Longrightarrow> concat (map (\<lambda>c. if special c then enc c else [c]) s) = s"
  by (induction s) auto

lemma percentEncodeControlBytes_map:
  "percentEncodeControlBytes s = concat (map (\<lambda>c. if isRedirectControlByte c then percentUpper c else [c]) s)"
  using concat_map_id [of s isRedirectControlByte percentUpper]
  by (auto simp: percentEncodeControlBytes_def escapeLoop_map)

lemma escaped_len:
  "length s \<le> sum_list (map (\<lambda>c. if nonASCII c then 3 else 1) s)
   \<and> (sum_list (map (\<lambda>c. if nonASCII c then 3 else 1) s) = length s \<longleftrightarrow> (\<forall>c \<in> set s. \<not> nonASCII c))"
  by (induction s) auto

lemma hexEscapeNonASCII_map:
  "hexEscapeNonASCII s = concat (map (\<lambda>c. if nonASCII c then CHR ''%'' # formatHex (byteOf c) else [c]) s)"
  using escaped_len [of s] concat_map_id [of s nonASCII "\<lambda>c. CHR ''%'' # formatHex (byteOf c)"]
  by (auto simp: hexEscapeNonASCII_def escapeLoop_map Let_def)

text \<open>Bytes that may stand in a header value: printable ASCII.\<close>

definition printable :: "char \<Rightarrow> bool" where
  "printable c \<longleftrightarrow> 32 \<le> byteOf c \<and> byteOf c < 127"

lemma hexDigits_printable: "n < 16 \<Longrightarrow> printable (upperHex n) \<and> printable (lowerHex n)"
proof -
  have "\<forall>c \<in> set ''0123456789ABCDEF''. printable c" "\<forall>c \<in> set ''0123456789abcdef''. printable c"
    by code_simp+
  moreover assume "n < 16"
  ultimately show ?thesis by (simp add: upperHex_def lowerHex_def del: list.set)
qed

lemma formatHex_printable: "\<forall>c \<in> set (formatHex n). printable c"
proof (induction n rule: formatHex.induct)
  case (1 n)
  then show ?case by (subst formatHex.simps) (auto simp: hexDigits_printable)
qed

lemma byteOf_less [simp]: "byteOf c < 256"
  by (simp add: byteOf_def)

lemma escaped_printable:
  "\<forall>c \<in> set (hexEscapeNonASCII (percentEncodeControlBytes s)). printable c"
proof -
  have u: "\<forall>x \<in> set (percentUpper c). printable x" for c
  proof -
    have "byteOf c div 16 < 16" by (rule less_mult_imp_div_less) simp
    then show ?thesis by (simp add: percentUpper_def hexDigits_printable) (simp add: printable_def byteOf_def)
  qed
  have ctl: "\<not> isRedirectControlByte c" if "c \<in> set (percentEncodeControlBytes s)" for c
    using that u unfolding percentEncodeControlBytes_map
    by (fastforce simp: printable_def isRedirectControlByte_def split: if_splits)
  have "printable x" if "c \<in> set (percentEncodeControlBytes s)"
    "x \<in> set (if nonASCII c then CHR ''%'' # formatHex (byteOf c) else [c])" for c x
  proof (cases "nonASCII c")
    case True
    have "printable (CHR ''%'')" by code_simp
    then show ?thesis using that(2) True formatHex_printable by auto
  next
    case False
    have "\<not> byteOf c < 32" "byteOf c \<noteq> 127" "byteOf c < 128"
      using ctl [OF that(1)] False by (simp_all add: isRedirectControlByte_def nonASCII_def)
    then show ?thesis using that(2) False by (simp add: printable_def)
  qed
  then show ?thesis unfolding hexEscapeNonASCII_map by auto
qed

section \<open>Cleaned paths\<close>

definition goodElem :: "string \<Rightarrow> bool" where
  "goodElem e \<longleftrightarrow> e \<noteq> [] \<and> e \<noteq> ''.'' \<and> e \<noteq> ''..'' \<and> CHR ''/'' \<notin> set e"

lemma splitAtSlash_nonempty: "splitAtSlash s \<noteq> []"
  by (induction s) (auto split: list.splits)

lemma splitAtSlash_elems: "e \<in> set (splitAtSlash s) \<Longrightarrow> CHR ''/'' \<notin> set e \<and> set e \<subseteq> set s"
proof (induction s arbitrary: e)
  case (Cons c s)
  obtain x xs where x: "splitAtSlash s = x # xs" using splitAtSlash_nonempty [of s] by (cases "splitAtSlash s") auto
  then show ?case using Cons.prems Cons.IH [of x] Cons.IH [of e] by (auto split: if_splits)
qed simp

lemma goodElemD: "goodElem e \<Longrightarrow> e \<noteq> []" "goodElem e \<Longrightarrow> CHR ''/'' \<notin> set e"
  by (simp_all add: goodElem_def)

lemma cleanElems_good:
  assumes "\<forall>e \<in> set stack. goodElem e" "\<forall>e \<in> set es. CHR ''/'' \<notin> set e"
  shows "\<forall>e \<in> set (cleanElems True stack es). goodElem e \<and> e \<in> set stack \<union> set es"
  using assms
proof (induction es arbitrary: stack)
  case Nil
  then show ?case by simp
next
  case (Cons e es)
  have goal: ?case
    if "cleanElems True stack (e # es) = cleanElems True st es" "\<forall>x \<in> set st. goodElem x"
      "set st \<subseteq> insert e (set stack)" for st
    using Cons.IH [OF that(2)] Cons.prems(2) that(1,3) by (simp del: cleanElems.simps) blast
  have tl: "\<forall>x \<in> set (tl stack). goodElem x" "set (tl stack) \<subseteq> insert e (set stack)"
    using Cons.prems(1) by (cases stack; auto)+
  consider (skip) "e = [] \<or> e = ''.''"
    | (pop) "\<not> (e = [] \<or> e = ''.'')" "e = ''..''" "stack \<noteq> [] \<and> hd stack \<noteq> ''..''"
    | (top) "\<not> (e = [] \<or> e = ''.'')" "e = ''..''" "\<not> (stack \<noteq> [] \<and> hd stack \<noteq> ''..'')"
    | (push) "\<not> (e = [] \<or> e = ''.'')" "e \<noteq> ''..''"
    by blast
  then show ?case
  proof cases
    case skip
    show ?thesis by (rule goal [of stack]) (use skip Cons.prems in auto)
  next
    case pop
    show ?thesis by (rule goal [of "tl stack"]) (use pop tl in auto)
  next
    case top
    show ?thesis by (rule goal [of stack]) (use top Cons.prems in auto)
  next
    case push
    have "goodElem e" using push Cons.prems(2) unfolding goodElem_def list.set by blast
    moreover have "cleanElems True stack (e # es) = cleanElems True (e # stack) es"
      using push by (simp only: cleanElems.simps if_False)
    ultimately show ?thesis by (intro goal [of "e # stack"]) (use Cons.prems in auto)
  qed
qed

definition cleanParts :: "string \<Rightarrow> string list" where
  "cleanParts p = cleanElems True [] (splitAtSlash p)"

lemma cleanParts_good: "\<forall>e \<in> set (cleanParts p). goodElem e \<and> set e \<subseteq> set p"
  using cleanElems_good [of "[]" "splitAtSlash p"] splitAtSlash_elems [of _ p]
  unfolding cleanParts_def by fastforce

lemma pathClean_rooted: "p \<noteq> [] \<Longrightarrow> hd p = CHR ''/'' \<Longrightarrow> pathClean p = CHR ''/'' # joinSlash (cleanParts p)"
  by (simp add: pathClean_def cleanParts_def)

lemma joinSlash_Cons: "joinSlash (e # es) = e @ (if es = [] then [] else CHR ''/'' # joinSlash es)"
  by (cases es) simp_all

lemma joinSlash_hd:
  assumes "\<forall>e \<in> set es. goodElem e" "joinSlash es \<noteq> []"
  shows "hd (joinSlash es) \<noteq> CHR ''/''"
proof (cases es)
  case (Cons e rest)
  then have "e \<noteq> []" "CHR ''/'' \<notin> set e" using assms(1) goodElemD by auto
  then have "hd e \<noteq> CHR ''/''" using hd_in_set by metis
  then show ?thesis using Cons \<open>e \<noteq> []\<close> by (simp add: joinSlash_Cons)
qed (use assms in simp)

lemma joinSlash_set: "set (joinSlash es) \<subseteq> {CHR ''/''} \<union> \<Union> (set ` set es)"
  by (induction es rule: joinSlash.induct) auto

lemma pathClean_set:
  assumes "p \<noteq> []" "hd p = CHR ''/''"
  shows "set (pathClean p) \<subseteq> set p"
proof -
  have "CHR ''/'' \<in> set p" using assms by (cases p) auto
  then show ?thesis
    using joinSlash_set [of "cleanParts p"] cleanParts_good [of p] by (fastforce simp: pathClean_rooted [OF assms])
qed

lemma cleanKeepSlash_shape:
  assumes "p \<noteq> []" "hd p = CHR ''/''"
  shows "\<exists>t. cleanKeepSlash p = CHR ''/'' # t \<and> (t \<noteq> [] \<longrightarrow> hd t \<noteq> CHR ''/'')"
    and "set (cleanKeepSlash p) \<subseteq> set p"
proof -
  have c: "pathClean p = CHR ''/'' # joinSlash (cleanParts p)" by (rule pathClean_rooted [OF assms])
  have h: "joinSlash (cleanParts p) \<noteq> [] \<longrightarrow> hd (joinSlash (cleanParts p)) \<noteq> CHR ''/''"
    using joinSlash_hd [of "cleanParts p"] cleanParts_good [of p] by blast
  show "\<exists>t. cleanKeepSlash p = CHR ''/'' # t \<and> (t \<noteq> [] \<longrightarrow> hd t \<noteq> CHR ''/'')"
  proof (cases "joinSlash (cleanParts p) = []")
    case True
    then show ?thesis by (simp add: cleanKeepSlash_def c hasSuffix_def Let_def)
  next
    case False
    then show ?thesis using h by (auto simp: cleanKeepSlash_def c Let_def hd_append)
  qed
  have "CHR ''/'' \<in> set p" using assms by (cases p) auto
  then show "set (cleanKeepSlash p) \<subseteq> set p"
    using pathClean_set [OF assms] by (auto simp: cleanKeepSlash_def Let_def)
qed

lemma splitAtSlash_good:
  assumes "CHR ''/'' \<notin> set e"
  shows "splitAtSlash (e @ CHR ''/'' # s) = e # splitAtSlash s" "splitAtSlash e = [e]"
  using assms by (induction e) (auto split: list.splits)

lemma splitAtSlash_join:
  "es \<noteq> [] \<Longrightarrow> \<forall>e \<in> set es. goodElem e \<Longrightarrow> splitAtSlash (joinSlash es) = es"
proof (induction es)
  case (Cons e es)
  then have "CHR ''/'' \<notin> set e" using goodElemD by simp
  then show ?case using Cons by (cases "es = []") (simp_all add: joinSlash_Cons splitAtSlash_good)
qed simp

lemma cleanElems_keep:
  "\<forall>e \<in> set es. goodElem e \<Longrightarrow> cleanElems True stack es = rev stack @ es"
proof (induction es arbitrary: stack)
  case (Cons e es)
  then have "\<not> (e = [] \<or> e = ''.'')" "e \<noteq> ''..''" unfolding goodElem_def by simp_all
  then have "cleanElems True stack (e # es) = cleanElems True (e # stack) es"
    by (simp only: cleanElems.simps if_False)
  then show ?case using Cons by simp
qed simp

lemma pathClean_idem:
  assumes "p \<noteq> []" "hd p = CHR ''/''"
  shows "pathClean (pathClean p) = pathClean p"
proof -
  have good: "\<forall>e \<in> set (cleanParts p). goodElem e" using cleanParts_good by blast
  have "cleanParts (CHR ''/'' # joinSlash (cleanParts p)) = cleanParts p"
  proof (cases "cleanParts p = []")
    case True
    then show ?thesis by (simp add: cleanParts_def [of "CHR ''/'' # _"])
  next
    case False
    then show ?thesis
      using good by (simp add: cleanParts_def [of "CHR ''/'' # _"] splitAtSlash_join cleanElems_keep)
  qed
  then show ?thesis by (simp add: pathClean_rooted assms)
qed

section \<open>The Location header\<close>

lemma respondRedirect_location [simp]:
  "wHeader (respondRedirect r loc code w) ''Location'' = Some [hexEscapeNonASCII loc]"
proof -
  have b: "wHeader (writeBody s x) = wHeader x" "wHeader (writeHeader c x) = wHeader x" for s c and x :: "'a rw"
    by (simp_all add: writeBody_def writeHeader_def Let_def split: option.splits)
  show ?thesis by (simp add: respondRedirect_def Let_def b setHeader_def)
qed

lemma cutQuery_parts: "cutQuery s = (a, b) \<Longrightarrow> s = a @ b"
  by (auto simp: cutQuery_def split: option.splits)

lemma cutQuery_rooted:
  assumes "cutQuery (CHR ''/'' # s) = (loc, query)"
  shows "loc \<noteq> []" "hd loc = CHR ''/''" "query \<noteq> [] \<longrightarrow> hd query = CHR ''?''"
proof -
  have i: "x < length s \<and> s ! x = c" if "indexByte s c = Some x" for x s c
    using that
  proof (induction s arbitrary: x)
    case (Cons d s)
    then show ?case by (cases x) (auto simp: indexByte_def split: if_splits)
  qed (simp add: indexByte_def)
  show "loc \<noteq> []" "hd loc = CHR ''/''"
    using assms by (auto simp: cutQuery_def indexByte_def split: option.splits if_splits)
  show "query \<noteq> [] \<longrightarrow> hd query = CHR ''?''"
    using assms i [of "CHR ''/'' # s" "CHR ''?''"] by (auto simp: cutQuery_def hd_drop_conv_nth split: option.splits)
qed

lemma percentEncodeBackslash_set: "char_of (92 :: nat) \<notin> set (percentEncodeBackslash s)"
proof -
  have "char_of (92 :: nat) \<notin> set ''%5C''" by code_simp
  then show ?thesis by (auto simp: percentEncodeBackslash_def simp del: list.set split: if_splits) auto
qed

lemma percentEncodeBackslash_cons:
  "percentEncodeBackslash (c # s) =
     (if c = char_of (92 :: nat) then ''%5C'' else [c]) @ percentEncodeBackslash s"
  by (simp add: percentEncodeBackslash_def)

lemma percentEncodeBackslash_id: "char_of (92 :: nat) \<notin> set s \<Longrightarrow> percentEncodeBackslash s = s"
  unfolding percentEncodeBackslash_def by (rule concat_map_id) auto

lemma escapes_cons:
  "percentEncodeControlBytes (c # s) =
     (if isRedirectControlByte c then percentUpper c else [c]) @ percentEncodeControlBytes s"
  "hexEscapeNonASCII (c # s) =
     (if nonASCII c then CHR ''%'' # formatHex (byteOf c) else [c]) @ hexEscapeNonASCII s"
  by (simp_all add: percentEncodeControlBytes_map hexEscapeNonASCII_map)

text \<open>Neither escape makes a byte that is neither printable hexadecimal nor '%'.\<close>

lemma formatHex_set: "set (formatHex n) \<subseteq> set ''0123456789abcdef''"
proof (induction n rule: formatHex.induct)
  case (1 n)
  have l: "k < 16 \<Longrightarrow> lowerHex k \<in> set ''0123456789abcdef''" for k
    unfolding lowerHex_def by (rule nth_mem) simp
  show ?case
  proof (cases "n < 16")
    case True
    then show ?thesis
      using l [of n] by (subst formatHex.simps) (simp del: list.set(2) add: list.set(2) [of "lowerHex n"])
  next
    case False
    then show ?thesis
      using 1 l [of "n mod 16"]
      by (subst formatHex.simps) (simp del: list.set(2) add: list.set(2) [of "lowerHex (n mod 16)"])
  qed
qed

lemma percentUpper_set: "set (percentUpper c) \<subseteq> insert (CHR ''%'') (set ''0123456789ABCDEF'')"
proof -
  have u: "k < 16 \<Longrightarrow> upperHex k \<in> set ''0123456789ABCDEF''" for k
    unfolding upperHex_def by (rule nth_mem) simp
  have "byteOf c div 16 < 16" by (rule less_mult_imp_div_less) simp
  then show ?thesis using u [of "byteOf c div 16"] u [of "byteOf c mod 16"]
    unfolding percentUpper_def
    by (auto simp del: list.set(2) simp: list.set(2) [of "CHR ''%''"] list.set(2) [of "upperHex _"])
qed

end
