(* ===== verification/Handlers.thy ===== *)
theory Handlers
  imports Redirect TreeSearch
begin

text \<open>
  Handlers, middleware and what the router does around a handler call: handler.go and
  response.go, the closures the registration functions build, the wrapping by middleware, and
  the hand-over of captured parameters to a handler, with and without the pools of params.go.
\<close>

section \<open>Errors, handlers and middleware\<close>

text \<open>An error value; \<open>HTTPError\<close> is the \<open>httpError\<close> of handler.go.\<close>

datatype goError = PlainError string | HTTPError nat goError

fun errorText :: "goError \<Rightarrow> string" where
  "errorText (PlainError s) = s"
| "errorText (HTTPError code e) = errorText e"

definition statusCode :: "goError \<Rightarrow> nat option" where
  "statusCode e = (case e of HTTPError code _ \<Rightarrow> Some code | PlainError _ \<Rightarrow> None)"

definition unwrap :: "goError \<Rightarrow> goError option" where
  "unwrap e = (case e of HTTPError _ inner \<Rightarrow> Some inner | PlainError _ \<Rightarrow> None)"

definition newError :: "nat \<Rightarrow> goError option \<Rightarrow> goPanic + goError" where
  "newError code err =
     (case err of None \<Rightarrow> Inl NilError | Some e \<Rightarrow> Inr (HTTPError code e))"

type_synonym 'w errHandler = "request \<Rightarrow> goError \<Rightarrow> 'w rw \<Rightarrow> 'w served"
type_synonym 'w serveE = "request \<Rightarrow> 'w rw \<Rightarrow> 'w rw \<times> (goPanic + goError option)"
type_synonym 'w middleware = "'w serve \<Rightarrow> 'w serve"
type_synonym 'w fastHandler = "request \<Rightarrow> Params \<Rightarrow> 'w rw \<Rightarrow> 'w served"
type_synonym 'w fastMiddleware = "'w fastHandler option \<Rightarrow> 'w fastHandler option"

text \<open>
  The values an \<open>http.Handler\<close> can have: a function (a nil function value is not a nil
  interface), the closures of \<open>HandleE\<close>, \<open>mountAt\<close>, \<open>ServeFiles\<close> and of the three \<open>lazy\<close>
  builders with what they capture, and the result of a middleware applied to a handler that may
  be nil. An option of this type is the interface, None being nil. \<open>ErrorFunc\<close> reads the error
  handler of the frozen configuration when it runs, so running a handler takes it as an argument.
\<close>

datatype 'w handler =
    Func "'w serve option"
  | ErrorFunc "'w serveE option"
  | MountFunc string bool "'w handler"
  | FilesFunc string "'w serve"
  | NotAllowedFunc string "'w handler option"
  | OptionsFunc string "'w handler option"
  | RedirectFunc
  | Wrapped "'w middleware" "'w handler option"

text \<open>
  What the router takes from outside: whether the context field of \<open>http.Request\<close> was found at
  initialisation, and the verdict of \<open>url.Parse\<close> the redirects need.
\<close>

record libs =
  hasReqCtxField :: bool
  relRef :: "string \<Rightarrow> bool"

definition nilCall :: "'w rw \<Rightarrow> 'w served" where
  "nilCall w = (w, Some NilDereference)"

text \<open>The closure of \<open>HandleE\<close>.\<close>

definition serveError :: "'w errHandler option \<Rightarrow> 'w serveE option \<Rightarrow> 'w serve" where
  "serveError eh h r w =
     (case h of
        None \<Rightarrow> nilCall w
      | Some f \<Rightarrow>
          (case f r w of
             (w', Inl p) \<Rightarrow> (w', Some p)
           | (w', Inr None) \<Rightarrow> ok w'
           | (w', Inr (Some e)) \<Rightarrow>
               (case eh of
                  Some g \<Rightarrow> g r e w'
                | None \<Rightarrow> ok (httpError ''Internal Server Error'' 500 w'))))"

text \<open>The request \<open>ServeFiles\<close> hands to the file server.\<close>

definition filesRequest :: "string \<Rightarrow> request \<Rightarrow> request" where
  "filesRequest paramName r = r\<lparr>rURL := (rURL r)\<lparr>uPath := pathParam r paramName\<rparr>\<rparr>"

text \<open>The closures of \<open>lazyMethodNotAllowed\<close> and \<open>lazyOPTIONS\<close> without a custom handler.\<close>

definition serve405 :: "string \<Rightarrow> 'w rw \<Rightarrow> 'w served" where
  "serve405 allow w =
     ok (writeBody (statusText 405 @ newline)
          (writeHeader 405
            (setHeader ''X-Content-Type-Options'' [''nosniff'']
              (setHeader ''Content-Type'' [''text/plain; charset=utf-8'']
                (setHeader ''Allow'' [allow] w)))))"

definition serveOptions :: "string \<Rightarrow> 'w rw \<Rightarrow> 'w served" where
  "serveOptions allow w = ok (writeHeader 204 (setHeader ''Allow'' [allow] w))"

text \<open>The closure of \<open>lazyRedirect\<close>.\<close>

definition serveContextRedirect :: "libs \<Rightarrow> 'w serve" where
  "serveContextRedirect L r w =
     (let (target, code) = redirectTargetFrom (requestContext r)
      in ok (writeRedirect (relRef L) r target code w))"

fun runHandler :: "libs \<Rightarrow> 'w errHandler option \<Rightarrow> 'w handler \<Rightarrow> 'w serve" where
  "runHandler L eh (Func f) r w = (case f of None \<Rightarrow> nilCall w | Some g \<Rightarrow> g r w)"
| "runHandler L eh (ErrorFunc f) r w = serveError eh f r w"
| "runHandler L eh (MountFunc prefix hasParam h) r w =
     runHandler L eh h (mountRequest (hasReqCtxField L) prefix hasParam r) w"
| "runHandler L eh (FilesFunc paramName fs) r w = fs (filesRequest paramName r) w"
| "runHandler L eh (NotAllowedFunc allow h) r w =
     (case h of
        None \<Rightarrow> serve405 allow w
      | Some g \<Rightarrow> runHandler L eh g r (setHeader ''Allow'' [allow] w))"
| "runHandler L eh (OptionsFunc allow h) r w =
     (case h of
        None \<Rightarrow> serveOptions allow w
      | Some g \<Rightarrow> runHandler L eh g r (setHeader ''Allow'' [allow] w))"
| "runHandler L eh RedirectFunc r w = serveContextRedirect L r w"
| "runHandler L eh (Wrapped mw h) r w =
     mw (case h of None \<Rightarrow> (\<lambda>r w. nilCall w) | Some g \<Rightarrow> (\<lambda>r w. runHandler L eh g r w)) r w"

text \<open>
  \<open>wrapMiddleware\<close> goes from the last middleware to the first, so index 0 ends up outermost;
  it wraps a nil handler too. \<open>wrapServe\<close> is the same over a function.
\<close>

definition wrapMiddleware :: "'w handler option \<Rightarrow> 'w middleware list \<Rightarrow> 'w handler option" where
  "wrapMiddleware h middleware = foldr (\<lambda>mw g. Some (Wrapped mw g)) middleware h"

definition wrapServe :: "'w serve \<Rightarrow> 'w middleware list \<Rightarrow> 'w serve" where
  "wrapServe f middleware = foldr (\<lambda>mw g. mw g) middleware f"

definition wrapFastMiddleware ::
  "'w fastHandler option \<Rightarrow> 'w fastMiddleware list \<Rightarrow> 'w fastHandler option"
where
  "wrapFastMiddleware h middleware = foldr (\<lambda>mw g. mw g) middleware h"

definition runOption :: "libs \<Rightarrow> 'w errHandler option \<Rightarrow> 'w handler option \<Rightarrow> 'w serve" where
  "runOption L eh h =
     (case h of None \<Rightarrow> (\<lambda>r w. nilCall w) | Some g \<Rightarrow> (\<lambda>r w. runHandler L eh g r w))"

lemma runOption_Wrapped: "runOption L eh (Some (Wrapped mw g)) = mw (runOption L eh g)"
  by (intro ext) (simp add: runOption_def)

lemma runOption_wrap:
  "runOption L eh (wrapMiddleware h mws) = wrapServe (runOption L eh h) mws"
  by (induction mws) (simp_all add: wrapMiddleware_def wrapServe_def runOption_Wrapped)

lemma wrapMiddleware_append:
  "wrapMiddleware h (a @ b) = wrapMiddleware (wrapMiddleware h b) a"
  by (simp add: wrapMiddleware_def)

lemma wrapServe_append: "wrapServe f (a @ b) = wrapServe (wrapServe f b) a"
  by (simp add: wrapServe_def)

lemma wrapServe_Nil [simp]: "wrapServe f [] = f"
  by (simp add: wrapServe_def)

lemma wrapMiddleware_some [simp]: "(wrapMiddleware h mws = None) = (h = None \<and> mws = [])"
  by (cases mws) (auto simp: wrapMiddleware_def)

section \<open>Response helpers\<close>

text \<open>
  response.go. Marshalling is a parameter: the encoded bytes, or the error. Writing the body
  does not fail here.
\<close>

definition orOK :: "nat \<Rightarrow> nat" where
  "orOK code = (if code = 0 then 200 else code)"

definition writeTyped :: "string \<Rightarrow> nat \<Rightarrow> string \<Rightarrow> 'w rw \<Rightarrow> 'w rw" where
  "writeTyped contentType code body w =
     writeBody body (writeHeader (orOK code) (setHeader ''Content-Type'' [contentType] w))"

definition respondJSON :: "('v \<Rightarrow> goError + string) \<Rightarrow> nat \<Rightarrow> 'v \<Rightarrow> 'w rw \<Rightarrow> 'w rw \<times> goError option" where
  "respondJSON marshal code v w =
     (case marshal v of
        Inl err \<Rightarrow> (w, Some err)
      | Inr b \<Rightarrow> (writeTyped ''application/json; charset=utf-8'' code b w, None))"

definition respondXML :: "('v \<Rightarrow> goError + string) \<Rightarrow> nat \<Rightarrow> 'v \<Rightarrow> 'w rw \<Rightarrow> 'w rw \<times> goError option" where
  "respondXML marshal code v w =
     (case marshal v of
        Inl err \<Rightarrow> (w, Some err)
      | Inr b \<Rightarrow> (writeTyped ''application/xml; charset=utf-8'' code b w, None))"

definition respondText :: "nat \<Rightarrow> string \<Rightarrow> 'w rw \<Rightarrow> 'w rw \<times> goError option" where
  "respondText code s w = (writeTyped ''text/plain; charset=utf-8'' code s w, None)"

definition noContent :: "'w rw \<Rightarrow> 'w rw" where
  "noContent w = writeHeader 204 w"

section \<open>Handing parameters to a handler\<close>

text \<open>
  The tiers of request contexts. With the context field at hand the request copy is written in
  place, otherwise \<open>WithContext\<close> makes it.
\<close>

definition dispatchParams1 :: "bool \<Rightarrow> request \<Rightarrow> 'w serve \<Rightarrow> string \<Rightarrow> Param \<Rightarrow> 'w rw \<Rightarrow> 'w served" where
  "dispatchParams1 fld r h pattern p w =
     (if fld then h (setReqCtxUnsafe r (RequestCtx1 (getReqCtxUnsafe r) pattern p)) w
      else h (withContext r (RequestCtx1 (requestContext r) pattern p)) w)"

definition dispatchParams2 ::
  "bool \<Rightarrow> request \<Rightarrow> 'w serve \<Rightarrow> string \<Rightarrow> Param \<Rightarrow> Param \<Rightarrow> 'w rw \<Rightarrow> 'w served"
where
  "dispatchParams2 fld r h pattern p q w =
     (if fld then h (setReqCtxUnsafe r (RequestCtx2 (getReqCtxUnsafe r) pattern p q)) w
      else h (withContext r (RequestCtx2 (requestContext r) pattern p q)) w)"

text \<open>
  The array \<open>small\<close> of the bundle takes up to three parameters and \<open>params\<close> is a slice of it;
  more go to a fresh slice.
\<close>

definition copyInto :: "'a list \<Rightarrow> 'a list \<Rightarrow> 'a list" where
  "copyInto dst src = take (length dst) src @ drop (length src) dst"

definition bundleSlice :: "Params \<Rightarrow> Params \<Rightarrow> Params" where
  "bundleSlice small pslice =
     (let n = length pslice in
      if n \<le> 3 then take n (copyInto small pslice)
      else copyInto (replicate n (mkParam [] [])) pslice)"

definition dispatchWithParams ::
  "bool \<Rightarrow> request \<Rightarrow> 'w serve \<Rightarrow> string \<Rightarrow> Params \<Rightarrow> 'w rw \<Rightarrow> 'w served"
where
  "dispatchWithParams fld r h pattern pslice w =
     (case pslice of
        [p] \<Rightarrow> dispatchParams1 fld r h pattern p w
      | [p, q] \<Rightarrow> dispatchParams2 fld r h pattern p q w
      | _ \<Rightarrow>
          (let params = bundleSlice (replicate 3 (mkParam [] [])) pslice in
           if fld then h (setReqCtxUnsafe r (RequestCtx (getReqCtxUnsafe r) params pattern)) w
           else h (withContext r (RequestCtx (requestContext r) params pattern)) w))"

section \<open>Pools\<close>

text \<open>
  \<open>sync.Pool\<close> hands out any of its items, or a new one; \<open>pick\<close> is its choice. A bundle is the
  fused context and request: the fields of \<open>requestCtx1\<close>, \<open>requestCtx2\<close> and \<open>requestCtx\<close>
  (the \<open>params\<close> slice only in the last) with the request copy, None where zeroed.
\<close>

definition poolGet :: "nat \<Rightarrow> 'a \<Rightarrow> 'a list \<Rightarrow> 'a \<times> 'a list" where
  "poolGet pick new pool =
     (if pick < length pool then (pool ! pick, take pick pool @ drop (Suc pick) pool) else (new, pool))"

record reqBundle =
  bContext :: "ctx option"
  bPattern :: string
  bParams :: Params
  bSmall :: Params
  bReq :: "request option"

definition zeroBundle :: "nat \<Rightarrow> reqBundle" where
  "zeroBundle n =
     \<lparr>bContext = None, bPattern = [], bParams = [], bSmall = replicate n (mkParam [] []), bReq = None\<rparr>"

record pools =
  fastParams1 :: "Params list"
  fastParams2 :: "Params list"
  fastParams3 :: "Params list"
  bundles1 :: "reqBundle list"
  bundles2 :: "reqBundle list"
  bundlesN :: "reqBundle list"

definition emptyPools :: pools where
  "emptyPools = \<lparr>fastParams1 = [], fastParams2 = [], fastParams3 = [], bundles1 = [], bundles2 = [],
                 bundlesN = []\<rparr>"

definition getFastParams :: "nat \<Rightarrow> nat \<Rightarrow> pools \<Rightarrow> Params \<times> pools" where
  "getFastParams pick n ps =
     (let new = replicate n (mkParam [] []) in
      if n = 1 then (let (a, rest) = poolGet pick new (fastParams1 ps) in (a, ps\<lparr>fastParams1 := rest\<rparr>))
      else if n = 2 then (let (a, rest) = poolGet pick new (fastParams2 ps) in (a, ps\<lparr>fastParams2 := rest\<rparr>))
      else if n = 3 then (let (a, rest) = poolGet pick new (fastParams3 ps) in (a, ps\<lparr>fastParams3 := rest\<rparr>))
      else (new, ps))"

definition putFastParams :: "Params \<Rightarrow> pools \<Rightarrow> pools" where
  "putFastParams fps ps =
     (let zeroed = map (\<lambda>_. mkParam [] []) fps; n = length fps in
      if n = 1 then ps\<lparr>fastParams1 := zeroed # fastParams1 ps\<rparr>
      else if n = 2 then ps\<lparr>fastParams2 := zeroed # fastParams2 ps\<rparr>
      else if n = 3 then ps\<lparr>fastParams3 := zeroed # fastParams3 ps\<rparr>
      else ps)"

text \<open>What a request and the three context types read from a bundle's fields.\<close>

definition parentOf :: "reqBundle \<Rightarrow> ctx" where
  "parentOf b = (case bContext b of None \<Rightarrow> Background | Some c \<Rightarrow> c)"

definition dispatchParams1Pooled ::
  "nat \<Rightarrow> pools \<Rightarrow> request \<Rightarrow> 'w serve \<Rightarrow> string \<Rightarrow> Param \<Rightarrow> 'w rw \<Rightarrow> 'w served \<times> pools"
where
  "dispatchParams1Pooled pick ps r h pattern p w =
     (let (b0, rest) = poolGet pick (zeroBundle 1) (bundles1 ps);
          b = b0\<lparr>bContext := Some (getReqCtxUnsafe r), bPattern := pattern,
                 bSmall := (bSmall b0)[0 := p], bReq := Some r\<rparr>;
          req = setReqCtxUnsafe r (RequestCtx1 (parentOf b) (bPattern b) (bSmall b ! 0));
          served = h req w
      in (served,
          ps\<lparr>bundles1 := (case snd served of None \<Rightarrow> zeroBundle 1 # rest | Some _ \<Rightarrow> rest)\<rparr>))"

definition dispatchParams2Pooled ::
  "nat \<Rightarrow> pools \<Rightarrow> request \<Rightarrow> 'w serve \<Rightarrow> string \<Rightarrow> Param \<Rightarrow> Param \<Rightarrow> 'w rw \<Rightarrow> 'w served \<times> pools"
where
  "dispatchParams2Pooled pick ps r h pattern p q w =
     (let (b0, rest) = poolGet pick (zeroBundle 2) (bundles2 ps);
          b = b0\<lparr>bContext := Some (getReqCtxUnsafe r), bPattern := pattern,
                 bSmall := (bSmall b0)[0 := p, 1 := q], bReq := Some r\<rparr>;
          req = setReqCtxUnsafe r (RequestCtx2 (parentOf b) (bPattern b) (bSmall b ! 0) (bSmall b ! 1));
          served = h req w
      in (served,
          ps\<lparr>bundles2 := (case snd served of None \<Rightarrow> zeroBundle 2 # rest | Some _ \<Rightarrow> rest)\<rparr>))"

definition dispatchParamsNPooled ::
  "nat \<Rightarrow> pools \<Rightarrow> request \<Rightarrow> 'w serve \<Rightarrow> string \<Rightarrow> Params \<Rightarrow> 'w rw \<Rightarrow> 'w served \<times> pools"
where
  "dispatchParamsNPooled pick ps r h pattern pslice w =
     (let (b0, rest) = poolGet pick (zeroBundle 3) (bundlesN ps);
          n = length pslice;
          small = (if n \<le> 3 then copyInto (bSmall b0) pslice else bSmall b0);
          params = bundleSlice (bSmall b0) pslice;
          b = b0\<lparr>bContext := Some (getReqCtxUnsafe r), bPattern := pattern, bSmall := small,
                 bParams := params, bReq := Some r\<rparr>;
          req = setReqCtxUnsafe r (RequestCtx (parentOf b) (bParams b) (bPattern b));
          served = h req w
      in (served,
          ps\<lparr>bundlesN := (case snd served of None \<Rightarrow> zeroBundle 3 # rest | Some _ \<Rightarrow> rest)\<rparr>))"

text \<open>The slice a fast handler receives: the inline parameters, then the overflow.\<close>

definition fillFast :: "Params \<Rightarrow> paramsBuf \<Rightarrow> Params" where
  "fillFast fps pb =
     (if poverflow pb = [] then copyInto fps (take (pcount pb) (pbuf pb))
      else
        (let fps1 = copyInto fps (take maxInline (pbuf pb))
         in take maxInline fps1 @ copyInto (drop maxInline fps1) (poverflow pb)))"

section \<open>The pools are transparent\<close>

text \<open>Every pooled item has its tier's length and is zeroed.\<close>

definition poolsOK :: "pools \<Rightarrow> bool" where
  "poolsOK ps \<longleftrightarrow>
     set (fastParams1 ps) \<subseteq> {replicate 1 (mkParam [] [])}
     \<and> set (fastParams2 ps) \<subseteq> {replicate 2 (mkParam [] [])}
     \<and> set (fastParams3 ps) \<subseteq> {replicate 3 (mkParam [] [])}
     \<and> set (bundles1 ps) \<subseteq> {zeroBundle 1}
     \<and> set (bundles2 ps) \<subseteq> {zeroBundle 2}
     \<and> set (bundlesN ps) \<subseteq> {zeroBundle 3}"

lemma poolsOK_empty [simp]: "poolsOK emptyPools"
  by (simp add: poolsOK_def emptyPools_def)

lemma poolGet_rest: "set (snd (poolGet pick new pool)) \<subseteq> set pool"
  by (auto simp: poolGet_def dest: in_set_takeD in_set_dropD)

lemma poolGet_uniform:
  assumes "set pool \<subseteq> {new}"
  shows "fst (poolGet pick new pool) = new"
  using assms by (auto simp: poolGet_def dest: nth_mem)

lemma copyInto_length [simp]: "length dst = length src \<Longrightarrow> copyInto dst src = src"
  by (simp add: copyInto_def)

lemma bundleSlice_params [simp]: "length small = 3 \<Longrightarrow> bundleSlice small ps = ps"
  by (auto simp: bundleSlice_def copyInto_def Let_def)

lemma getReqCtxUnsafe_is_context [simp]: "getReqCtxUnsafe r = requestContext r"
  by (simp add: getReqCtxUnsafe_def requestContext_def split: option.splits)

lemma setReqCtxUnsafe_is_with [simp]: "setReqCtxUnsafe r c = withContext r c"
  by (simp add: setReqCtxUnsafe_def withContext_def)

lemma getFastParams_length:
  assumes "poolsOK ps"
  shows "length (fst (getFastParams pick n ps)) = n" "poolsOK (snd (getFastParams pick n ps))"
proof -
  have u: "fst (poolGet pick (replicate 1 (mkParam [] [])) (fastParams1 ps)) = replicate 1 (mkParam [] [])"
    "fst (poolGet pick (replicate 2 (mkParam [] [])) (fastParams2 ps)) = replicate 2 (mkParam [] [])"
    "fst (poolGet pick (replicate 3 (mkParam [] [])) (fastParams3 ps)) = replicate 3 (mkParam [] [])"
    using assms by (auto simp only: poolsOK_def intro!: poolGet_uniform)
  show "length (fst (getFastParams pick n ps)) = n"
    using u by (auto simp: getFastParams_def Let_def split: prod.splits)
  have r: "set (snd (poolGet pick x pool)) \<subseteq> S" if "set pool \<subseteq> S" for x pool and S :: "Params set"
    using poolGet_rest [of pick x pool] that by blast
  have "snd (getFastParams pick n ps) =
      (if n = 1 then ps\<lparr>fastParams1 := snd (poolGet pick (replicate n (mkParam [] [])) (fastParams1 ps))\<rparr>
       else if n = 2 then ps\<lparr>fastParams2 := snd (poolGet pick (replicate n (mkParam [] [])) (fastParams2 ps))\<rparr>
       else if n = 3 then ps\<lparr>fastParams3 := snd (poolGet pick (replicate n (mkParam [] [])) (fastParams3 ps))\<rparr>
       else ps)"
    by (simp add: getFastParams_def Let_def split_beta)
  then show "poolsOK (snd (getFastParams pick n ps))"
    using assms r unfolding poolsOK_def by simp
qed

lemma putFastParams_OK: "poolsOK ps \<Longrightarrow> poolsOK (putFastParams fps ps)"
  by (auto simp: poolsOK_def putFastParams_def Let_def map_replicate_const)

lemma fillFast_params:
  assumes "bufOK pb" "length fps = pcount pb"
  shows "fillFast fps pb = bufParams pb"
proof (cases "poverflow pb = []")
  case True
  then have "pcount pb \<le> length (pbuf pb)" using assms(1) by (auto simp: bufOK_def)
  then show ?thesis using True assms(2) by (simp add: fillFast_def bufParams_def copyInto_def)
next
  case False
  then have "length (poverflow pb) \<noteq> 0" by simp
  then have c: "pcount pb = maxInline + length (poverflow pb)" "length (pbuf pb) = maxInline"
    using assms(1) unfolding bufOK_def by linarith+
  then show ?thesis
    using False assms(2) by (simp add: fillFast_def bufParams_def copyInto_def Let_def)
qed

lemma dispatch1_transparent:
  assumes "poolsOK ps"
  shows "fst (dispatchParams1Pooled pick ps r h pattern p w) = dispatchParams1 fld r h pattern p w"
    "poolsOK (snd (dispatchParams1Pooled pick ps r h pattern p w))"
proof -
  obtain b0 rest where b: "poolGet pick (zeroBundle 1) (bundles1 ps) = (b0, rest)" by fastforce
  then have z: "b0 = zeroBundle 1" "set rest \<subseteq> set (bundles1 ps)"
    using poolGet_uniform [of "bundles1 ps" "zeroBundle 1" pick] poolGet_rest [of pick "zeroBundle 1" "bundles1 ps"]
      assms by (auto simp: poolsOK_def)
  then show "fst (dispatchParams1Pooled pick ps r h pattern p w) = dispatchParams1 fld r h pattern p w"
    using b by (simp add: dispatchParams1Pooled_def dispatchParams1_def parentOf_def zeroBundle_def Let_def)
  show "poolsOK (snd (dispatchParams1Pooled pick ps r h pattern p w))"
    using z(2) assms b
    by (auto simp: dispatchParams1Pooled_def poolsOK_def Let_def split: option.splits)
qed

lemma dispatch2_transparent:
  assumes "poolsOK ps"
  shows "fst (dispatchParams2Pooled pick ps r h pattern p q w) = dispatchParams2 fld r h pattern p q w"
    "poolsOK (snd (dispatchParams2Pooled pick ps r h pattern p q w))"
proof -
  obtain b0 rest where b: "poolGet pick (zeroBundle 2) (bundles2 ps) = (b0, rest)" by fastforce
  then have z: "b0 = zeroBundle 2" "set rest \<subseteq> set (bundles2 ps)"
    using poolGet_uniform [of "bundles2 ps" "zeroBundle 2" pick] poolGet_rest [of pick "zeroBundle 2" "bundles2 ps"]
      assms by (auto simp: poolsOK_def)
  then show "fst (dispatchParams2Pooled pick ps r h pattern p q w) = dispatchParams2 fld r h pattern p q w"
    using b
    by (simp add: dispatchParams2Pooled_def dispatchParams2_def parentOf_def zeroBundle_def Let_def numeral_2_eq_2)
  show "poolsOK (snd (dispatchParams2Pooled pick ps r h pattern p q w))"
    using z(2) assms b
    by (auto simp: dispatchParams2Pooled_def poolsOK_def Let_def split: option.splits)
qed

lemma dispatchN_transparent:
  assumes "poolsOK ps" "length pslice \<noteq> 1" "length pslice \<noteq> 2"
  shows "fst (dispatchParamsNPooled pick ps r h pattern pslice w) = dispatchWithParams fld r h pattern pslice w"
    "poolsOK (snd (dispatchParamsNPooled pick ps r h pattern pslice w))"
proof -
  obtain b0 rest where b: "poolGet pick (zeroBundle 3) (bundlesN ps) = (b0, rest)" by fastforce
  then have z: "b0 = zeroBundle 3" "set rest \<subseteq> set (bundlesN ps)"
    using poolGet_uniform [of "bundlesN ps" "zeroBundle 3" pick] poolGet_rest [of pick "zeroBundle 3" "bundlesN ps"]
      assms by (auto simp: poolsOK_def)
  have "dispatchWithParams fld r h pattern pslice w
      = h (withContext r (RequestCtx (requestContext r) pslice pattern)) w"
    using assms(2,3) by (auto simp: dispatchWithParams_def Let_def split: list.splits)
  then show "fst (dispatchParamsNPooled pick ps r h pattern pslice w) = dispatchWithParams fld r h pattern pslice w"
    using b z(1) by (simp add: dispatchParamsNPooled_def parentOf_def zeroBundle_def Let_def)
  show "poolsOK (snd (dispatchParamsNPooled pick ps r h pattern pslice w))"
    using z(2) assms(1) b
    by (auto simp: dispatchParamsNPooled_def poolsOK_def Let_def split: option.splits)
qed

end
