(* ===== verification/Mux.thy ===== *)
theory Mux
  imports Handlers
begin

text \<open>
  The state of a \<open>Mux\<close> (mux.go), the registration operations and the frozen configuration.
  An operation returns the new state and the panic that ended it, if any: what a panicking
  operation has already done stays in the state it returns.
\<close>

section \<open>Methods\<close>

definition anyMethods :: "string list" where
  "anyMethods =
     [''GET'', ''HEAD'', ''POST'', ''PUT'', ''PATCH'', ''DELETE'', ''OPTIONS'', ''CONNECT'', ''TRACE'',
      ''QUERY'']"

definition methodNames :: "string list" where
  "methodNames =
     [''GET'', ''HEAD'', ''POST'', ''PUT'', ''PATCH'', ''DELETE'', ''OPTIONS'', ''CONNECT'', ''TRACE'',
      ''QUERY'', ''*'']"

definition idxOPTIONS :: nat where "idxOPTIONS = 6"

definition idxWild :: nat where "idxWild = 10"

definition methodCount :: nat where "methodCount = 11"

definition methodIdx :: "string \<Rightarrow> nat option" where
  "methodIdx m =
     (if m = ''GET'' then Some 0 else if m = ''HEAD'' then Some 1 else if m = ''POST'' then Some 2
      else if m = ''PUT'' then Some 3 else if m = ''PATCH'' then Some 4 else if m = ''DELETE'' then Some 5
      else if m = ''OPTIONS'' then Some 6 else if m = ''CONNECT'' then Some 7
      else if m = ''TRACE'' then Some 8 else if m = ''QUERY'' then Some 9 else if m = ''*'' then Some 10
      else None)"

section \<open>State\<close>

type_synonym 'w tree = "('w handler, 'w fastHandler) node"
type_synonym 'w panicHandlerFn = "request \<Rightarrow> goPanic \<Rightarrow> 'w rw \<Rightarrow> 'w served"

text \<open>The frozen configuration.\<close>

record 'w muxConfig =
  useRawPath :: bool
  caseInsensitive :: bool
  unescapePathValues :: bool
  redirectTrailingSlash :: bool
  redirectFixedPath :: bool
  handleMethodNotAllowed :: bool
  handleOPTIONS :: bool
  hasPanicHandler :: bool
  poolFastParams :: bool
  poolRequestBundle :: bool
  redirectCode :: nat
  notFound :: "'w handler option"
  methodNotAllowed :: "'w handler option"
  globalOPTIONS :: "'w handler option"
  panicHandler :: "'w panicHandlerFn option"
  errorHandler :: "'w errHandler option"

text \<open>The exported fields, which the application sets.\<close>

record 'w muxFields =
  RedirectTrailingSlash :: bool
  RedirectFixedPath :: bool
  HandleMethodNotAllowed :: bool
  HandleOPTIONS :: bool
  CaseInsensitive :: bool
  UseRawPath :: bool
  UnescapePathValues :: bool
  RedirectCode :: nat
  NotFound :: "'w handler option"
  MethodNotAllowed :: "'w handler option"
  GlobalOPTIONS :: "'w handler option"
  ErrorHandler :: "'w errHandler option"
  PanicHandler :: "'w panicHandlerFn option"
  PoolFastParams :: bool
  PoolRequestBundle :: bool

record 'w mwSnapshot =
  snapGen :: nat
  snapMw :: "'w middleware list"

record 'w lazyRedirectEntry =
  entryGen :: nat
  entryHandler :: "'w handler option"

text \<open>
  The other fields. \<open>preHandlerPtr\<close> holds the middleware that \<open>Pre\<close> wrapped around the
  dispatch closure, which reads the state when it runs. The pools are those of the package.
\<close>

record 'w mux =
  treesPtr :: "'w tree option list option"
  cfg :: "'w muxConfig option"
  settings :: "'w muxFields"
  middleware :: "'w middleware list"
  pre :: "'w middleware list"
  fastMiddleware :: "'w fastMiddleware list"
  preHandlerPtr :: "'w middleware list option"
  lazyNotFoundPtr :: "'w handler option option"
  redirectMWPtr :: "'w mwSnapshot option"
  redirectGen :: nat
  lazyRedirectPtr :: "'w lazyRedirectEntry option"
  methodNotAllowedCache :: "string \<Rightarrow> 'w handler option option"
  optionsCache :: "string \<Rightarrow> 'w handler option option"
  rawPathDecodeWarned :: bool
  packagePools :: pools

type_synonym 'w registration = "'w mux \<times> goPanic option"

definition newMux :: "'w mux" where
  "newMux =
     \<lparr>treesPtr = None, cfg = None,
      settings = \<lparr>RedirectTrailingSlash = True, RedirectFixedPath = False, HandleMethodNotAllowed = True,
                HandleOPTIONS = True, CaseInsensitive = False, UseRawPath = False,
                UnescapePathValues = False, RedirectCode = 0, NotFound = None,
                MethodNotAllowed = None, GlobalOPTIONS = None, ErrorHandler = None,
                PanicHandler = None, PoolFastParams = False, PoolRequestBundle = False\<rparr>,
      middleware = [], pre = [], fastMiddleware = [], preHandlerPtr = None, lazyNotFoundPtr = None,
      redirectMWPtr = None, redirectGen = 0, lazyRedirectPtr = None,
      methodNotAllowedCache = Map.empty, optionsCache = Map.empty, rawPathDecodeWarned = False,
      packagePools = emptyPools\<rparr>"

section \<open>Middleware\<close>

definition useMiddleware :: "'w middleware list \<Rightarrow> 'w mux \<Rightarrow> 'w mux" where
  "useMiddleware mws m =
     m\<lparr>middleware := middleware m @ mws,
       lazyNotFoundPtr := None,
       methodNotAllowedCache := Map.empty,
       optionsCache := Map.empty,
       redirectGen := redirectGen m + 1,
       redirectMWPtr := Some \<lparr>snapGen = redirectGen m + 1, snapMw = middleware m @ mws\<rparr>\<rparr>"

definition preMiddleware :: "'w middleware list \<Rightarrow> 'w mux \<Rightarrow> 'w mux" where
  "preMiddleware mws m = m\<lparr>pre := pre m @ mws, preHandlerPtr := Some (pre m @ mws)\<rparr>"

definition useFast :: "'w fastMiddleware list \<Rightarrow> 'w mux \<Rightarrow> 'w mux" where
  "useFast mws m = m\<lparr>fastMiddleware := fastMiddleware m @ mws\<rparr>"

section \<open>Registration\<close>

definition warnRawPathDecodeIfEnabled :: "'w mux \<Rightarrow> 'w mux" where
  "warnRawPathDecodeIfEnabled m =
     (if \<not> UseRawPath (settings m) \<or> \<not> UnescapePathValues (settings m) then m
      else m\<lparr>rawPathDecodeWarned := True\<rparr>)"

text \<open>
  The two-phase insertion: a copy of the array of trees, the insertion into the copied tree of
  the method, and only then the publication of the new array.
\<close>

definition publishRoute ::
  "('w tree \<Rightarrow> goPanic + 'w tree) \<Rightarrow> nat \<Rightarrow> 'w mux \<Rightarrow> 'w registration"
where
  "publishRoute add idx m =
     (let trees = (case treesPtr m of Some old \<Rightarrow> old | None \<Rightarrow> replicate methodCount None);
          root = (case trees ! idx of Some n \<Rightarrow> n | None \<Rightarrow> emptyNode)
      in case add root of
           Inl e \<Rightarrow> (m, Some e)
         | Inr n \<Rightarrow> (m\<lparr>treesPtr := Some (trees[idx := Some n])\<rparr>, None))"

definition handle ::
  "regexLib \<Rightarrow> string \<Rightarrow> string \<Rightarrow> 'w handler option \<Rightarrow> 'w mux \<Rightarrow> 'w registration"
where
  "handle rc meth pattern h m =
     (if meth = [] then (m, Some EmptyMethod)
      else if pattern = [] \<or> hd pattern \<noteq> CHR ''/'' then (m, Some (PathWithoutSlash pattern))
      else if h = None then (m, Some NilHandler)
      else
        (let m1 = warnRawPathDecodeIfEnabled m in
         case methodIdx meth of
           None \<Rightarrow> (m1, Some (UnsupportedMethod meth))
         | Some idx \<Rightarrow>
             publishRoute (\<lambda>root. addRoute rc root pattern (wrapMiddleware h (middleware m1))) idx m1))"

definition handleFunc ::
  "regexLib \<Rightarrow> string \<Rightarrow> string \<Rightarrow> 'w serve option \<Rightarrow> 'w mux \<Rightarrow> 'w registration"
where
  "handleFunc rc meth pattern h m = handle rc meth pattern (Some (Func h)) m"

definition handleE ::
  "regexLib \<Rightarrow> string \<Rightarrow> string \<Rightarrow> 'w serveE option \<Rightarrow> 'w mux \<Rightarrow> 'w registration"
where
  "handleE rc meth pattern h m = handle rc meth pattern (Some (ErrorFunc h)) m"

definition handleFast ::
  "regexLib \<Rightarrow> string \<Rightarrow> string \<Rightarrow> 'w fastHandler option \<Rightarrow> 'w mux \<Rightarrow> 'w registration"
where
  "handleFast rc meth pattern h m =
     (if meth = [] then (m, Some EmptyMethod)
      else if pattern = [] \<or> hd pattern \<noteq> CHR ''/'' then (m, Some (PathWithoutSlash pattern))
      else if h = None then (m, Some NilHandler)
      else
        (let m1 = warnRawPathDecodeIfEnabled m in
         if middleware m1 \<noteq> [] then (m1, Some FastWithMiddleware)
         else
           case methodIdx meth of
             None \<Rightarrow> (m1, Some (UnsupportedMethod meth))
           | Some idx \<Rightarrow>
               publishRoute
                 (\<lambda>root. addRouteFast rc root pattern (wrapFastMiddleware h (fastMiddleware m1))) idx m1))"

text \<open>The helpers of one method each: GET and the others, for the three kinds of handlers.\<close>

definition GETFast where "GETFast rc pattern h m = handleFast rc ''GET'' pattern h m"
definition HEADFast where "HEADFast rc pattern h m = handleFast rc ''HEAD'' pattern h m"
definition POSTFast where "POSTFast rc pattern h m = handleFast rc ''POST'' pattern h m"
definition PUTFast where "PUTFast rc pattern h m = handleFast rc ''PUT'' pattern h m"
definition PATCHFast where "PATCHFast rc pattern h m = handleFast rc ''PATCH'' pattern h m"
definition DELETEFast where "DELETEFast rc pattern h m = handleFast rc ''DELETE'' pattern h m"
definition OPTIONSFast where "OPTIONSFast rc pattern h m = handleFast rc ''OPTIONS'' pattern h m"
definition CONNECTFast where "CONNECTFast rc pattern h m = handleFast rc ''CONNECT'' pattern h m"
definition TRACEFast where "TRACEFast rc pattern h m = handleFast rc ''TRACE'' pattern h m"
definition QUERYFast where "QUERYFast rc pattern h m = handleFast rc ''QUERY'' pattern h m"

definition GET where "GET rc pattern h m = handleFunc rc ''GET'' pattern h m"
definition HEAD where "HEAD rc pattern h m = handleFunc rc ''HEAD'' pattern h m"
definition POST where "POST rc pattern h m = handleFunc rc ''POST'' pattern h m"
definition PUT where "PUT rc pattern h m = handleFunc rc ''PUT'' pattern h m"
definition PATCH where "PATCH rc pattern h m = handleFunc rc ''PATCH'' pattern h m"
definition DELETE where "DELETE rc pattern h m = handleFunc rc ''DELETE'' pattern h m"
definition OPTIONS where "OPTIONS rc pattern h m = handleFunc rc ''OPTIONS'' pattern h m"
definition CONNECT where "CONNECT rc pattern h m = handleFunc rc ''CONNECT'' pattern h m"
definition TRACE where "TRACE rc pattern h m = handleFunc rc ''TRACE'' pattern h m"
definition QUERY where "QUERY rc pattern h m = handleFunc rc ''QUERY'' pattern h m"

definition GETE where "GETE rc pattern h m = handleE rc ''GET'' pattern h m"
definition HEADE where "HEADE rc pattern h m = handleE rc ''HEAD'' pattern h m"
definition POSTE where "POSTE rc pattern h m = handleE rc ''POST'' pattern h m"
definition PUTE where "PUTE rc pattern h m = handleE rc ''PUT'' pattern h m"
definition PATCHE where "PATCHE rc pattern h m = handleE rc ''PATCH'' pattern h m"
definition DELETEE where "DELETEE rc pattern h m = handleE rc ''DELETE'' pattern h m"
definition OPTIONSE where "OPTIONSE rc pattern h m = handleE rc ''OPTIONS'' pattern h m"
definition QUERYE where "QUERYE rc pattern h m = handleE rc ''QUERY'' pattern h m"

text \<open>Registering for several methods stops at the first panic; what came before it stays.\<close>

fun forEach :: "('a \<Rightarrow> 'w mux \<Rightarrow> 'w registration) \<Rightarrow> 'a list \<Rightarrow> 'w mux \<Rightarrow> 'w registration" where
  "forEach f [] m = (m, None)"
| "forEach f (x # xs) m =
     (case f x m of
        (m', None) \<Rightarrow> forEach f xs m'
      | (m', Some e) \<Rightarrow> (m', Some e))"

definition ANY :: "regexLib \<Rightarrow> string \<Rightarrow> 'w serve option \<Rightarrow> 'w mux \<Rightarrow> 'w registration" where
  "ANY rc pattern h m = forEach (\<lambda>meth. handleFunc rc meth pattern h) anyMethods m"

definition matchMethods ::
  "regexLib \<Rightarrow> string list \<Rightarrow> string \<Rightarrow> 'w handler option \<Rightarrow> 'w mux \<Rightarrow> 'w registration"
where
  "matchMethods rc methods pattern h m = forEach (\<lambda>meth. handle rc meth pattern h) methods m"

section \<open>Mounting\<close>

definition mountAt :: "regexLib \<Rightarrow> string \<Rightarrow> 'w handler option \<Rightarrow> 'w mux \<Rightarrow> 'w registration" where
  "mountAt rc prefix h m =
     (case h of
        None \<Rightarrow> (m, Some MountNilHandler)
      | Some g \<Rightarrow>
          (case mountPrefix prefix of
             Inl e \<Rightarrow> (m, Some e)
           | Inr (q, hasParam) \<Rightarrow>
               handle rc ''*'' (q @ ''/*mux_mount'') (Some (MountFunc q hasParam g)) m))"

definition mountMux :: "regexLib \<Rightarrow> string \<Rightarrow> 'w handler option \<Rightarrow> 'w mux \<Rightarrow> 'w registration" where
  "mountMux rc prefix h m = mountAt rc prefix h m"

definition checkServeFilesRawPath :: "'w mux \<Rightarrow> goPanic option" where
  "checkServeFilesRawPath m =
     (if UseRawPath (settings m) \<and> UnescapePathValues (settings m) then Some ServeFilesRawPath else None)"

text \<open>The name after the last "/*" of a file prefix.\<close>

definition filesParam :: "string \<Rightarrow> goPanic + string" where
  "filesParam prefix =
     (case strLastIndex prefix ''/*'' of
        None \<Rightarrow> Inl (ServeFilesPrefix prefix)
      | Some i \<Rightarrow>
          (let paramName = drop (i + 2) prefix in
           if paramName = [] then Inl (ServeFilesPrefix prefix) else Inr paramName))"

text \<open>\<open>root\<close> is the file server over the given file system; None is a nil file system.\<close>

definition serveFiles :: "regexLib \<Rightarrow> string \<Rightarrow> 'w serve option \<Rightarrow> 'w mux \<Rightarrow> 'w registration" where
  "serveFiles rc prefix root m =
     (case root of
        None \<Rightarrow> (m, Some ServeFilesNilRoot)
      | Some fs \<Rightarrow>
          (case checkServeFilesRawPath m of
             Some e \<Rightarrow> (m, Some e)
           | None \<Rightarrow>
               (case filesParam prefix of
                  Inl e \<Rightarrow> (m, Some e)
                | Inr paramName \<Rightarrow>
                    forEach (\<lambda>meth. handle rc meth prefix (Some (FilesFunc paramName fs)))
                      [''GET'', ''HEAD''] m)))"

section \<open>The frozen configuration\<close>

definition frozenConfig :: "'w muxFields \<Rightarrow> 'w muxConfig" where
  "frozenConfig f =
     \<lparr>useRawPath = UseRawPath f, caseInsensitive = CaseInsensitive f,
      unescapePathValues = UnescapePathValues f, redirectTrailingSlash = RedirectTrailingSlash f,
      redirectFixedPath = RedirectFixedPath f, handleMethodNotAllowed = HandleMethodNotAllowed f,
      handleOPTIONS = HandleOPTIONS f, hasPanicHandler = (PanicHandler f \<noteq> None),
      poolFastParams = PoolFastParams f, poolRequestBundle = PoolRequestBundle f,
      redirectCode = RedirectCode f, notFound = NotFound f, methodNotAllowed = MethodNotAllowed f,
      globalOPTIONS = GlobalOPTIONS f, panicHandler = PanicHandler f, errorHandler = ErrorHandler f\<rparr>"

text \<open>\<open>config\<close>: the stored snapshot, or a new one that the compare-and-swap stores.\<close>

definition config :: "'w mux \<Rightarrow> 'w muxConfig \<times> 'w mux" where
  "config m =
     (case cfg m of
        Some c \<Rightarrow> (c, m)
      | None \<Rightarrow> (let c = frozenConfig (settings m) in (c, m\<lparr>cfg := Some c\<rparr>)))"

definition rebuild :: "'w mux \<Rightarrow> 'w mux" where
  "rebuild m =
     m\<lparr>cfg := None, lazyNotFoundPtr := None, lazyRedirectPtr := None,
       methodNotAllowedCache := Map.empty, optionsCache := Map.empty\<rparr>"

end
