(* ===== verification/Dispatch.thy ===== *)
theory Dispatch
  imports Mux
begin

text \<open>
  Serving a request (mux.go): the routing decision, the lazily built handlers for 404, 405,
  OPTIONS and redirects, and \<open>dispatch\<close> with \<open>ServeHTTP\<close> around it. The decision reads the
  trees and the frozen configuration only; carrying it out reads and fills the caches and pools.
\<close>

section \<open>Allowed methods\<close>

text \<open>
  The entry of \<open>allowTable\<close> for a bit mask over the method indices; entries with the bits of
  OPTIONS or "*" stay empty.
\<close>

definition maskBit :: "nat \<Rightarrow> nat \<Rightarrow> bool" where
  "maskBit bits i \<longleftrightarrow> odd (bits div 2 ^ i)"

definition allowEntry :: "nat \<Rightarrow> string" where
  "allowEntry bits =
     (if bits = 0 \<or> maskBit bits idxOPTIONS \<or> maskBit bits idxWild then []
      else
        (let names = map (\<lambda>i. methodNames ! i) (filter (maskBit bits) [0..<methodCount])
         in joinStr '', '' names @ '', '' @ ''OPTIONS''))"

text \<open>The loop over the trees: the bits of the methods whose tree finds the path.\<close>

fun allowedMask :: "string \<Rightarrow> string \<Rightarrow> (nat \<times> 'w tree option) list \<Rightarrow> nat \<Rightarrow> goPanic + nat" where
  "allowedMask urlPath reqMethod [] bits = Inr bits"
| "allowedMask urlPath reqMethod ((i, root) # rest) bits =
     (case root of
        None \<Rightarrow> allowedMask urlPath reqMethod rest bits
      | Some n \<Rightarrow>
          if i = idxOPTIONS \<or> i = idxWild \<or> methodNames ! i = reqMethod
          then allowedMask urlPath reqMethod rest bits
          else
            (case hasHandler n urlPath of
               Inl e \<Rightarrow> Inl e
             | Inr b \<Rightarrow> allowedMask urlPath reqMethod rest (if b then bits + 2 ^ i else bits)))"

definition allowed :: "'w tree option list option \<Rightarrow> string \<Rightarrow> string \<Rightarrow> goPanic + string" where
  "allowed trees urlPath reqMethod =
     (case trees of
        None \<Rightarrow> Inr []
      | Some ts \<Rightarrow> map_sum id allowEntry (allowedMask urlPath reqMethod (enumerate 0 ts) 0))"

section \<open>Redirect targets\<close>

definition cleanedPath :: "'w tree \<Rightarrow> string \<Rightarrow> goPanic + string option" where
  "cleanedPath root p =
     (let cleaned = pathClean p in
      if cleaned = p then Inr None
      else
        (case getValue root cleaned None False of
           Inl e \<Rightarrow> Inl e
         | Inr (res, _) \<Rightarrow> Inr (if found res then Some cleaned else None)))"

definition resolveRedirectCode :: "'w muxConfig \<Rightarrow> string \<Rightarrow> nat" where
  "resolveRedirectCode c meth =
     (if redirectCode c \<noteq> 0 then redirectCode c
      else if meth = ''GET'' \<or> meth = ''HEAD'' then 301
      else 307)"

definition toggleSlash :: "string \<Rightarrow> string" where
  "toggleSlash urlPath =
     (if length urlPath > 1 \<and> last urlPath = CHR ''/'' then butlast urlPath else urlPath @ ''/'')"

text \<open>The mount prefix goes in front of the new path, and the query behind it.\<close>

definition redirectTo :: "request \<Rightarrow> string \<Rightarrow> string" where
  "redirectTo r newPath =
     (let mp = mountPrefixFrom (requestContext r)
      in buildRedirectTarget (if mp \<noteq> [] then mp @ newPath else newPath) (uRawQuery (rURL r)))"

section \<open>The decision\<close>

text \<open>
  \<open>Serve\<close> carries the leaf's handlers, its pattern and the captured parameters, and says
  whether it was found in the request method's own tree or in that of "*".
\<close>

datatype 'w decision =
    Serve bool "'w handler option" "'w fastHandler option" string paramsBuf
  | RedirectTo string nat
  | AutoOptions string
  | NotAllowed string
  | NoRoute

definition urlPathOf :: "'w muxConfig \<Rightarrow> request \<Rightarrow> string" where
  "urlPathOf c r =
     (if useRawPath c \<and> uRawPath (rURL r) \<noteq> [] then uRawPath (rURL r) else uPath (rURL r))"

text \<open>The lookup in the method's tree: without parameter handling where the root allows it.\<close>

definition primaryLookup ::
  "'w muxConfig \<Rightarrow> 'w tree \<Rightarrow> string
     \<Rightarrow> goPanic + ('w handler, 'w fastHandler) outcome \<times> paramsBuf"
where
  "primaryLookup c root urlPath =
     (if nmaxParams (ndata root) = 0
      then map_sum id (\<lambda>res. (res, emptyBuf)) (getValueStatic root urlPath (caseInsensitive c))
      else map_sum id (\<lambda>(res, ps). (res, case ps of Some pb \<Rightarrow> pb | None \<Rightarrow> emptyBuf))
             (getValue root urlPath (Some emptyBuf) (caseInsensitive c)))"

definition primaryDecision ::
  "'w muxConfig \<Rightarrow> 'w tree option list option \<Rightarrow> request \<Rightarrow> goPanic + 'w decision option"
where
  "primaryDecision c trees r =
     (let urlPath = urlPathOf c r;
          root = (case trees of
                    None \<Rightarrow> None
                  | Some ts \<Rightarrow> (case methodIdx (rMethod r) of None \<Rightarrow> None | Some idx \<Rightarrow> ts ! idx))
      in case root of
           None \<Rightarrow> Inr None
         | Some n \<Rightarrow>
             (case primaryLookup c n urlPath of
                Inl e \<Rightarrow> Inl e
              | Inr (res, pb) \<Rightarrow>
                  if found res
                  then Inr (Some (Serve False (ohandler res) (ofast res) (opattern res) pb))
                  else if rMethod r \<noteq> ''CONNECT'' \<and> urlPath \<noteq> ''/'' then
                    (let code = resolveRedirectCode c (rMethod r) in
                     if otsr res = Some True \<and> redirectTrailingSlash c
                     then Inr (Some (RedirectTo (redirectTo r (toggleSlash urlPath)) code))
                     else if redirectFixedPath c then
                       (case cleanedPath n urlPath of
                          Inl e \<Rightarrow> Inl e
                        | Inr None \<Rightarrow> Inr None
                        | Inr (Some fixed) \<Rightarrow> Inr (Some (RedirectTo (redirectTo r fixed) code)))
                     else Inr None)
                  else Inr None))"

definition starDecision ::
  "'w muxConfig \<Rightarrow> 'w tree option list option \<Rightarrow> request \<Rightarrow> goPanic + 'w decision option"
where
  "starDecision c trees r =
     (let urlPath = urlPathOf c r in
      case (case trees of None \<Rightarrow> None | Some ts \<Rightarrow> ts ! idxWild) of
        None \<Rightarrow> Inr None
      | Some n \<Rightarrow>
          (let ps2Buf = (if nmaxParams (ndata n) > 0 then Some emptyBuf else None) in
           case getValue n urlPath ps2Buf (caseInsensitive c) of
             Inl e \<Rightarrow> Inl e
           | Inr (res, ps2) \<Rightarrow>
               if found res
               then Inr (Some (Serve True (ohandler res) (ofast res) (opattern res)
                                 (case ps2 of Some pb \<Rightarrow> pb | None \<Rightarrow> emptyBuf)))
               else if otsr res = Some True \<and> redirectTrailingSlash c \<and> rMethod r \<noteq> ''CONNECT''
                       \<and> urlPath \<noteq> ''/''
               then Inr (Some (RedirectTo (redirectTo r (toggleSlash urlPath))
                                 (resolveRedirectCode c (rMethod r))))
               else Inr None))"

definition fallbackDecision ::
  "'w muxConfig \<Rightarrow> 'w tree option list option \<Rightarrow> request \<Rightarrow> goPanic + 'w decision"
where
  "fallbackDecision c trees r =
     (let urlPath = urlPathOf c r in
      if rMethod r = ''OPTIONS'' \<and> handleOPTIONS c then
        map_sum id (\<lambda>allow. if allow \<noteq> [] then AutoOptions allow else NoRoute)
          (allowed trees urlPath (rMethod r))
      else if handleMethodNotAllowed c then
        map_sum id (\<lambda>allow. if allow \<noteq> [] then NotAllowed allow else NoRoute)
          (allowed trees urlPath (rMethod r))
      else Inr NoRoute)"

definition decide ::
  "'w muxConfig \<Rightarrow> 'w tree option list option \<Rightarrow> request \<Rightarrow> goPanic + 'w decision"
where
  "decide c trees r =
     (case primaryDecision c trees r of
        Inl e \<Rightarrow> Inl e
      | Inr (Some d) \<Rightarrow> Inr d
      | Inr None \<Rightarrow>
          (case starDecision c trees r of
             Inl e \<Rightarrow> Inl e
           | Inr (Some d) \<Rightarrow> Inr d
           | Inr None \<Rightarrow> fallbackDecision c trees r))"

section \<open>Calling the handler of a route\<close>

definition unescapeParam :: "'w muxConfig \<Rightarrow> Param \<Rightarrow> Param" where
  "unescapeParam c p =
     (if unescapePathValues c \<and> useRawPath c then
        (case pathUnescape (Value p) of Some v \<Rightarrow> p\<lparr>Value := v\<rparr> | None \<Rightarrow> p)
      else p)"

definition serveFast ::
  "nat \<Rightarrow> 'w muxConfig \<Rightarrow> pools \<Rightarrow> request \<Rightarrow> 'w fastHandler \<Rightarrow> paramsBuf \<Rightarrow> 'w rw
     \<Rightarrow> 'w served \<times> pools"
where
  "serveFast pick c ps r fast pb w =
     (let (fps0, ps1) = (if poolFastParams c then getFastParams pick (pcount pb) ps
                         else (replicate (pcount pb) (mkParam [] []), ps));
          fps = map (unescapeParam c) (fillFast fps0 pb);
          served = fast r fps w
      in (served,
          if poolFastParams c \<and> snd served = None then putFastParams fps ps1 else ps1))"

definition servePrimary ::
  "libs \<Rightarrow> nat \<Rightarrow> 'w muxConfig \<Rightarrow> pools \<Rightarrow> request \<Rightarrow> 'w serve \<Rightarrow> string \<Rightarrow> paramsBuf \<Rightarrow> 'w rw
     \<Rightarrow> 'w served \<times> pools"
where
  "servePrimary L pick c ps r h pattern pb w =
     (let pooled = (poolRequestBundle c \<and> hasReqCtxField L) in
      if pcount pb = 1 then
        (let p0 = unescapeParam c (pbuf pb ! 0) in
         if pooled then dispatchParams1Pooled pick ps r h pattern p0 w
         else (dispatchParams1 (hasReqCtxField L) r h pattern p0 w, ps))
      else if pcount pb = 2 then
        (let p0 = unescapeParam c (pbuf pb ! 0); p1 = unescapeParam c (pbuf pb ! 1) in
         if pooled then dispatchParams2Pooled pick ps r h pattern p0 p1 w
         else (dispatchParams2 (hasReqCtxField L) r h pattern p0 p1 w, ps))
      else
        (let pslice = map (unescapeParam c) (bufParams pb) in
         if pooled then dispatchParamsNPooled pick ps r h pattern pslice w
         else (dispatchWithParams (hasReqCtxField L) r h pattern pslice w, ps)))"

text \<open>The same for a leaf of the "*" tree, which never uses the bundle pools.\<close>

definition serveStar ::
  "libs \<Rightarrow> 'w muxConfig \<Rightarrow> request \<Rightarrow> 'w serve \<Rightarrow> string \<Rightarrow> paramsBuf \<Rightarrow> 'w rw \<Rightarrow> 'w served"
where
  "serveStar L c r h pattern pb w =
     dispatchWithParams (hasReqCtxField L) r h pattern (map (unescapeParam c) (bufParams pb)) w"

definition serveFound ::
  "libs \<Rightarrow> nat \<Rightarrow> 'w muxConfig \<Rightarrow> pools \<Rightarrow> request \<Rightarrow> bool \<Rightarrow> 'w handler option
     \<Rightarrow> 'w fastHandler option \<Rightarrow> string \<Rightarrow> paramsBuf \<Rightarrow> 'w rw \<Rightarrow> 'w served \<times> pools"
where
  "serveFound L pick c ps r star h fast pattern pb w =
     (let run = runOption L (errorHandler c) h in
      if pcount pb > 0 then
        (case fast of
           Some f \<Rightarrow> serveFast pick c ps r f pb w
         | None \<Rightarrow>
             if star then (serveStar L c r run pattern pb w, ps)
             else servePrimary L pick c ps r run pattern pb w)
      else
        (case fast of
           Some f \<Rightarrow> (f r [] w, ps)
         | None \<Rightarrow> (run r w, ps)))"

section \<open>Lazily built handlers\<close>

definition lazyNotFound :: "'w muxConfig \<Rightarrow> 'w mux \<Rightarrow> 'w handler option \<times> 'w mux" where
  "lazyNotFound c m =
     (case lazyNotFoundPtr m of
        Some h \<Rightarrow> (h, m)
      | None \<Rightarrow>
          (let base = (case notFound c of Some h \<Rightarrow> h | None \<Rightarrow> Func (Some httpNotFound));
               h = wrapMiddleware (Some base) (middleware m)
           in (h, m\<lparr>lazyNotFoundPtr := Some h\<rparr>)))"

definition lazyMethodNotAllowed ::
  "'w muxConfig \<Rightarrow> string \<Rightarrow> 'w mux \<Rightarrow> 'w handler option \<times> 'w mux"
where
  "lazyMethodNotAllowed c allow m =
     (case methodNotAllowedCache m allow of
        Some h \<Rightarrow> (h, m)
      | None \<Rightarrow>
          (let h = wrapMiddleware (Some (NotAllowedFunc allow (methodNotAllowed c))) (middleware m)
           in (h, m\<lparr>methodNotAllowedCache := (methodNotAllowedCache m)(allow \<mapsto> h)\<rparr>)))"

definition lazyOPTIONS :: "'w muxConfig \<Rightarrow> string \<Rightarrow> 'w mux \<Rightarrow> 'w handler option \<times> 'w mux" where
  "lazyOPTIONS c allow m =
     (case optionsCache m allow of
        Some h \<Rightarrow> (h, m)
      | None \<Rightarrow>
          (let h = wrapMiddleware (Some (OptionsFunc allow (globalOPTIONS c))) (middleware m)
           in (h, m\<lparr>optionsCache := (optionsCache m)(allow \<mapsto> h)\<rparr>)))"

definition lazyRedirect :: "'w mwSnapshot \<Rightarrow> 'w mux \<Rightarrow> 'w handler option \<times> 'w mux" where
  "lazyRedirect snap m =
     (let h = wrapMiddleware (Some RedirectFunc) (snapMw snap);
          entry = \<lparr>entryGen = snapGen snap, entryHandler = h\<rparr>
      in case lazyRedirectPtr m of
           Some e \<Rightarrow>
             if entryGen e = snapGen snap then (entryHandler e, m)
             else if entryGen e > snapGen snap then (h, m)
             else (h, m\<lparr>lazyRedirectPtr := Some entry\<rparr>)
         | None \<Rightarrow> (h, m\<lparr>lazyRedirectPtr := Some entry\<rparr>))"

definition serveRedirect ::
  "libs \<Rightarrow> 'w muxConfig \<Rightarrow> string \<Rightarrow> nat \<Rightarrow> 'w mux \<Rightarrow> request \<Rightarrow> 'w rw \<Rightarrow> 'w served \<times> 'w mux"
where
  "serveRedirect L c target code m r w =
     (case redirectMWPtr m of
        None \<Rightarrow> (ok (writeRedirect (relRef L) r target code w), m)
      | Some snap \<Rightarrow>
          if snapMw snap = [] then (ok (writeRedirect (relRef L) r target code w), m)
          else
            (let (h, m') = lazyRedirect snap m;
                 req = (if hasReqCtxField L
                        then setReqCtxUnsafe r (RedirectCtx (getReqCtxUnsafe r) target code)
                        else withContext r (RedirectCtx (requestContext r) target code))
             in (runOption L (errorHandler c) h req w, m')))"

section \<open>Serving\<close>

definition execute ::
  "libs \<Rightarrow> nat \<Rightarrow> 'w muxConfig \<Rightarrow> 'w decision \<Rightarrow> 'w mux \<Rightarrow> request \<Rightarrow> 'w rw \<Rightarrow> 'w served \<times> 'w mux"
where
  "execute L pick c d m r w =
     (case d of
        Serve star h fast pattern pb \<Rightarrow>
          (let (served, ps) = serveFound L pick c (packagePools m) r star h fast pattern pb w
           in (served, m\<lparr>packagePools := ps\<rparr>))
      | RedirectTo target code \<Rightarrow> serveRedirect L c target code m r w
      | AutoOptions allow \<Rightarrow>
          (let (h, m') = lazyOPTIONS c allow m in (runOption L (errorHandler c) h r w, m'))
      | NotAllowed allow \<Rightarrow>
          (let (h, m') = lazyMethodNotAllowed c allow m in (runOption L (errorHandler c) h r w, m'))
      | NoRoute \<Rightarrow>
          (let (h, m') = lazyNotFound c m in (runOption L (errorHandler c) h r w, m')))"

definition dispatch ::
  "libs \<Rightarrow> nat \<Rightarrow> 'w muxConfig \<Rightarrow> 'w mux \<Rightarrow> request \<Rightarrow> 'w rw \<Rightarrow> 'w served \<times> 'w mux"
where
  "dispatch L pick c m r w =
     (case decide c (treesPtr m) r of
        Inl e \<Rightarrow> ((w, Some e), m)
      | Inr d \<Rightarrow> execute L pick c d m r w)"

definition recoverPanic :: "'w muxConfig \<Rightarrow> request \<Rightarrow> 'w served \<Rightarrow> 'w served" where
  "recoverPanic c r served =
     (case snd served of
        None \<Rightarrow> served
      | Some p \<Rightarrow> (case panicHandler c of None \<Rightarrow> nilCall (fst served) | Some g \<Rightarrow> g r p (fst served)))"

text \<open>
  The chain of \<open>Pre\<close> ends in the dispatch closure, which middleware may call any number of
  times. The state returned with it is the one the chain starts from: what the calls leave in
  the caches and pools is described by the step relation of the next theory.
\<close>

definition serveInner ::
  "libs \<Rightarrow> nat \<Rightarrow> 'w muxConfig \<Rightarrow> 'w mux \<Rightarrow> request \<Rightarrow> 'w rw \<Rightarrow> 'w served \<times> 'w mux"
where
  "serveInner L pick c m r w =
     (case preHandlerPtr m of
        Some mws \<Rightarrow> (wrapServe (\<lambda>r w. fst (dispatch L pick (fst (config m)) m r w)) mws r w, m)
      | None \<Rightarrow> dispatch L pick c m r w)"

definition dispatchWithRecover ::
  "libs \<Rightarrow> nat \<Rightarrow> 'w muxConfig \<Rightarrow> 'w mux \<Rightarrow> request \<Rightarrow> 'w rw \<Rightarrow> 'w served \<times> 'w mux"
where
  "dispatchWithRecover L pick c m r w =
     (let (served, m') = serveInner L pick c m r w in (recoverPanic c r served, m'))"

definition serveHTTP :: "libs \<Rightarrow> nat \<Rightarrow> 'w mux \<Rightarrow> request \<Rightarrow> 'w rw \<Rightarrow> 'w served \<times> 'w mux" where
  "serveHTTP L pick m r w =
     (let (c, m1) = config m in
      if hasPanicHandler c then dispatchWithRecover L pick c m1 r w
      else serveInner L pick c m1 r w)"

end
