(* ===== verification/TreeControl.thy ===== *)
theory TreeControl
  imports TreeMatch
begin

text \<open>
  What the walks do with the parameter buffer and without one: a buffer stays consistent to the
  end, and a walk with a nil buffer takes the same decisions.
\<close>

section \<open>The buffer at the end of a walk\<close>

lemma gbRun_bufOK:
  assumes "stackOK st" "bufOK pb" "framesFit (framesOf st) (pcount pb)"
    and "gbRun ci via n path (Some pb) st saw tsr = Inr (res, qs)"
  shows "\<exists>qb. qs = Some qb \<and> bufOK qb"
  using assms
proof (induction ci via n path "Some pb" st saw tsr arbitrary: pb rule: gbRun.induct)
  case (1 ci via n path st saw tsr)
  show ?case
  proof (cases "gvStep ci via n path (Some pb)")
    case (Inl e)
    then show ?thesis using "1.prems"(4) by (subst (asm) gbRun.simps) (simp add: gbStep_eq)
  next
    case (Inr s)
    obtain qb where qb: "stepParams s = Some qb" "bufOK qb"
      "bufParams qb = bufParams pb \<or> bufParams qb = bufParams pb @ capture via n path"
      "goesOn s \<Longrightarrow> bufParams qb = bufParams pb @ capture via n path"
      using gvStep_params [OF Inr "1.prems"(2)] by metis
    have le: "pcount pb \<le> pcount qb"
      using qb(3) length_bufParams [OF "1.prems"(2)] length_bufParams [OF qb(2)]
      by (metis le_add1 length_append order_refl)
    show ?thesis
    proof (cases s)
      case (Enter m p' qs' v fk)
      then have st: "gbStep ci via n path (Some pb) = Inr (Enter m p' (Some qb) v fk)"
        using Inr qb(1) by (simp add: gbStep_eq)
      have run: "gbRun ci v m p' (Some qb) (if fk then pushFrame (mkFrame n p' (Some qb)) st else st) saw tsr
          = Inr (res, qs)"
        using "1.prems"(4) by (subst (asm) gbRun.simps) (simp add: st)
      have "framesFit (framesOf (if fk then pushFrame (mkFrame n p' (Some qb)) st else st)) (pcount qb)"
      proof (cases fk)
        case True
        have "capture via n path = []" using Inr Enter True by (auto dest: gvStep_fork_capture)
        then have "pcount qb = pcount pb"
          using qb(3) length_bufParams [OF "1.prems"(2)] length_bufParams [OF qb(2)] by auto
        then show ?thesis
          using True bt.content_push(1) [OF "1.prems"(1)] "1.prems"(3) qb(2)
          by (simp add: framesFit_Cons mkFrame_def bufOK_def)
      qed (use framesFit_mono [OF "1.prems"(3) le] in simp)
      moreover have "stackOK (if fk then pushFrame (mkFrame n p' (Some qb)) st else st)"
        using "1.prems"(1) stackOK_push [OF "1.prems"(1)] by simp
      ultimately show ?thesis using "1.hyps"(1) [OF st refl] qb(2) run by blast
    next
      case (Break r qs')
      then have st: "gbStep ci via n path (Some pb) = Inr (Break r (Some qb))"
        using Inr qb(1) by (simp add: gbStep_eq)
      define t1 where "t1 = (case otsr r of None \<Rightarrow> tsr | Some t \<Rightarrow> t)"
      show ?thesis
      proof (cases "found r \<or> stackN st = 0")
        case True
        then show ?thesis
          using "1.prems"(4) qb(2) by (subst (asm) gbRun.simps) (auto simp: st Let_def split: if_splits)
      next
        case False
        then obtain fr frs where Cons: "framesOf st = fr # frs"
          by (cases "framesOf st") (auto simp: framesOf_def frames_def split: nat.splits)
        obtain st' where pop: "popFrame st = (Some fr, st')" and st': "stackOK st'" "framesOf st' = frs"
          using bt.content_pop [OF "1.prems"(1) Cons] by (cases "popFrame st") auto
        have cnt: "fparamCount fr \<le> pcount pb" "foverflowLen fr = fparamCount fr - maxInline"
          "framesFit frs (fparamCount fr)"
          using "1.prems"(3) Cons by (simp_all add: framesFit_Cons)
        define rb where "rb = bufRewind qb (fparamCount fr) (foverflowLen fr)"
        have rb: "bufOK rb" "pcount rb = fparamCount fr"
          using bufRewind_view [OF qb(2), of "fparamCount fr"] cnt le unfolding rb_def by auto
        have ne: "nchildren (fparent fr) \<noteq> []"
          using "1.prems"(4) False pop by (subst (asm) gbRun.simps) (auto simp: st Let_def)
        have "gbRun ci True (last (nchildren (fparent fr))) (fpath fr) (Some rb) st' (saw \<or> t1) t1
            = Inr (res, qs)"
          using "1.prems"(4) False pop ne
          by (subst (asm) gbRun.simps) (simp add: st t1_def rb_def Let_def)
        then show ?thesis
          using "1.hyps"(2) [OF st refl t1_def _ refl _ pop [symmetric] refl ne] False rb st' cnt
          by (simp add: rb_def)
      qed
    qed
  qed
qed

lemma getValue_bufOK:
  assumes "getValue n path (Some pb) ci = Inr (res, qs)" "bufOK pb"
  shows "\<exists>qb. qs = Some qb \<and> bufOK qb"
proof -
  obtain r ps cb where g: "gvRun ci False n path (Some pb) False = Inr (r, ps, cb)"
    using assms(1) by (auto simp: getValue_def split: sum.splits)
  have q: "\<exists>qb. ps = Some qb \<and> bufOK qb"
    using gvRun_search [OF assms(2), of ci False n path False] by (simp add: g)
  then obtain qb where qb: "ps = Some qb" "bufOK qb" by blast
  show ?thesis
  proof (cases "found r \<or> \<not> cb")
    case True
    then show ?thesis using assms(1) g q by (auto simp: getValue_def)
  next
    case False
    then have "gbRun ci False n path (Some (bufRewind qb 0 0)) emptyStack False False = Inr (res, qs)"
      using assms(1) g qb(1) by (simp add: getValue_def getValueBacktrack_def)
    then show ?thesis
      using gbRun_bufOK [OF bt.content_emp(2), of "bufRewind qb 0 0"] bufRewind_view [OF qb(2), of 0]
      by (simp add: bt.content_emp framesFit_def)
  qed
qed

section \<open>A nil buffer\<close>

lemma gvStep_None_params: "gvStep ci via n path None = Inr s \<Longrightarrow> stepParams s = None"
  by (auto simp: gvStep_def gvStatic_def gvWild_def gvAfterSegment_def addParam_def Let_def
      split: if_splits option.splits nodeType.splits)

lemma gvStep_Some_params: "gvStep ci via n path (Some pb) = Inr s \<Longrightarrow> \<exists>qb. stepParams s = Some qb"
  by (auto simp: gvStep_def gvStatic_def gvWild_def gvAfterSegment_def addParam_def Let_def
      split: if_splits option.splits nodeType.splits)

lemma gvStep_None:
  assumes "gvStep ci via n path (Some qb) = Inr s"
  shows "gvStep ci via n path None =
    Inr (case s of Enter m p _ v fk \<Rightarrow> Enter m p None v fk | Break r _ \<Rightarrow> Break r None)"
proof -
  obtain s0 where s0: "gvStep ci via n path None = Inr s0"
    using gvStep_None_control [OF assms] by (cases "gvStep ci via n path None") auto
  then have "stepParams s0 = None" by (rule gvStep_None_params)
  then show ?thesis
    using gvStep_None_control [OF assms] s0 by (cases s0; cases s) auto
qed

lemma gvRun_None:
  "gvRun ci via n path (Some pb) cb = Inr (r, qs, cb') \<Longrightarrow> gvRun ci via n path None cb = Inr (r, None, cb')"
proof (induction ci via n path "Some pb" cb arbitrary: pb rule: gvRun.induct)
  case (1 ci via n path cb)
  obtain s where s: "gvStep ci via n path (Some pb) = Inr s"
    using "1.prems" by (subst (asm) gvRun.simps) (auto split: sum.splits)
  obtain qb where qb: "stepParams s = Some qb" using gvStep_Some_params [OF s] by blast
  show ?case
  proof (cases s)
    case (Enter m p qs' v fk)
    have "gvRun ci v m p (Some qb) (cb \<or> fk) = Inr (r, qs, cb')"
      using "1.prems" s Enter qb by (subst (asm) gvRun.simps) simp
    moreover have "gvStep ci via n path (Some pb) = Inr (Enter m p (Some qb) v fk)"
      using s Enter qb by simp
    ultimately have "gvRun ci v m p None (cb \<or> fk) = Inr (r, None, cb')"
      using "1.hyps" by blast
    then show ?thesis using gvStep_None [OF s] Enter by (subst gvRun.simps) simp
  next
    case (Break r' qs')
    then show ?thesis
      using "1.prems" gvStep_None [OF s] s by (subst gvRun.simps, subst (asm) gvRun.simps) simp
  qed
qed

lemma gvRun_Some: "gvRun ci via n path (Some pb) cb = Inr (r, qs, cb') \<Longrightarrow> \<exists>qb. qs = Some qb"
proof (induction ci via n path "Some pb" cb arbitrary: pb rule: gvRun.induct)
  case (1 ci via n path cb)
  obtain s where s: "gvStep ci via n path (Some pb) = Inr s"
    using "1.prems" by (subst (asm) gvRun.simps) (auto split: sum.splits)
  obtain qb where qb: "stepParams s = Some qb" using gvStep_Some_params [OF s] by blast
  show ?case
  proof (cases s)
    case (Enter m p qs' v fk)
    have "gvRun ci v m p (Some qb) (cb \<or> fk) = Inr (r, qs, cb')"
      using "1.prems" s Enter qb by (subst (asm) gvRun.simps) simp
    moreover have "gvStep ci via n path (Some pb) = Inr (Enter m p (Some qb) v fk)"
      using s Enter qb by simp
    ultimately show ?thesis using "1.hyps" by blast
  qed (use "1.prems" s qb in \<open>subst (asm) gvRun.simps, simp\<close>)
qed

text \<open>Frames recorded without a buffer hold zero counts.\<close>

definition bareFrame :: "('h, 'f) backtrackFrame \<Rightarrow> ('h, 'f) backtrackFrame" where
  "bareFrame f = f\<lparr>fparamCount := 0, foverflowLen := 0\<rparr>"

definition bareStack :: "('h, 'f) btStack \<Rightarrow> ('h, 'f) btStack" where
  "bareStack st =
     st\<lparr>frame0 := map_option bareFrame (frame0 st), frame1 := map_option bareFrame (frame1 st),
        boverflow := map bareFrame (boverflow st)\<rparr>"

lemma bare_push: "pushFrame (bareFrame f) (bareStack st) = bareStack (pushFrame f st)"
  by (simp add: pushFrame_def bareStack_def split: nat.splits)

lemma bare_pop:
  "popFrame (bareStack st) = (map_option bareFrame (fst (popFrame st)), bareStack (snd (popFrame st)))"
  by (simp add: popFrame_def bareStack_def Let_def last_map map_butlast)

lemma bare_mkFrame: "mkFrame n path None = bareFrame (mkFrame n path (Some pb))"
  by (simp add: mkFrame_def bareFrame_def)

lemma bare_simps [simp]:
  "stackN (bareStack st) = stackN st" "fparent (bareFrame f) = fparent f" "fpath (bareFrame f) = fpath f"
  "bareStack emptyStack = emptyStack"
  by (simp_all add: bareStack_def bareFrame_def emptyStack_def)

lemma gbRun_None:
  "gbRun ci via n path (Some pb) st saw tsr = Inr (res, qs) \<Longrightarrow>
     gbRun ci via n path None (bareStack st) saw tsr = Inr (res, None)"
proof (induction ci via n path "Some pb" st saw tsr arbitrary: pb rule: gbRun.induct)
  case (1 ci via n path st saw tsr)
  obtain s where s: "gvStep ci via n path (Some pb) = Inr s"
    using "1.prems" by (subst (asm) gbRun.simps) (auto simp: gbStep_eq split: sum.splits)
  obtain qb where qb: "stepParams s = Some qb" using gvStep_Some_params [OF s] by blast
  show ?case
  proof (cases s)
    case (Enter m p qs' v fk)
    have st: "gbStep ci via n path (Some pb) = Inr (Enter m p (Some qb) v fk)"
      using s Enter qb by (simp add: gbStep_eq)
    let ?st = "if fk then pushFrame (mkFrame n p (Some qb)) st else st"
    have "gbRun ci v m p (Some qb) ?st saw tsr = Inr (res, qs)"
      using "1.prems" by (subst (asm) gbRun.simps) (simp add: st)
    then have r: "gbRun ci v m p None (bareStack ?st) saw tsr = Inr (res, None)"
      by (rule "1.hyps"(1) [OF st refl])
    have "bareStack ?st = (if fk then pushFrame (mkFrame n p None) (bareStack st) else bareStack st)"
      by (simp add: bare_push bare_mkFrame [of n p qb])
    then show ?thesis
      using r gvStep_None [OF s] Enter by (subst gbRun.simps) (simp add: gbStep_eq)
  next
    case (Break r qs')
    then have st: "gbStep ci via n path (Some pb) = Inr (Break r (Some qb))"
      using s qb by (simp add: gbStep_eq)
    have st0: "gbStep ci via n path None = Inr (Break r None)"
      using gvStep_None [OF s] Break by (simp add: gbStep_eq)
    define t1 where "t1 = (case otsr r of None \<Rightarrow> tsr | Some t \<Rightarrow> t)"
    show ?thesis
    proof (cases "found r \<or> stackN st = 0")
      case True
      have "res = (if found r then Outcome (ohandler r) (ofast r) (opattern r) (Some t1) else noMatch (Some (saw \<or> t1)))"
        using "1.prems" True by (subst (asm) gbRun.simps) (simp add: st t1_def Let_def split: if_splits)
      then show ?thesis using True by (subst gbRun.simps) (auto simp: st0 t1_def Let_def)
    next
      case False
      obtain x st' where x: "popFrame st = (x, st')" by fastforce
      obtain fr where fr: "x = Some fr"
        using "1.prems" False x by (subst (asm) gbRun.simps) (cases x; simp add: st Let_def)
      have pop: "popFrame st = (Some fr, st')" using x fr by simp
      have ne: "nchildren (fparent fr) \<noteq> []"
        using "1.prems" False pop by (subst (asm) gbRun.simps) (auto simp: st Let_def)
      define rb where "rb = bufRewind qb (fparamCount fr) (foverflowLen fr)"
      have "gbRun ci True (last (nchildren (fparent fr))) (fpath fr) (Some rb) st' (saw \<or> t1) t1 = Inr (res, qs)"
        using "1.prems" False pop ne by (subst (asm) gbRun.simps) (simp add: st t1_def rb_def Let_def)
      then have "gbRun ci True (last (nchildren (fparent fr))) (fpath fr) None (bareStack st') (saw \<or> t1) t1
          = Inr (res, None)"
        using "1.hyps"(2) [OF st refl t1_def _ refl _ pop [symmetric] refl ne] False by (simp add: rb_def)
      then show ?thesis
        using False pop ne by (subst gbRun.simps) (simp add: st0 t1_def Let_def bare_pop)
    qed
  qed
qed

lemma getValue_None:
  assumes "getValue n path (Some pb) ci = Inr (res, qs)"
  shows "getValue n path None ci = Inr (res, None)"
proof -
  obtain r ps cb where g: "gvRun ci False n path (Some pb) False = Inr (r, ps, cb)"
    using assms by (auto simp: getValue_def split: sum.splits)
  have g0: "gvRun ci False n path None False = Inr (r, None, cb)" by (rule gvRun_None [OF g])
  show ?thesis
  proof (cases "found r \<or> \<not> cb")
    case True
    then show ?thesis using assms g g0 by (auto simp: getValue_def)
  next
    case False
    then have "gbRun ci False n path (map_option (\<lambda>pb. bufRewind pb 0 0) ps) emptyStack False False = Inr (res, qs)"
      using assms g by (simp add: getValue_def getValueBacktrack_def)
    moreover obtain qb where "ps = Some qb" using gvRun_Some [OF g] by blast
    ultimately show ?thesis
      using gbRun_None [of ci False n path _ emptyStack False False res qs] g0 False
      by (simp add: getValue_def getValueBacktrack_def)
  qed
qed

lemma gvRun_None_params: "gvRun ci via n path ps cb = Inr (r, qs, cb') \<Longrightarrow> ps = None \<Longrightarrow> qs = None"
proof (induction ci via n path ps cb rule: gvRun.induct)
  case (1 ci via n path ps cb)
  obtain s where s: "gvStep ci via n path ps = Inr s"
    using "1.prems"(1) by (subst (asm) gvRun.simps) (auto split: sum.splits)
  have p: "stepParams s = None" using gvStep_None_params s "1.prems"(2) by blast
  show ?case
  proof (cases s)
    case (Enter m p' qs' v fk)
    moreover have "gvRun ci v m p' qs' (cb \<or> fk) = Inr (r, qs, cb')"
      using "1.prems"(1) s Enter by (subst (asm) gvRun.simps) simp
    ultimately show ?thesis using "1.IH" [OF s Enter] p by simp
  next
    case (Break r' qs')
    then show ?thesis using "1.prems"(1) s p by (subst (asm) gvRun.simps) simp
  qed
qed

lemma gbRun_None_params: "gbRun ci via n path ps st saw tsr = Inr (res, qs) \<Longrightarrow> ps = None \<Longrightarrow> qs = None"
proof (induction ci via n path ps st saw tsr rule: gbRun.induct)
  case (1 ci via n path ps st saw tsr)
  obtain s where s: "gbStep ci via n path ps = Inr s"
    using "1.prems"(1) by (subst (asm) gbRun.simps) (auto split: sum.splits)
  have p: "stepParams s = None" using gvStep_None_params s "1.prems"(2) unfolding gbStep_eq by blast
  show ?case
  proof (cases s)
    case (Enter m p' qs' v fk)
    have st: "gbStep ci via n path ps = Inr (Enter m p' None v fk)" using s Enter p by simp
    have "gbRun ci v m p' None (if fk then pushFrame (mkFrame n p' None) st else st) saw tsr = Inr (res, qs)"
      using "1.prems"(1) by (subst (asm) gbRun.simps) (simp add: st)
    then show ?thesis using "1.IH"(1) [OF st refl] by blast
  next
    case (Break r qs')
    have st: "gbStep ci via n path ps = Inr (Break r None)" using s Break p by simp
    define t1 where "t1 = (case otsr r of None \<Rightarrow> tsr | Some t \<Rightarrow> t)"
    show ?thesis
    proof (cases "found r \<or> stackN st = 0")
      case True
      then show ?thesis
        using "1.prems"(1) by (subst (asm) gbRun.simps) (simp add: st Let_def split: if_splits)
    next
      case False
      obtain x st' where x: "popFrame st = (x, st')" by fastforce
      obtain fr where fr: "x = Some fr"
        using "1.prems"(1) False x by (subst (asm) gbRun.simps) (cases x; simp add: st Let_def)
      have pop: "popFrame st = (Some fr, st')" using x fr by simp
      have ne: "nchildren (fparent fr) \<noteq> []"
        using "1.prems"(1) False pop by (subst (asm) gbRun.simps) (auto simp: st Let_def)
      have "gbRun ci True (last (nchildren (fparent fr))) (fpath fr) None st' (saw \<or> t1) t1 = Inr (res, qs)"
        using "1.prems"(1) False pop ne by (subst (asm) gbRun.simps) (simp add: st t1_def Let_def)
      then show ?thesis
        using "1.IH"(2) [OF st refl t1_def _ refl _ pop [symmetric] refl ne] False by simp
    qed
  qed
qed

lemma getValue_None_params: "getValue n path None ci = Inr (res, qs) \<Longrightarrow> qs = None"
proof -
  assume G: "getValue n path None ci = Inr (res, qs)"
  obtain r ps cb where g: "gvRun ci False n path None False = Inr (r, ps, cb)"
    using G by (auto simp: getValue_def split: sum.splits)
  then have "ps = None" using gvRun_None_params by blast
  then show ?thesis
    using G g gbRun_None_params [of ci False n path None emptyStack False False res qs]
    by (auto simp: getValue_def getValueBacktrack_def split: if_splits)
qed

section \<open>Asking whether a path has a handler\<close>

lemma hasHandler_matches:
  assumes "rootOK rc n" "path \<noteq> []" "hd path = CHR ''/''"
  shows "hasHandler n path = Inr (\<exists>q \<in> fst ` set (entries n). matchPat rc q path \<noteq> None)"
proof -
  have A: "answers rc (entries n) path (lookupView (getValue n path (Some emptyBuf) False))"
    using search_root [OF assms] getValue_search [of emptyBuf n path False]
    by (simp add: emptyBuf_def bufOK_def)
  obtain res qs where g: "getValue n path (Some emptyBuf) False = Inr (res, qs)"
    using A by (cases "getValue n path (Some emptyBuf) False") (auto simp: answers_def)
  have "found res \<longleftrightarrow> (\<exists>q \<in> fst ` set (entries n). matchPat rc q path \<noteq> None)"
  proof (cases "found res")
    case True
    then show ?thesis using A g by (force simp: answers_def viewOf_def)
  next
    case False
    then show ?thesis using A g by (auto simp: answers_def viewOf_def matching_def)
  qed
  then show ?thesis using getValue_None [OF g] by (simp add: hasHandler_def)
qed

end
