(* ===== verification/Serving.thy ===== *)
theory Serving
  imports Dispatch TreeControl
begin

text \<open>
  What serving a request means without caches and pools, and that the cached and pooled code
  does exactly that in every state in which the caches agree with the configuration and the
  middleware (the invariant \<open>coherent\<close>), which every operation preserves.
\<close>

section \<open>The specification\<close>

text \<open>The request with the parameters in its context: the tier depends on their number.\<close>

definition routeRequest :: "request \<Rightarrow> Params \<Rightarrow> string \<Rightarrow> request" where
  "routeRequest r ps pattern =
     withContext r
       (case ps of
          [p] \<Rightarrow> RequestCtx1 (requestContext r) pattern p
        | [p, q] \<Rightarrow> RequestCtx2 (requestContext r) pattern p q
        | _ \<Rightarrow> RequestCtx (requestContext r) ps pattern)"

definition serveRoute ::
  "libs \<Rightarrow> 'w muxConfig \<Rightarrow> 'w handler option \<Rightarrow> 'w fastHandler option \<Rightarrow> string \<Rightarrow> Params
     \<Rightarrow> 'w serve"
where
  "serveRoute L c h fast pattern ps r w =
     (case fast of
        Some f \<Rightarrow> f r ps w
      | None \<Rightarrow> runOption L (errorHandler c) h (if ps = [] then r else routeRequest r ps pattern) w)"

definition notFoundBase :: "'w muxConfig \<Rightarrow> 'w handler" where
  "notFoundBase c = (case notFound c of Some h \<Rightarrow> h | None \<Rightarrow> Func (Some httpNotFound))"

definition respond :: "libs \<Rightarrow> 'w muxConfig \<Rightarrow> 'w middleware list \<Rightarrow> 'w decision \<Rightarrow> 'w serve" where
  "respond L c mws d r w =
     (case d of
        Serve star h fast pattern pb \<Rightarrow>
          serveRoute L c h fast pattern (map (unescapeParam c) (bufParams pb)) r w
      | RedirectTo target code \<Rightarrow>
          if mws = [] then ok (writeRedirect (relRef L) r target code w)
          else wrapServe (serveContextRedirect L) mws
                 (withContext r (RedirectCtx (requestContext r) target code)) w
      | AutoOptions allow \<Rightarrow>
          wrapServe (runOption L (errorHandler c) (Some (OptionsFunc allow (globalOPTIONS c)))) mws r w
      | NotAllowed allow \<Rightarrow>
          wrapServe (runOption L (errorHandler c) (Some (NotAllowedFunc allow (methodNotAllowed c)))) mws r w
      | NoRoute \<Rightarrow> wrapServe (runOption L (errorHandler c) (Some (notFoundBase c))) mws r w)"

definition answer ::
  "libs \<Rightarrow> 'w muxConfig \<Rightarrow> 'w middleware list \<Rightarrow> 'w tree option list option \<Rightarrow> 'w serve"
where
  "answer L c mws trees r w =
     (case decide c trees r of Inl e \<Rightarrow> (w, Some e) | Inr d \<Rightarrow> respond L c mws d r w)"

definition serveSpec :: "libs \<Rightarrow> 'w mux \<Rightarrow> 'w serve" where
  "serveSpec L m r w =
     (let c = (case cfg m of Some c \<Rightarrow> c | None \<Rightarrow> frozenConfig (settings m));
          core = answer L c (middleware m) (treesPtr m);
          served = (case preHandlerPtr m of Some mws \<Rightarrow> wrapServe core mws r w | None \<Rightarrow> core r w)
      in if hasPanicHandler c then recoverPanic c r served else served)"

section \<open>The invariant\<close>

definition cachesFor :: "'w muxConfig \<Rightarrow> 'w mux \<Rightarrow> bool" where
  "cachesFor c m \<longleftrightarrow>
     (\<forall>h. lazyNotFoundPtr m = Some h \<longrightarrow> h = wrapMiddleware (Some (notFoundBase c)) (middleware m))
     \<and> (\<forall>a h. methodNotAllowedCache m a = Some h \<longrightarrow>
          h = wrapMiddleware (Some (NotAllowedFunc a (methodNotAllowed c))) (middleware m))
     \<and> (\<forall>a h. optionsCache m a = Some h \<longrightarrow>
          h = wrapMiddleware (Some (OptionsFunc a (globalOPTIONS c))) (middleware m))"

definition redirectCoherent :: "'w mux \<Rightarrow> bool" where
  "redirectCoherent m \<longleftrightarrow>
     (case redirectMWPtr m of
        None \<Rightarrow> middleware m = []
      | Some s \<Rightarrow> snapGen s = redirectGen m \<and> snapMw s = middleware m)
     \<and> (\<forall>e. lazyRedirectPtr m = Some e \<longrightarrow>
          entryGen e \<le> redirectGen m
          \<and> (entryGen e = redirectGen m \<longrightarrow>
               entryHandler e = wrapMiddleware (Some RedirectFunc) (middleware m)))"

definition coherent :: "'w mux \<Rightarrow> bool" where
  "coherent m \<longleftrightarrow>
     (case cfg m of
        Some c \<Rightarrow> cachesFor c m
      | None \<Rightarrow> lazyNotFoundPtr m = None \<and> methodNotAllowedCache m = Map.empty
                \<and> optionsCache m = Map.empty)
     \<and> redirectCoherent m \<and> poolsOK (packagePools m)"

lemma coherent_new: "coherent newMux"
  by (simp add: coherent_def newMux_def redirectCoherent_def)

section \<open>Carrying out a decision\<close>

definition goodDecision :: "'w decision \<Rightarrow> bool" where
  "goodDecision d \<longleftrightarrow> (case d of Serve star h fast pattern pb \<Rightarrow> bufOK pb | _ \<Rightarrow> True)"

lemma primaryLookup_good: "primaryLookup c n u = Inr (res, pb) \<Longrightarrow> bufOK pb"
  using getValue_bufOK [of n u emptyBuf "caseInsensitive c"]
  by (auto simp: primaryLookup_def map_sum_def split: if_splits sum.splits option.splits)

lemma primaryDecision_good:
  "primaryDecision c trees r = Inr (Some d) \<Longrightarrow> goodDecision d"
  by (auto simp: primaryDecision_def goodDecision_def Let_def split: sum.splits option.splits if_splits)
    (erule primaryLookup_good)+

lemma getValue_good:
  "getValue n u (Some emptyBuf) ci = Inr (res, Some pb) \<Longrightarrow> bufOK pb"
  "getValue n u None ci = Inr (res, Some pb) \<Longrightarrow> bufOK pb"
  using getValue_bufOK [of n u emptyBuf ci res "Some pb"] getValue_None_params [of n u ci res "Some pb"] by auto

lemma starDecision_good: "starDecision c trees r = Inr (Some d) \<Longrightarrow> goodDecision d"
  by (auto simp: starDecision_def goodDecision_def Let_def split: sum.splits option.splits if_splits)
    (erule getValue_good)+

lemma fallbackDecision_good: "fallbackDecision c trees r = Inr d \<Longrightarrow> goodDecision d"
  by (auto simp: fallbackDecision_def goodDecision_def Let_def map_sum_def split: sum.splits if_splits)

lemma decide_good: "decide c trees r = Inr d \<Longrightarrow> goodDecision d"
  by (auto simp: decide_def dest: primaryDecision_good starDecision_good fallbackDecision_good
      split: sum.splits option.splits)

lemma bufParams_shape:
  assumes "bufOK pb"
  shows "pcount pb = length (bufParams pb)"
    "pcount pb = 1 \<Longrightarrow> bufParams pb = [pbuf pb ! 0]"
    "pcount pb = 2 \<Longrightarrow> bufParams pb = [pbuf pb ! 0, pbuf pb ! 1]"
proof -
  show "pcount pb = length (bufParams pb)" using assms by simp
  obtain a b d where l: "pbuf pb = [a, b, d]"
    using assms by (auto simp: bufOK_def maxInline_def length_Suc_conv numeral_3_eq_3)
  have n: "poverflow pb = []" if "pcount pb < 3" using that assms by (simp add: bufOK_def maxInline_def)
  show "pcount pb = 1 \<Longrightarrow> bufParams pb = [pbuf pb ! 0]"
    using n l by (simp add: bufParams_def)
  show "pcount pb = 2 \<Longrightarrow> bufParams pb = [pbuf pb ! 0, pbuf pb ! 1]"
    using n l by (simp add: bufParams_def numeral_2_eq_2)
qed

lemma dispatchWithParams_route:
  "dispatchWithParams fld r h pattern ps w = h (routeRequest r ps pattern) w"
  by (auto simp: dispatchWithParams_def routeRequest_def dispatchParams1_def dispatchParams2_def Let_def
      split: list.splits)

lemma servePrimary_route:
  assumes "bufOK pb" "poolsOK ps"
  shows "fst (servePrimary L pick c ps r h pattern pb w)
      = h (routeRequest r (map (unescapeParam c) (bufParams pb)) pattern) w"
    "poolsOK (snd (servePrimary L pick c ps r h pattern pb w))"
proof -
  let ?ps = "map (unescapeParam c) (bufParams pb)"
  let ?F = "hasReqCtxField L"
  have one: "dispatchParams1 F r h pattern (unescapeParam c (pbuf pb ! 0)) w = h (routeRequest r ?ps pattern) w"
    if "pcount pb = 1" for F
    using bufParams_shape(2) [OF assms(1) that] dispatchWithParams_route [of F r h pattern ?ps w]
    by (simp add: dispatchWithParams_def)
  have two: "dispatchParams2 F r h pattern (unescapeParam c (pbuf pb ! 0)) (unescapeParam c (pbuf pb ! 1)) w
      = h (routeRequest r ?ps pattern) w"
    if "pcount pb = 2" for F
    using bufParams_shape(3) [OF assms(1) that] dispatchWithParams_route [of F r h pattern ?ps w]
    by (simp add: dispatchWithParams_def)
  have len: "length ?ps = pcount pb" using assms(1) by simp
  show "fst (servePrimary L pick c ps r h pattern pb w) = h (routeRequest r ?ps pattern) w"
    using one two len
    by (simp add: servePrimary_def Let_def dispatchWithParams_route
        dispatch1_transparent(1) [OF assms(2), where fld = ?F]
        dispatch2_transparent(1) [OF assms(2), where fld = ?F]
        dispatchN_transparent(1) [OF assms(2), where fld = ?F])
  show "poolsOK (snd (servePrimary L pick c ps r h pattern pb w))"
    using len assms(2)
    by (simp add: servePrimary_def Let_def dispatch1_transparent(2) [OF assms(2)]
        dispatch2_transparent(2) [OF assms(2)] dispatchN_transparent(2) [OF assms(2)])
qed

lemma serveFast_route:
  assumes "bufOK pb" "poolsOK ps"
  shows "fst (serveFast pick c ps r f pb w) = f r (map (unescapeParam c) (bufParams pb)) w"
    "poolsOK (snd (serveFast pick c ps r f pb w))"
proof -
  obtain fps0 ps1 where g: "(if poolFastParams c then getFastParams pick (pcount pb) ps
      else (replicate (pcount pb) (mkParam [] []), ps)) = (fps0, ps1)" by fastforce
  then have l: "length fps0 = pcount pb" "poolsOK ps1"
    using getFastParams_length [OF assms(2), of pick "pcount pb"] assms(2) by (auto split: if_splits)
  have "fillFast fps0 pb = bufParams pb" by (rule fillFast_params [OF assms(1) l(1)])
  then show "fst (serveFast pick c ps r f pb w) = f r (map (unescapeParam c) (bufParams pb)) w"
    by (simp add: serveFast_def g Let_def)
  show "poolsOK (snd (serveFast pick c ps r f pb w))"
    using l(2) putFastParams_OK by (auto simp: serveFast_def g Let_def)
qed

lemma serveFound_route:
  assumes "bufOK pb" "poolsOK ps"
  shows "fst (serveFound L pick c ps r star h fast pattern pb w)
      = serveRoute L c h fast pattern (map (unescapeParam c) (bufParams pb)) r w"
    "poolsOK (snd (serveFound L pick c ps r star h fast pattern pb w))"
proof -
  have z: "(pcount pb > 0) = (map (unescapeParam c) (bufParams pb) \<noteq> [])"
    using bufParams_shape(1) [OF assms(1)] by simp
  show "fst (serveFound L pick c ps r star h fast pattern pb w)
      = serveRoute L c h fast pattern (map (unescapeParam c) (bufParams pb)) r w"
    unfolding serveFound_def serveRoute_def serveStar_def Let_def z dispatchWithParams_route
    by (simp add: serveFast_route(1) [OF assms] servePrimary_route(1) [OF assms] split: option.splits)
  show "poolsOK (snd (serveFound L pick c ps r star h fast pattern pb w))"
    using assms(2)
    by (simp add: serveFound_def Let_def serveFast_route(2) [OF assms] servePrimary_route(2) [OF assms]
        split: option.splits)
qed

section \<open>The caches of built handlers\<close>

text \<open>
  The contract of a table that is filled on demand: \<open>fetch\<close> returns the stored value or builds
  and stores it, and storing changes neither other entries nor what is built. Then a table all
  of whose entries are what would be built stays so, and fetching is building.
\<close>

locale memo =
  fixes lookup :: "'s \<Rightarrow> 'k \<Rightarrow> 'v option" and store :: "'k \<Rightarrow> 'v \<Rightarrow> 's \<Rightarrow> 's"
    and build :: "'s \<Rightarrow> 'k \<Rightarrow> 'v" and fetch :: "'k \<Rightarrow> 's \<Rightarrow> 'v \<times> 's"
  assumes fetch_hit: "lookup s k = Some v \<Longrightarrow> fetch k s = (v, s)"
    and fetch_miss: "lookup s k = None \<Longrightarrow> fetch k s = (build s k, store k (build s k) s)"
    and lookup_store: "lookup (store k v s) k' = (if k' = k then Some v else lookup s k')"
    and build_store: "build (store k v s) = build s"
begin

definition fresh :: "'s \<Rightarrow> bool" where
  "fresh s \<longleftrightarrow> (\<forall>k v. lookup s k = Some v \<longrightarrow> v = build s k)"

lemma fetch_builds: "fresh s \<Longrightarrow> fst (fetch k s) = build s k"
  by (cases "lookup s k") (simp_all add: fetch_hit fetch_miss fresh_def)

lemma fetch_fresh: "fresh s \<Longrightarrow> fresh (snd (fetch k s))"
  by (cases "lookup s k") (auto simp: fetch_hit fetch_miss fresh_def lookup_store build_store)

lemma fetch_state: "snd (fetch k s) = s \<or> (\<exists>v. snd (fetch k s) = store k v s)"
  by (cases "lookup s k") (auto simp: fetch_hit fetch_miss)

end

interpretation notFoundCache:
  memo "\<lambda>m (k :: unit). lazyNotFoundPtr m" "\<lambda>k h m. m\<lparr>lazyNotFoundPtr := Some h\<rparr>"
    "\<lambda>m k. wrapMiddleware (Some (notFoundBase c)) (middleware m)" "\<lambda>k. lazyNotFound c" for c
  by unfold_locales (simp_all add: lazyNotFound_def notFoundBase_def Let_def)

interpretation notAllowedCache:
  memo "\<lambda>m a. methodNotAllowedCache m a"
    "\<lambda>a h m. m\<lparr>methodNotAllowedCache := (methodNotAllowedCache m)(a \<mapsto> h)\<rparr>"
    "\<lambda>m a. wrapMiddleware (Some (NotAllowedFunc a (methodNotAllowed c))) (middleware m)"
    "lazyMethodNotAllowed c" for c
  by unfold_locales (simp_all add: lazyMethodNotAllowed_def Let_def)

interpretation optionsHandlers:
  memo "\<lambda>m a. optionsCache m a" "\<lambda>a h m. m\<lparr>optionsCache := (optionsCache m)(a \<mapsto> h)\<rparr>"
    "\<lambda>m a. wrapMiddleware (Some (OptionsFunc a (globalOPTIONS c))) (middleware m)" "lazyOPTIONS c" for c
  by unfold_locales (simp_all add: lazyOPTIONS_def Let_def)

text \<open>Carrying out a decision changes only caches and pools, coherently.\<close>

definition sameRouting :: "'w mux \<Rightarrow> 'w mux \<Rightarrow> bool" where
  "sameRouting m m' \<longleftrightarrow>
     treesPtr m' = treesPtr m \<and> cfg m' = cfg m \<and> settings m' = settings m
     \<and> middleware m' = middleware m \<and> pre m' = pre m \<and> fastMiddleware m' = fastMiddleware m
     \<and> preHandlerPtr m' = preHandlerPtr m"

lemma serveRedirect_spec:
  assumes "redirectCoherent m"
  shows "fst (serveRedirect L c target code m r w) = respond L c (middleware m) (RedirectTo target code) r w"
    and "redirectCoherent (snd (serveRedirect L c target code m r w))"
    and "\<exists>p. snd (serveRedirect L c target code m r w) = m\<lparr>lazyRedirectPtr := p\<rparr>"
proof -
  have run: "runOption L (errorHandler c) (wrapMiddleware (Some RedirectFunc) mws)
      = wrapServe (serveContextRedirect L) mws" for mws
  proof -
    have "runOption L (errorHandler c) (Some RedirectFunc) = serveContextRedirect L"
      by (intro ext) (simp add: runOption_def)
    then show ?thesis by (simp add: runOption_wrap)
  qed
  consider (none) "redirectMWPtr m = None \<or> middleware m = []"
    | (some) s where "redirectMWPtr m = Some s" "snapGen s = redirectGen m" "snapMw s = middleware m"
        "middleware m \<noteq> []"
    using assms by (cases "redirectMWPtr m") (auto simp: redirectCoherent_def)
  then have "fst (serveRedirect L c target code m r w) = respond L c (middleware m) (RedirectTo target code) r w
     \<and> redirectCoherent (snd (serveRedirect L c target code m r w))
     \<and> (\<exists>p. snd (serveRedirect L c target code m r w) = m\<lparr>lazyRedirectPtr := p\<rparr>)"
  proof cases
    case none
    then have s: "serveRedirect L c target code m r w = (ok (writeRedirect (relRef L) r target code w), m)"
      "middleware m = []"
      using assms by (auto simp: serveRedirect_def redirectCoherent_def split: option.splits)
    moreover have "\<exists>p. m = m\<lparr>lazyRedirectPtr := p\<rparr>" by (rule exI [of _ "lazyRedirectPtr m"]) simp
    ultimately show ?thesis using assms by (simp add: respond_def)
  next
    case (some s)
    have lr: "fst (lazyRedirect s m) = wrapMiddleware (Some RedirectFunc) (middleware m)"
      "redirectCoherent (snd (lazyRedirect s m))" "\<exists>p. snd (lazyRedirect s m) = m\<lparr>lazyRedirectPtr := p\<rparr>"
    proof -
      have id: "m = m\<lparr>lazyRedirectPtr := lazyRedirectPtr m\<rparr>" by simp
      show "fst (lazyRedirect s m) = wrapMiddleware (Some RedirectFunc) (middleware m)"
        using some assms by (auto simp: lazyRedirect_def redirectCoherent_def Let_def split: option.splits)
      show "redirectCoherent (snd (lazyRedirect s m))"
        using some assms by (auto simp: lazyRedirect_def redirectCoherent_def Let_def split: option.splits)
      show "\<exists>p. snd (lazyRedirect s m) = m\<lparr>lazyRedirectPtr := p\<rparr>"
      proof -
        have "snd (lazyRedirect s m) = m \<or> (\<exists>p. snd (lazyRedirect s m) = m\<lparr>lazyRedirectPtr := p\<rparr>)"
          unfolding lazyRedirect_def Let_def by (cases "lazyRedirectPtr m") auto
        then show ?thesis using id by metis
      qed
    qed
    then show ?thesis
      using some by (auto simp: serveRedirect_def respond_def Let_def run split_beta)
  qed
  then show "fst (serveRedirect L c target code m r w) = respond L c (middleware m) (RedirectTo target code) r w"
    "redirectCoherent (snd (serveRedirect L c target code m r w))"
    "\<exists>p. snd (serveRedirect L c target code m r w) = m\<lparr>lazyRedirectPtr := p\<rparr>"
    by blast+
qed

lemma coherent_pools: "coherent m \<Longrightarrow> poolsOK ps \<Longrightarrow> coherent (m\<lparr>packagePools := ps\<rparr>)"
  by (auto simp: coherent_def cachesFor_def redirectCoherent_def split: option.splits)

lemma coherent_redirect:
  "coherent m \<Longrightarrow> redirectCoherent (m\<lparr>lazyRedirectPtr := p\<rparr>) \<Longrightarrow> coherent (m\<lparr>lazyRedirectPtr := p\<rparr>)"
  by (auto simp: coherent_def cachesFor_def split: option.splits)

lemma cachesFor_fresh:
  "cachesFor c m \<longleftrightarrow> notFoundCache.fresh c m \<and> notAllowedCache.fresh c m \<and> optionsHandlers.fresh c m"
  by (auto simp: cachesFor_def notFoundCache.fresh_def notAllowedCache.fresh_def optionsHandlers.fresh_def)

lemma coherent_parts:
  assumes "cfg m = Some c"
  shows "coherent m \<longleftrightarrow> notFoundCache.fresh c m \<and> notAllowedCache.fresh c m \<and> optionsHandlers.fresh c m
    \<and> redirectCoherent m \<and> poolsOK (packagePools m)"
  using assms by (simp add: coherent_def cachesFor_fresh)

lemma lazyNotFound_spec:
  assumes "coherent m" "cfg m = Some c"
  shows "fst (lazyNotFound c m) = wrapMiddleware (Some (notFoundBase c)) (middleware m)
    \<and> coherent (snd (lazyNotFound c m)) \<and> sameRouting m (snd (lazyNotFound c m))"
proof -
  have f: "notFoundCache.fresh c m" "notAllowedCache.fresh c m" "optionsHandlers.fresh c m"
    "redirectCoherent m" "poolsOK (packagePools m)"
    using assms coherent_parts [OF assms(2)] by blast+
  have s: "snd (lazyNotFound c m) = m \<or> (\<exists>h. snd (lazyNotFound c m) = m\<lparr>lazyNotFoundPtr := Some h\<rparr>)"
    using notFoundCache.fetch_state by blast
  then have r: "sameRouting m (snd (lazyNotFound c m))" by (auto simp: sameRouting_def)
  then have c: "cfg (snd (lazyNotFound c m)) = Some c" using assms(2) by (simp add: sameRouting_def)
  have "notAllowedCache.fresh c (snd (lazyNotFound c m))" "optionsHandlers.fresh c (snd (lazyNotFound c m))"
    "redirectCoherent (snd (lazyNotFound c m))" "poolsOK (packagePools (snd (lazyNotFound c m)))"
    using s f(2-5)
    by (auto simp: notAllowedCache.fresh_def optionsHandlers.fresh_def redirectCoherent_def split: option.splits)
  then show ?thesis
    using r notFoundCache.fetch_builds [OF f(1)] notFoundCache.fetch_fresh [OF f(1)] coherent_parts [OF c] by simp
qed

lemma lazyMethodNotAllowed_spec:
  assumes "coherent m" "cfg m = Some c"
  shows "fst (lazyMethodNotAllowed c a m)
      = wrapMiddleware (Some (NotAllowedFunc a (methodNotAllowed c))) (middleware m)
    \<and> coherent (snd (lazyMethodNotAllowed c a m)) \<and> sameRouting m (snd (lazyMethodNotAllowed c a m))"
proof -
  let ?m = "snd (lazyMethodNotAllowed c a m)"
  have f: "notFoundCache.fresh c m" "notAllowedCache.fresh c m" "optionsHandlers.fresh c m"
    "redirectCoherent m" "poolsOK (packagePools m)"
    using assms coherent_parts [OF assms(2)] by blast+
  have s: "?m = m \<or> (\<exists>h. ?m = m\<lparr>methodNotAllowedCache := (methodNotAllowedCache m)(a \<mapsto> h)\<rparr>)"
    using notAllowedCache.fetch_state by blast
  then have r: "sameRouting m ?m" by (auto simp: sameRouting_def)
  then have c: "cfg ?m = Some c" using assms(2) by (simp add: sameRouting_def)
  have "notFoundCache.fresh c ?m" "optionsHandlers.fresh c ?m" "redirectCoherent ?m" "poolsOK (packagePools ?m)"
    using s f(1,3-5)
    by (auto simp: notFoundCache.fresh_def optionsHandlers.fresh_def redirectCoherent_def split: option.splits)
  then show ?thesis
    using r notAllowedCache.fetch_builds [OF f(2)] notAllowedCache.fetch_fresh [OF f(2)] coherent_parts [OF c] by simp
qed

lemma lazyOPTIONS_spec:
  assumes "coherent m" "cfg m = Some c"
  shows "fst (lazyOPTIONS c a m) = wrapMiddleware (Some (OptionsFunc a (globalOPTIONS c))) (middleware m)
    \<and> coherent (snd (lazyOPTIONS c a m)) \<and> sameRouting m (snd (lazyOPTIONS c a m))"
proof -
  let ?m = "snd (lazyOPTIONS c a m)"
  have f: "notFoundCache.fresh c m" "notAllowedCache.fresh c m" "optionsHandlers.fresh c m"
    "redirectCoherent m" "poolsOK (packagePools m)"
    using assms coherent_parts [OF assms(2)] by blast+
  have s: "?m = m \<or> (\<exists>h. ?m = m\<lparr>optionsCache := (optionsCache m)(a \<mapsto> h)\<rparr>)"
    using optionsHandlers.fetch_state by blast
  then have r: "sameRouting m ?m" by (auto simp: sameRouting_def)
  then have c: "cfg ?m = Some c" using assms(2) by (simp add: sameRouting_def)
  have "notFoundCache.fresh c ?m" "notAllowedCache.fresh c ?m" "redirectCoherent ?m" "poolsOK (packagePools ?m)"
    using s f(1,2,4,5)
    by (auto simp: notFoundCache.fresh_def notAllowedCache.fresh_def redirectCoherent_def split: option.splits)
  then show ?thesis
    using r optionsHandlers.fetch_builds [OF f(3)] optionsHandlers.fetch_fresh [OF f(3)] coherent_parts [OF c] by simp
qed

lemma execute_spec:
  assumes "coherent m" "cfg m = Some c" "goodDecision d"
  shows "fst (execute L pick c d m r w) = respond L c (middleware m) d r w
    \<and> coherent (snd (execute L pick c d m r w)) \<and> sameRouting m (snd (execute L pick c d m r w))"
proof (cases d)
  case (Serve star h fast pattern pb)
  then have "bufOK pb" "poolsOK (packagePools m)"
    using assms by (simp_all add: goodDecision_def coherent_def)
  then show ?thesis
    using serveFound_route [of pb "packagePools m" L pick c r star h fast pattern w] Serve assms
    by (simp add: execute_def respond_def coherent_pools sameRouting_def split_beta)
next
  case (RedirectTo target code)
  have rc: "redirectCoherent m" using assms(1) by (simp add: coherent_def)
  show ?thesis
    using serveRedirect_spec [OF rc, of L c target code r w] RedirectTo assms
    by (auto simp: execute_def coherent_redirect sameRouting_def)
next
  case (AutoOptions allow)
  then show ?thesis
    using lazyOPTIONS_spec [OF assms(1,2), of allow]
    by (simp add: execute_def respond_def runOption_wrap split_beta)
next
  case (NotAllowed allow)
  then show ?thesis
    using lazyMethodNotAllowed_spec [OF assms(1,2), of allow]
    by (simp add: execute_def respond_def runOption_wrap split_beta)
next
  case NoRoute
  then show ?thesis
    using lazyNotFound_spec [OF assms(1,2)] by (simp add: execute_def respond_def runOption_wrap split_beta)
qed

lemma dispatch_spec:
  assumes "coherent m" "cfg m = Some c"
  shows "fst (dispatch L pick c m r w) = answer L c (middleware m) (treesPtr m) r w"
    "coherent (snd (dispatch L pick c m r w))" "sameRouting m (snd (dispatch L pick c m r w))"
proof -
  have "fst (dispatch L pick c m r w) = answer L c (middleware m) (treesPtr m) r w
    \<and> coherent (snd (dispatch L pick c m r w)) \<and> sameRouting m (snd (dispatch L pick c m r w))"
  proof (cases "decide c (treesPtr m) r")
    case (Inl e)
    then show ?thesis using assms(1) by (simp add: dispatch_def answer_def sameRouting_def)
  next
    case (Inr d)
    then show ?thesis
      using execute_spec [OF assms decide_good [OF Inr]] by (simp add: dispatch_def answer_def)
  qed
  then show "fst (dispatch L pick c m r w) = answer L c (middleware m) (treesPtr m) r w"
    "coherent (snd (dispatch L pick c m r w))" "sameRouting m (snd (dispatch L pick c m r w))"
    by blast+
qed

lemma config_spec:
  assumes "coherent m"
  shows "coherent (snd (config m))" "cfg (snd (config m)) = Some (fst (config m))"
    "fst (config m) = (case cfg m of Some c \<Rightarrow> c | None \<Rightarrow> frozenConfig (settings m))"
    "treesPtr (snd (config m)) = treesPtr m" "middleware (snd (config m)) = middleware m"
    "preHandlerPtr (snd (config m)) = preHandlerPtr m" "settings (snd (config m)) = settings m"
  using assms
  by (auto simp: config_def coherent_def cachesFor_def redirectCoherent_def Let_def split: option.splits)

lemma serveInner_spec:
  assumes "coherent m" "cfg m = Some c"
  shows "fst (serveInner L pick c m r w)
      = (case preHandlerPtr m of
           Some mws \<Rightarrow> wrapServe (answer L c (middleware m) (treesPtr m)) mws r w
         | None \<Rightarrow> answer L c (middleware m) (treesPtr m) r w)"
    "coherent (snd (serveInner L pick c m r w))" "sameRouting m (snd (serveInner L pick c m r w))"
proof -
  have "(\<lambda>r w. fst (dispatch L pick (fst (config m)) m r w)) = answer L c (middleware m) (treesPtr m)"
    using dispatch_spec(1) [OF assms] assms(2) by (simp add: config_def fun_eq_iff)
  then show "fst (serveInner L pick c m r w)
      = (case preHandlerPtr m of
           Some mws \<Rightarrow> wrapServe (answer L c (middleware m) (treesPtr m)) mws r w
         | None \<Rightarrow> answer L c (middleware m) (treesPtr m) r w)"
    using dispatch_spec(1) [OF assms] by (simp add: serveInner_def split: option.splits)
  show "coherent (snd (serveInner L pick c m r w))" "sameRouting m (snd (serveInner L pick c m r w))"
    using dispatch_spec(2,3) [OF assms] assms(1)
    by (auto simp: serveInner_def sameRouting_def split: option.splits)
qed

lemma serveHTTP_spec:
  assumes "coherent m"
  shows "fst (serveHTTP L pick m r w) = serveSpec L m r w"
    "coherent (snd (serveHTTP L pick m r w))" "sameRouting (snd (config m)) (snd (serveHTTP L pick m r w))"
proof -
  obtain c m1 where c: "config m = (c, m1)" by fastforce
  note cs = config_spec [OF assms, unfolded c fst_conv snd_conv]
  note si = serveInner_spec [OF cs(1,2), of L pick r w]
  show "fst (serveHTTP L pick m r w) = serveSpec L m r w"
    unfolding serveHTTP_def serveSpec_def c dispatchWithRecover_def Let_def prod.case split_beta cs(3) [symmetric]
    using si(1) unfolding cs(4-6) by simp
  show "coherent (snd (serveHTTP L pick m r w))" "sameRouting (snd (config m)) (snd (serveHTTP L pick m r w))"
    using si(2,3) by (simp_all add: serveHTTP_def c dispatchWithRecover_def Let_def split_beta)
qed

end
