(* ===== verification/RouterState.thy ===== *)
theory RouterState
  imports Serving TreeProperties
begin

text \<open>
  The states a router can reach by registrations, middleware, configuration changes and
  requests, as a step relation that also keeps the routing table the registrations have built.
  Two invariants hold in all of them: the caches and pools agree with the configuration and the
  middleware, and every tree is the one its rows of the table build.
\<close>

section \<open>Routing tables\<close>

text \<open>A row: the method's index, the pattern, and the handlers as they are stored in the leaf.\<close>

type_synonym 'w row = "nat \<times> string \<times> 'w handler option \<times> 'w fastHandler option"

definition rowsFor :: "nat \<Rightarrow> 'w row list \<Rightarrow> (string \<times> 'w handler option \<times> 'w fastHandler option) list" where
  "rowsFor i tbl = map snd (filter (\<lambda>row. fst row = i) tbl)"

lemma rowsFor_simps [simp]:
  "rowsFor i [] = []"
  "rowsFor i (tbl @ tbl') = rowsFor i tbl @ rowsFor i tbl'"
  "rowsFor i ((j, rest) # tbl) = (if j = i then rest # rowsFor i tbl else rowsFor i tbl)"
  by (simp_all add: rowsFor_def)

lemma registerAll_append:
  "registerAll rc n (rs @ rs')
   = (case registerAll rc n rs of Inl e \<Rightarrow> Inl e | Inr n' \<Rightarrow> registerAll rc n' rs')"
  by (induction rc n rs rule: registerAll.induct) (auto split: sum.splits)

section \<open>Steps\<close>

text \<open>
  \<open>settings\<close> is an assignment to the exported fields; \<open>dispatched\<close> is a call of the dispatch
  closure from within a \<open>Pre\<close> chain, which reads or makes the snapshot first.
\<close>

inductive reachFrom ::
  "regexLib \<Rightarrow> libs \<Rightarrow> 'w mux \<Rightarrow> 'w row list \<Rightarrow> 'w mux \<Rightarrow> 'w row list \<Rightarrow> bool"
  for rc L m0 tbl0
where
  here: "reachFrom rc L m0 tbl0 m0 tbl0"
| handled: "reachFrom rc L m0 tbl0 m tbl \<Longrightarrow> handle rc meth pattern h m = (m', None)
    \<Longrightarrow> methodIdx meth = Some i
    \<Longrightarrow> reachFrom rc L m0 tbl0 m' (tbl @ [(i, pattern, wrapMiddleware h (middleware m), None)])"
| handle_refused: "reachFrom rc L m0 tbl0 m tbl \<Longrightarrow> handle rc meth pattern h m = (m', Some e)
    \<Longrightarrow> reachFrom rc L m0 tbl0 m' tbl"
| fast_handled: "reachFrom rc L m0 tbl0 m tbl \<Longrightarrow> handleFast rc meth pattern f m = (m', None)
    \<Longrightarrow> methodIdx meth = Some i
    \<Longrightarrow> reachFrom rc L m0 tbl0 m' (tbl @ [(i, pattern, None, wrapFastMiddleware f (fastMiddleware m))])"
| fast_refused: "reachFrom rc L m0 tbl0 m tbl \<Longrightarrow> handleFast rc meth pattern f m = (m', Some e)
    \<Longrightarrow> reachFrom rc L m0 tbl0 m' tbl"
| used: "reachFrom rc L m0 tbl0 m tbl \<Longrightarrow> reachFrom rc L m0 tbl0 (useMiddleware mws m) tbl"
| pre_used: "reachFrom rc L m0 tbl0 m tbl \<Longrightarrow> reachFrom rc L m0 tbl0 (preMiddleware mws m) tbl"
| fast_used: "reachFrom rc L m0 tbl0 m tbl \<Longrightarrow> reachFrom rc L m0 tbl0 (useFast fmws m) tbl"
| settings: "reachFrom rc L m0 tbl0 m tbl \<Longrightarrow> reachFrom rc L m0 tbl0 (m\<lparr>settings := s\<rparr>) tbl"
| rebuilt: "reachFrom rc L m0 tbl0 m tbl \<Longrightarrow> reachFrom rc L m0 tbl0 (rebuild m) tbl"
| served: "reachFrom rc L m0 tbl0 m tbl
    \<Longrightarrow> reachFrom rc L m0 tbl0 (snd (serveHTTP L pick m r w)) tbl"
| dispatched: "reachFrom rc L m0 tbl0 m tbl
    \<Longrightarrow> reachFrom rc L m0 tbl0 (snd (dispatch L pick (fst (config m)) (snd (config m)) r w)) tbl"

text \<open>The states reached from a new router, whose table is empty.\<close>

abbreviation reach :: "regexLib \<Rightarrow> libs \<Rightarrow> 'w mux \<Rightarrow> 'w row list \<Rightarrow> bool" where
  "reach rc L \<equiv> reachFrom rc L newMux []"

lemma reachFrom_trans:
  assumes "reachFrom rc L m0 tbl0 m1 tbl1" "reachFrom rc L m1 tbl1 m tbl"
  shows "reachFrom rc L m0 tbl0 m tbl"
  using assms(2,1) by (induction rule: reachFrom.induct) (auto intro: reachFrom.intros)

section \<open>What the registration operations change\<close>

text \<open>Everything of the state that the invariants read, apart from the trees.\<close>

definition sameServing :: "'w mux \<Rightarrow> 'w mux \<Rightarrow> bool" where
  "sameServing m m' \<longleftrightarrow>
     cfg m' = cfg m \<and> settings m' = settings m \<and> middleware m' = middleware m \<and> pre m' = pre m
     \<and> fastMiddleware m' = fastMiddleware m \<and> preHandlerPtr m' = preHandlerPtr m
     \<and> lazyNotFoundPtr m' = lazyNotFoundPtr m \<and> redirectMWPtr m' = redirectMWPtr m
     \<and> redirectGen m' = redirectGen m \<and> lazyRedirectPtr m' = lazyRedirectPtr m
     \<and> methodNotAllowedCache m' = methodNotAllowedCache m \<and> optionsCache m' = optionsCache m
     \<and> packagePools m' = packagePools m"

lemma warn_same: "sameServing m (warnRawPathDecodeIfEnabled m)" "treesPtr (warnRawPathDecodeIfEnabled m) = treesPtr m"
  "middleware (warnRawPathDecodeIfEnabled m) = middleware m"
  "fastMiddleware (warnRawPathDecodeIfEnabled m) = fastMiddleware m"
  by (simp_all add: sameServing_def warnRawPathDecodeIfEnabled_def)

lemma publishRoute_same: "publishRoute add i m = (m', e) \<Longrightarrow> sameServing m m'"
  by (auto simp: publishRoute_def sameServing_def Let_def split: sum.splits)

lemma sameServing_trans: "sameServing a b \<Longrightarrow> sameServing b c \<Longrightarrow> sameServing a c"
  by (simp add: sameServing_def)

lemma sameServing_refl [simp]: "sameServing m m"
  by (simp add: sameServing_def)

lemma publishRoute_refused: "publishRoute add i m = (m', Some e) \<Longrightarrow> m' = m"
  by (auto simp: publishRoute_def Let_def split: sum.splits)

text \<open>The tree of an index, None where the router has none.\<close>

definition treeOf :: "'w mux \<Rightarrow> nat \<Rightarrow> 'w tree option" where
  "treeOf m i = (case treesPtr m of None \<Rightarrow> None | Some ts \<Rightarrow> ts ! i)"

lemma publishRoute_added:
  assumes "publishRoute add i m = (m', None)" "i < methodCount"
    and "\<forall>ts. treesPtr m = Some ts \<longrightarrow> length ts = methodCount"
  shows "\<exists>n ts. add (case treeOf m i of Some n \<Rightarrow> n | None \<Rightarrow> emptyNode) = Inr n
    \<and> treesPtr m' = Some ts \<and> length ts = methodCount
    \<and> (\<forall>j < methodCount. ts ! j = (if j = i then Some n else treeOf m j))"
  using assms by (auto simp: publishRoute_def treeOf_def Let_def nth_list_update split: sum.splits option.splits)

lemma handle_accepted:
  assumes "handle rc meth pattern h m = (m', None)" "methodIdx meth = Some i"
  shows "publishRoute (\<lambda>root. addRoute rc root pattern (wrapMiddleware h (middleware m))) i
      (warnRawPathDecodeIfEnabled m) = (m', None)" "h \<noteq> None" "pattern \<noteq> []" "hd pattern = CHR ''/''"
  using assms by (auto simp: handle_def Let_def warn_same split: if_splits)

lemma handleFast_accepted:
  assumes "handleFast rc meth pattern f m = (m', None)" "methodIdx meth = Some i"
  shows "publishRoute (\<lambda>root. addRouteFast rc root pattern (wrapFastMiddleware f (fastMiddleware m))) i
      (warnRawPathDecodeIfEnabled m) = (m', None)" "f \<noteq> None" "middleware m = []" "pattern \<noteq> []"
    "hd pattern = CHR ''/''"
  using assms by (auto simp: handleFast_def Let_def warn_same split: if_splits)

lemma handle_idx: "handle rc meth pattern h m = (m', None) \<Longrightarrow> \<exists>i. methodIdx meth = Some i"
  by (auto simp: handle_def Let_def split: if_splits option.splits)

lemma handleFast_idx: "handleFast rc meth pattern f m = (m', None) \<Longrightarrow> \<exists>i. methodIdx meth = Some i"
  by (auto simp: handleFast_def Let_def split: if_splits option.splits)

lemma methodIdx_less: "methodIdx meth = Some i \<Longrightarrow> i < methodCount"
  by (auto simp: methodIdx_def methodCount_def split: if_splits)

text \<open>A refused registration changes nothing but the warning's flag.\<close>

lemma handle_refused_state:
  "handle rc meth pattern h m = (m', Some e) \<Longrightarrow> m' = m \<or> m' = warnRawPathDecodeIfEnabled m"
  by (auto simp: handle_def Let_def dest: publishRoute_refused split: if_splits option.splits)

lemma handleFast_refused_state:
  "handleFast rc meth pattern f m = (m', Some e) \<Longrightarrow> m' = m \<or> m' = warnRawPathDecodeIfEnabled m"
  by (auto simp: handleFast_def Let_def dest: publishRoute_refused split: if_splits option.splits)

lemma handle_same: "handle rc meth pattern h m = (m', e) \<Longrightarrow> sameServing m m'"
  unfolding handle_def Let_def
  by (auto split: if_splits option.splits dest!: publishRoute_same intro: sameServing_trans [OF warn_same(1)] warn_same(1))

lemma handleFast_same: "handleFast rc meth pattern f m = (m', e) \<Longrightarrow> sameServing m m'"
  unfolding handleFast_def Let_def
  by (auto split: if_splits option.splits dest!: publishRoute_same intro: sameServing_trans [OF warn_same(1)] warn_same(1))

section \<open>The caches stay coherent\<close>

lemma coherent_same: "coherent m \<Longrightarrow> sameServing m m' \<Longrightarrow> coherent m'"
  by (simp add: coherent_def cachesFor_def redirectCoherent_def sameServing_def split: option.splits)

lemma coherent_use: "coherent m \<Longrightarrow> coherent (useMiddleware mws m)"
  by (auto simp: coherent_def useMiddleware_def cachesFor_def redirectCoherent_def split: option.splits)

lemma coherent_rebuild: "coherent m \<Longrightarrow> coherent (rebuild m)"
  by (auto simp: coherent_def rebuild_def redirectCoherent_def split: option.splits)

lemma coherent_fields:
  "coherent m \<Longrightarrow> coherent (preMiddleware mws m)" "coherent m \<Longrightarrow> coherent (useFast fmws m)"
  "coherent m \<Longrightarrow> coherent (m\<lparr>settings := s\<rparr>)"
  by (simp_all add: coherent_def cachesFor_def redirectCoherent_def preMiddleware_def useFast_def
      split: option.splits)

lemma reach_coherent: "reach rc L m tbl \<Longrightarrow> coherent m"
proof (induction rule: reachFrom.induct)
  case (served m tbl pick r w)
  then show ?case by (simp add: serveHTTP_spec(2))
next
  case (dispatched m tbl pick r w)
  then show ?case by (simp add: dispatch_spec(2) config_spec(1,2))
qed (auto simp: coherent_new coherent_use coherent_rebuild coherent_fields
    intro: coherent_same handle_same handleFast_same)

section \<open>The trees are built by the rows\<close>

definition routed :: "regexLib \<Rightarrow> 'w mux \<Rightarrow> 'w row list \<Rightarrow> bool" where
  "routed rc m tbl \<longleftrightarrow>
     (\<forall>ts. treesPtr m = Some ts \<longrightarrow> length ts = methodCount)
     \<and> (\<forall>i < methodCount.
          case treeOf m i of
            None \<Rightarrow> rowsFor i tbl = []
          | Some n \<Rightarrow> rowsFor i tbl \<noteq> [] \<and> registerAll rc emptyNode (rowsFor i tbl) = Inr n)"

lemma routed_trees: "routed rc m tbl \<Longrightarrow> treesPtr m' = treesPtr m \<Longrightarrow> routed rc m' tbl"
  by (simp add: routed_def treeOf_def)

lemma routed_added:
  assumes "routed rc m tbl" "i < methodCount"
    and "publishRoute add i (warnRawPathDecodeIfEnabled m) = (m', None)"
    and add: "\<And>root. add root = addRouteInternal rc root pattern h f"
  shows "routed rc m' (tbl @ [(i, pattern, h, f)])"
proof -
  let ?root = "case treeOf m i of Some n \<Rightarrow> n | None \<Rightarrow> emptyNode"
  have t: "treeOf (warnRawPathDecodeIfEnabled m) = treeOf m"
    by (simp add: treeOf_def warn_same fun_eq_iff)
  have len: "\<forall>ts. treesPtr (warnRawPathDecodeIfEnabled m) = Some ts \<longrightarrow> length ts = methodCount"
    using assms(1) by (simp add: routed_def warn_same)
  obtain n ts where n: "addRouteInternal rc ?root pattern h f = Inr n" "treesPtr m' = Some ts"
    "length ts = methodCount" "\<forall>j < methodCount. ts ! j = (if j = i then Some n else treeOf m j)"
    using publishRoute_added [OF assms(3,2) len] t add by auto
  have old: "registerAll rc emptyNode (rowsFor i tbl) = Inr ?root"
    using assms(1,2) by (cases "treeOf m i") (auto simp: routed_def)
  have "registerAll rc emptyNode (rowsFor i (tbl @ [(i, pattern, h, f)])) = Inr n"
    using old n(1) by (simp add: registerAll_append)
  moreover have "treeOf m' j = ts ! j" for j using n(2) by (simp add: treeOf_def)
  ultimately show ?thesis
    using n(2-4) assms(1) by (auto simp: routed_def simp del: rowsFor_simps(2)) (auto split: option.splits)
qed

lemma reach_routed: "reach rc L m tbl \<Longrightarrow> routed rc m tbl"
proof (induction rule: reachFrom.induct)
  case here
  then show ?case by (simp add: routed_def newMux_def treeOf_def)
next
  case (handled m tbl meth pattern h m' i)
  show ?case
    by (rule routed_added [OF handled.IH methodIdx_less [OF handled.hyps(3)]
          handle_accepted(1) [OF handled.hyps(2,3)]]) (simp add: addRoute_def)
next
  case (fast_handled m tbl meth pattern f m' i)
  show ?case
    by (rule routed_added [OF fast_handled.IH methodIdx_less [OF fast_handled.hyps(3)]
          handleFast_accepted(1) [OF fast_handled.hyps(2,3)]]) (simp add: addRouteFast_def)
next
  case (handle_refused m tbl meth pattern h m' e)
  then show ?case using handle_refused_state [OF handle_refused.hyps(2)] warn_same(2) by (auto intro: routed_trees)
next
  case (fast_refused m tbl meth pattern f m' e)
  then show ?case using handleFast_refused_state [OF fast_refused.hyps(2)] warn_same(2) by (auto intro: routed_trees)
next
  case (served m tbl pick r w)
  then show ?case
    using serveHTTP_spec(3) [OF reach_coherent [OF served.hyps]] config_spec(4) [OF reach_coherent [OF served.hyps]]
    by (auto simp: sameRouting_def intro: routed_trees)
next
  case (dispatched m tbl pick r w)
  note c = config_spec [OF reach_coherent [OF dispatched.hyps]]
  show ?case
    using dispatch_spec(3) [OF c(1,2)] c(4) dispatched.IH by (auto simp: sameRouting_def intro: routed_trees)
qed (auto simp: useMiddleware_def preMiddleware_def useFast_def rebuild_def intro: routed_trees)

end
