(* ===== verification/MuxDecision.thy ===== *)
theory MuxDecision
  imports RouterState
begin

text \<open>
  What the routing decision of a request is, in terms of the routing table: which row serves it,
  when it is redirected, and what the Allow header lists.
\<close>

section \<open>Matching a row of the table\<close>

text \<open>The patterns of the table that the tree theory covers, with a handler in every leaf.\<close>

definition tableOK :: "'w row list \<Rightarrow> bool" where
  "tableOK tbl \<longleftrightarrow> (\<forall>i < methodCount. registrable (rowsFor i tbl))"

definition matchesIn :: "regexLib \<Rightarrow> 'w row list \<Rightarrow> nat \<Rightarrow> string \<Rightarrow> bool" where
  "matchesIn rc tbl i path \<longleftrightarrow> (\<exists>q \<in> fst ` set (registered (rowsFor i tbl)). matchPat rc q path \<noteq> None)"

definition matchesMethod :: "regexLib \<Rightarrow> 'w row list \<Rightarrow> string \<Rightarrow> string \<Rightarrow> bool" where
  "matchesMethod rc tbl meth path \<longleftrightarrow>
     (case methodIdx meth of None \<Rightarrow> False | Some i \<Rightarrow> matchesIn rc tbl i path)"

text \<open>The pattern with its handlers is the row's, it captures the parameters, and no other is preferred.\<close>

definition bestIn ::
  "regexLib \<Rightarrow> 'w row list \<Rightarrow> nat \<Rightarrow> string \<Rightarrow> string \<Rightarrow> 'w handler option \<Rightarrow> 'w fastHandler option
     \<Rightarrow> Params \<Rightarrow> bool"
where
  "bestIn rc tbl i path p h f ps \<longleftrightarrow>
     (p, h, f, p) \<in> set (registered (rowsFor i tbl)) \<and> matchPat rc p path = Some ps
     \<and> (\<forall>q \<in> fst ` set (registered (rowsFor i tbl)). matchPat rc q path \<noteq> None \<longrightarrow> q = p \<or> preferred p q)"

definition allowNames :: "regexLib \<Rightarrow> 'w row list \<Rightarrow> string \<Rightarrow> string \<Rightarrow> string list" where
  "allowNames rc tbl meth path =
     map (\<lambda>i. methodNames ! i)
       (filter (\<lambda>i. i \<noteq> idxOPTIONS \<and> i \<noteq> idxWild \<and> methodNames ! i \<noteq> meth \<and> matchesIn rc tbl i path)
          [0..<methodCount])"

definition allowHeader :: "regexLib \<Rightarrow> 'w row list \<Rightarrow> string \<Rightarrow> string \<Rightarrow> string" where
  "allowHeader rc tbl meth path =
     (if allowNames rc tbl meth path = [] then []
      else joinStr '', '' (allowNames rc tbl meth path) @ '', OPTIONS'')"

lemma emptyBuf_OK [simp]: "bufOK emptyBuf" "pcount emptyBuf = 0" "bufParams emptyBuf = []"
  by (simp_all add: emptyBuf_def bufOK_def bufParams_def)

lemma routed_row:
  assumes "routed rc m tbl" "tableOK tbl" "i < methodCount" "treeOf m i = Some n"
  shows "registerAll rc emptyNode (rowsFor i tbl) = Inr n" "registrable (rowsFor i tbl)"
  using assms by (auto simp: routed_def tableOK_def)

lemma no_tree_no_match:
  assumes "routed rc m tbl" "i < methodCount" "treeOf m i = None"
  shows "\<not> matchesIn rc tbl i path"
  using assms by (auto simp: routed_def matchesIn_def registered_def)

text \<open>
  The trailing-slash hint for a path: whether the depth-first search in the tree that the rows
  build ends without a handler but has met the path with a slash more or less.
\<close>

definition slashHint :: "regexLib \<Rightarrow> 'w row list \<Rightarrow> nat \<Rightarrow> string \<Rightarrow> bool" where
  "slashHint rc tbl i path \<longleftrightarrow>
     rowsFor i tbl \<noteq> []
     \<and> (case registerAll rc emptyNode (rowsFor i tbl) of
          Inl e \<Rightarrow> False
        | Inr n \<Rightarrow> (case search False False n path of Inr (Miss hint) \<Rightarrow> hint | _ \<Rightarrow> False))"

lemma slashHint_routed:
  assumes "routed rc m tbl" "i < methodCount"
  shows "slashHint rc tbl i path
    \<longleftrightarrow> (case treeOf m i of
           None \<Rightarrow> False
         | Some n \<Rightarrow> (case search False False n path of Inr (Miss hint) \<Rightarrow> hint | _ \<Rightarrow> False))"
  using assms by (auto simp: slashHint_def routed_def split: option.splits)

text \<open>A lookup in the tree of an index, whichever walk and buffer the code uses for it.\<close>

lemma lookup_row:
  assumes "routed rc m tbl" "tableOK tbl" "i < methodCount" "treeOf m i = Some n"
    and "path \<noteq> []" "hd path = CHR ''/''"
  shows "\<exists>res pb. getValue n path (Some emptyBuf) False = Inr (res, Some pb)
    \<and> getValue n path None False = Inr (res, None)
    \<and> (nmaxParams (ndata n) = 0 \<longrightarrow> pb = emptyBuf \<and> getValueStatic n path False = Inr res)
    \<and> (found res \<longrightarrow> bestIn rc tbl i path (opattern res) (ohandler res) (ofast res) (bufParams pb))
    \<and> found res = matchesIn rc tbl i path
    \<and> (\<not> found res \<longrightarrow> (otsr res = Some True) = slashHint rc tbl i path)"
proof -
  note R = routed_row [OF assms(1-4)]
  note A = registered_answers [OF R assms(5,6) emptyBuf_OK(1,2)]
  obtain res qs where g: "getValue n path (Some emptyBuf) False = Inr (res, qs)"
    using A by (cases "getValue n path (Some emptyBuf) False") auto
  obtain pb where pb: "qs = Some pb"
    using getValue_bufOK [of n path emptyBuf False res qs] g by auto
  have f: "found res \<Longrightarrow> bestIn rc tbl i path (opattern res) (ohandler res) (ofast res) (bufParams pb)"
    using A by (simp add: g pb viewOf_def bestIn_def)
  moreover have "\<not> found res \<Longrightarrow> \<not> matchesIn rc tbl i path"
    using A by (simp add: g pb viewOf_def matchesIn_def)
  moreover have "matchesIn rc tbl i path" if "found res"
  proof -
    have b: "(opattern res, ohandler res, ofast res, opattern res) \<in> set (registered (rowsFor i tbl))"
      "matchPat rc (opattern res) path \<noteq> None"
      using f [OF that] by (auto simp: bestIn_def)
    have "opattern res \<in> fst ` set (registered (rowsFor i tbl))"
      using imageI [OF b(1), of fst] by simp
    then show ?thesis using b(2) unfolding matchesIn_def by blast
  qed
  moreover have "pb = emptyBuf \<and> getValueStatic n path False = Inr res" if "nmaxParams (ndata n) = 0"
    using getValue_static [OF registered_noWild [OF R that], of path "Some emptyBuf" False] g pb
    by (auto simp: map_sum_def split: sum.splits)
  moreover have "(otsr res = Some True) = slashHint rc tbl i path" if "\<not> found res"
    using getValue_search [OF emptyBuf_OK(1,2), of n path False] that
    by (simp add: g viewOf_def slashHint_routed [OF assms(1,3)] assms(4) flip: \<open>_ = search False False n path\<close>)
  ultimately show ?thesis
    using g [unfolded pb] getValue_None [OF g] by blast
qed

section \<open>The Allow header\<close>

lemma maskBit_sum:
  "maskBit (\<Sum>i \<in> {0..<n}. if P i then 2 ^ i else 0) j \<longleftrightarrow> j < n \<and> P j"
proof -
  have "(\<Sum>i \<in> {0..<n}. if P i then (2 :: nat) ^ i else 0) = horner_sum of_bool 2 (map P [0..<n])"
    unfolding horner_sum_eq_sum by (rule sum.cong) auto
  then show ?thesis
    by (simp add: maskBit_def flip: bit_iff_odd) (auto simp: bit_horner_sum_bit_iff)
qed

lemma maskBit_zero: "\<not> maskBit 0 j"
  by (simp add: maskBit_def)

lemma allowedMask_sum:
  assumes "\<And>i n. k \<le> i \<Longrightarrow> i < l \<Longrightarrow> g i = Some n \<Longrightarrow> hasHandler n path = Inr (H i)"
    and "\<And>i. k \<le> i \<Longrightarrow> i < l \<Longrightarrow> g i = None \<Longrightarrow> \<not> H i" and "k \<le> l"
  shows "allowedMask path meth (map (\<lambda>i. (i, g i)) [k..<l]) bits
    = Inr (bits + (\<Sum>i \<in> {k..<l}.
        if i \<noteq> idxOPTIONS \<and> i \<noteq> idxWild \<and> methodNames ! i \<noteq> meth \<and> H i then 2 ^ i else 0))"
  using assms
proof (induction "l - k" arbitrary: k bits)
  case (Suc d)
  then have kl: "k < l" by simp
  have u: "[k..<l] = k # [Suc k..<l]" using kl by (rule upt_conv_Cons)
  have s: "{k..<l} = insert k {Suc k..<l}" using kl by auto
  have IH: "allowedMask path meth (map (\<lambda>i. (i, g i)) [Suc k..<l]) b
    = Inr (b + (\<Sum>i \<in> {Suc k..<l}.
        if i \<noteq> idxOPTIONS \<and> i \<noteq> idxWild \<and> methodNames ! i \<noteq> meth \<and> H i then 2 ^ i else 0))" for b
    by (rule Suc.hyps(1)) (use Suc.hyps(2) Suc.prems kl in auto)
  show ?case
  proof (cases "g k")
    case None
    then have "\<not> H k" using Suc.prems(2) kl by simp
    then show ?thesis by (simp add: u s None IH)
  next
    case (Some n)
    then have "hasHandler n path = Inr (H k)" using Suc.prems(1) kl by simp
    then show ?thesis by (simp add: u s Some IH)
  qed
qed simp

lemma hasHandler_row:
  assumes "routed rc m tbl" "tableOK tbl" "i < methodCount" "treeOf m i = Some n"
    and "path \<noteq> []" "hd path = CHR ''/''"
  shows "hasHandler n path = Inr (matchesIn rc tbl i path)"
proof -
  obtain res where "getValue n path None False = Inr (res, None)" "found res = matchesIn rc tbl i path"
    using lookup_row [OF assms] by metis
  then show ?thesis by (simp add: hasHandler_def)
qed

lemma allowed_row:
  assumes "routed rc m tbl" "tableOK tbl" "path \<noteq> []" "hd path = CHR ''/''"
  shows "allowed (treesPtr m) path meth = Inr (allowHeader rc tbl meth path)"
proof (cases "treesPtr m")
  case None
  then have "\<not> matchesIn rc tbl i path" if "i < methodCount" for i
    using no_tree_no_match [OF assms(1) that] by (simp add: treeOf_def)
  then have "allowNames rc tbl meth path = []" by (simp add: allowNames_def)
  then show ?thesis using None by (simp add: allowed_def allowHeader_def)
next
  case (Some ts)
  let ?P = "\<lambda>i. i \<noteq> idxOPTIONS \<and> i \<noteq> idxWild \<and> methodNames ! i \<noteq> meth \<and> matchesIn rc tbl i path"
  let ?b = "\<Sum>i \<in> {0..<methodCount}. if ?P i then (2 :: nat) ^ i else 0"
  have len: "length ts = methodCount" using assms(1) Some by (simp add: routed_def)
  have e: "enumerate 0 ts = map (\<lambda>i. (i, treeOf m i)) [0..<methodCount]"
    by (rule nth_equalityI) (simp_all add: len nth_enumerate_eq treeOf_def Some)
  have "allowedMask path meth (enumerate 0 ts) 0 = Inr ?b"
    unfolding e by (subst allowedMask_sum [where H = "\<lambda>i. matchesIn rc tbl i path"])
      (auto simp: hasHandler_row [OF assms(1,2) _ _ assms(3,4)] no_tree_no_match [OF assms(1)])
  moreover have "allowEntry ?b = allowHeader rc tbl meth path"
  proof (cases "allowNames rc tbl meth path = []")
    case True
    then have "\<forall>i \<in> {0..<methodCount}. \<not> ?P i" by (auto simp: allowNames_def filter_empty_conv)
    then have "?b = 0" by (intro sum.neutral) auto
    then show ?thesis using True by (simp add: allowEntry_def allowHeader_def)
  next
    case False
    then obtain j where "j < methodCount" "?P j" by (auto simp: allowNames_def filter_empty_conv)
    then have "maskBit ?b j" unfolding maskBit_sum by blast
    then have "?b \<noteq> 0" using maskBit_zero by metis
    moreover have "\<not> maskBit ?b idxOPTIONS" "\<not> maskBit ?b idxWild" unfolding maskBit_sum by blast+
    moreover have "filter (maskBit ?b) [0..<methodCount] = filter ?P [0..<methodCount]"
      unfolding maskBit_sum by (rule filter_cong) auto
    ultimately show ?thesis
      using False by (simp add: allowEntry_def allowHeader_def allowNames_def Let_def del: sum_eq_0_iff)
  qed
  ultimately show ?thesis using Some by (simp add: allowed_def)
qed

section \<open>The decision\<close>

text \<open>
  The decision that the table, the settings and the two trailing-slash hints determine, for a
  rooted path and case-sensitive matching: one after the other the preferred row of the method,
  the redirect to the toggled slash, the redirect to the cleaned path, the preferred row of "*",
  the redirect to the toggled slash of a row of "*", and the answers for OPTIONS, 405 and 404.
\<close>

definition ownSlash :: "regexLib \<Rightarrow> 'w row list \<Rightarrow> string \<Rightarrow> string \<Rightarrow> bool" where
  "ownSlash rc tbl meth path \<longleftrightarrow>
     (case methodIdx meth of None \<Rightarrow> False | Some i \<Rightarrow> slashHint rc tbl i path)"

definition movable :: "string \<Rightarrow> string \<Rightarrow> bool" where
  "movable meth path \<longleftrightarrow> meth \<noteq> ''CONNECT'' \<and> path \<noteq> ''/''"

definition ownDecided ::
  "regexLib \<Rightarrow> 'w muxConfig \<Rightarrow> 'w row list \<Rightarrow> request \<Rightarrow> 'w decision option \<Rightarrow> bool"
where
  "ownDecided rc c tbl r pd \<longleftrightarrow>
     (let path = urlPathOf c r; meth = rMethod r; code = resolveRedirectCode c meth in
      if matchesMethod rc tbl meth path then
        (\<exists>i p h f pb. methodIdx meth = Some i \<and> bestIn rc tbl i path p h f (bufParams pb)
           \<and> pd = Some (Serve False h f p pb))
      else if movable meth path \<and> redirectTrailingSlash c \<and> ownSlash rc tbl meth path then
        pd = Some (RedirectTo (redirectTo r (toggleSlash path)) code)
      else if movable meth path \<and> redirectFixedPath c \<and> pathClean path \<noteq> path
           \<and> matchesMethod rc tbl meth (pathClean path) then
        pd = Some (RedirectTo (redirectTo r (pathClean path)) code)
      else pd = None)"

definition starDecided ::
  "regexLib \<Rightarrow> 'w muxConfig \<Rightarrow> 'w row list \<Rightarrow> request \<Rightarrow> 'w decision option \<Rightarrow> bool"
where
  "starDecided rc c tbl r pd \<longleftrightarrow>
     (let path = urlPathOf c r; meth = rMethod r in
      if matchesIn rc tbl idxWild path then
        (\<exists>p h f pb. bestIn rc tbl idxWild path p h f (bufParams pb) \<and> pd = Some (Serve True h f p pb))
      else if movable meth path \<and> redirectTrailingSlash c \<and> slashHint rc tbl idxWild path then
        pd = Some (RedirectTo (redirectTo r (toggleSlash path)) (resolveRedirectCode c meth))
      else pd = None)"

definition missDecision :: "regexLib \<Rightarrow> 'w muxConfig \<Rightarrow> 'w row list \<Rightarrow> request \<Rightarrow> 'w decision" where
  "missDecision rc c tbl r =
     (let meth = rMethod r; allow = allowHeader rc tbl meth (urlPathOf c r) in
      if meth = ''OPTIONS'' \<and> handleOPTIONS c then (if allow \<noteq> [] then AutoOptions allow else NoRoute)
      else if handleMethodNotAllowed c \<and> allow \<noteq> [] then NotAllowed allow
      else NoRoute)"

definition decidedBy ::
  "regexLib \<Rightarrow> 'w muxConfig \<Rightarrow> 'w row list \<Rightarrow> request \<Rightarrow> 'w decision \<Rightarrow> bool"
where
  "decidedBy rc c tbl r d \<longleftrightarrow>
     ownDecided rc c tbl r (Some d)
     \<or> ownDecided rc c tbl r None \<and> starDecided rc c tbl r (Some d)
     \<or> ownDecided rc c tbl r None \<and> starDecided rc c tbl r None \<and> d = missDecision rc c tbl r"

lemma rooted_clean: "p \<noteq> [] \<Longrightarrow> hd p = CHR ''/'' \<Longrightarrow> pathClean p \<noteq> [] \<and> hd (pathClean p) = CHR ''/''"
  by (simp add: pathClean_def Let_def)

lemma primaryLookup_row:
  assumes "routed rc m tbl" "tableOK tbl" "i < methodCount" "treeOf m i = Some n"
    and "path \<noteq> []" "hd path = CHR ''/''" "\<not> caseInsensitive c"
  shows "\<exists>res pb. primaryLookup c n path = Inr (res, pb)
    \<and> (found res \<longrightarrow> bestIn rc tbl i path (opattern res) (ohandler res) (ofast res) (bufParams pb))
    \<and> found res = matchesIn rc tbl i path
    \<and> (\<not> found res \<longrightarrow> (otsr res = Some True) = slashHint rc tbl i path)"
proof -
  obtain res pb where "getValue n path (Some emptyBuf) False = Inr (res, Some pb)"
    "nmaxParams (ndata n) = 0 \<longrightarrow> pb = emptyBuf \<and> getValueStatic n path False = Inr res"
    "found res \<longrightarrow> bestIn rc tbl i path (opattern res) (ohandler res) (ofast res) (bufParams pb)"
    "found res = matchesIn rc tbl i path"
    "\<not> found res \<longrightarrow> (otsr res = Some True) = slashHint rc tbl i path"
    using lookup_row [OF assms(1-6)] by blast
  then have "primaryLookup c n path = Inr (res, pb)" using assms(7) by (simp add: primaryLookup_def)
  then show ?thesis using \<open>found res \<longrightarrow> _\<close> \<open>found res = _\<close> \<open>\<not> found res \<longrightarrow> _\<close> by blast
qed

lemma cleanedPath_row:
  assumes "routed rc m tbl" "tableOK tbl" "i < methodCount" "treeOf m i = Some n"
    and "path \<noteq> []" "hd path = CHR ''/''"
  shows "cleanedPath n path
    = Inr (if pathClean path \<noteq> path \<and> matchesIn rc tbl i (pathClean path) then Some (pathClean path) else None)"
proof -
  note R = rooted_clean [OF assms(5,6)]
  obtain res where "getValue n (pathClean path) None False = Inr (res, None)"
    "found res = matchesIn rc tbl i (pathClean path)"
    using lookup_row [OF assms(1-4) conjunct1 [OF R] conjunct2 [OF R]] by metis
  then show ?thesis by (simp add: cleanedPath_def Let_def)
qed

lemma primaryDecision_row:
  assumes "routed rc m tbl" "tableOK tbl" "\<not> caseInsensitive c" "urlPathOf c r = path"
    and "path \<noteq> []" "hd path = CHR ''/''"
  shows "\<exists>pd. primaryDecision c (treesPtr m) r = Inr pd \<and> ownDecided rc c tbl r pd"
proof (cases "methodIdx (rMethod r)")
  case None
  then show ?thesis
    by (simp add: primaryDecision_def matchesMethod_def ownDecided_def ownSlash_def Let_def split: option.splits)
next
  case (Some i)
  note il = methodIdx_less [OF Some]
  have root: "(case treesPtr m of None \<Rightarrow> None
      | Some ts \<Rightarrow> (case methodIdx (rMethod r) of None \<Rightarrow> None | Some idx \<Rightarrow> ts ! idx)) = treeOf m i"
    by (simp add: Some treeOf_def split: option.splits)
  show ?thesis
  proof (cases "treeOf m i")
    case None
    then show ?thesis
      using no_tree_no_match [OF assms(1) il None]
      by (simp add: primaryDecision_def root matchesMethod_def Some ownDecided_def ownSlash_def Let_def
          slashHint_routed [OF assms(1) il])
  next
    case n: (Some n)
    obtain res pb where l: "primaryLookup c n path = Inr (res, pb)"
      "found res \<longrightarrow> bestIn rc tbl i path (opattern res) (ohandler res) (ofast res) (bufParams pb)"
      "found res = matchesIn rc tbl i path"
      "\<not> found res \<longrightarrow> (otsr res = Some True) = slashHint rc tbl i path"
      using primaryLookup_row [OF assms(1,2) il n assms(5,6,3)] by blast
    show ?thesis
    proof (cases "found res")
      case True
      then show ?thesis
        using l by (auto simp: primaryDecision_def root n assms(4) ownDecided_def Some Let_def matchesMethod_def)
    next
      case False
      then have h: "(otsr res = Some True) = slashHint rc tbl i path" "\<not> matchesIn rc tbl i path"
        using l(3,4) by simp_all
      have "primaryDecision c (treesPtr m) r = Inr
          (if movable (rMethod r) path \<and> redirectTrailingSlash c \<and> slashHint rc tbl i path
           then Some (RedirectTo (redirectTo r (toggleSlash path)) (resolveRedirectCode c (rMethod r)))
           else if movable (rMethod r) path \<and> redirectFixedPath c \<and> pathClean path \<noteq> path
                \<and> matchesIn rc tbl i (pathClean path)
           then Some (RedirectTo (redirectTo r (pathClean path)) (resolveRedirectCode c (rMethod r)))
           else None)"
        unfolding primaryDecision_def Let_def root n option.case assms(4) l(1) sum.case prod.case h(1)
          cleanedPath_row [OF assms(1,2) il n assms(5,6)] movable_def
        using False by simp
      then show ?thesis
        using h(2) by (simp add: ownDecided_def Let_def assms(4) matchesMethod_def ownSlash_def Some)
    qed
  qed
qed

lemma starDecision_row:
  assumes "routed rc m tbl" "tableOK tbl" "\<not> caseInsensitive c" "urlPathOf c r = path"
    and "path \<noteq> []" "hd path = CHR ''/''"
  shows "\<exists>pd. starDecision c (treesPtr m) r = Inr pd \<and> starDecided rc c tbl r pd"
proof -
  have il: "idxWild < methodCount" by (simp add: idxWild_def methodCount_def)
  have root: "(case treesPtr m of None \<Rightarrow> None | Some ts \<Rightarrow> ts ! idxWild) = treeOf m idxWild"
    by (simp add: treeOf_def)
  show ?thesis
  proof (cases "treeOf m idxWild")
    case None
    then show ?thesis
      using no_tree_no_match [OF assms(1) il None, of path]
      by (simp add: starDecision_def root starDecided_def Let_def assms(4) slashHint_routed [OF assms(1) il])
  next
    case n: (Some n)
    obtain res pb where l: "getValue n path (Some emptyBuf) False = Inr (res, Some pb)"
      "getValue n path None False = Inr (res, None)"
      "nmaxParams (ndata n) = 0 \<longrightarrow> pb = emptyBuf \<and> getValueStatic n path False = Inr res"
      "found res \<longrightarrow> bestIn rc tbl idxWild path (opattern res) (ohandler res) (ofast res) (bufParams pb)"
      "found res = matchesIn rc tbl idxWild path"
      "\<not> found res \<longrightarrow> (otsr res = Some True) = slashHint rc tbl idxWild path"
      using lookup_row [OF assms(1,2) il n assms(5,6)] by blast
    show ?thesis
    proof (cases "found res")
      case True
      then show ?thesis
        using l assms(3) by (auto simp: starDecision_def root n assms(4) starDecided_def Let_def word_gt_0)
    next
      case False
      then show ?thesis
        using l assms(3)
        by (auto simp: starDecision_def root n assms(4) starDecided_def Let_def word_gt_0 movable_def)
    qed
  qed
qed

lemma fallbackDecision_row:
  assumes "routed rc m tbl" "tableOK tbl" "urlPathOf c r = path" "path \<noteq> []" "hd path = CHR ''/''"
  shows "fallbackDecision c (treesPtr m) r = Inr (missDecision rc c tbl r)"
  using allowed_row [OF assms(1,2,4,5)] by (simp add: fallbackDecision_def missDecision_def Let_def assms(3))

lemma decide_row:
  assumes "routed rc m tbl" "tableOK tbl" "\<not> caseInsensitive c" "urlPathOf c r = path"
    and "path \<noteq> []" "hd path = CHR ''/''"
  shows "\<exists>d. decide c (treesPtr m) r = Inr d \<and> decidedBy rc c tbl r d"
proof -
  obtain pd where p: "primaryDecision c (treesPtr m) r = Inr pd" "ownDecided rc c tbl r pd"
    using primaryDecision_row [OF assms] by blast
  obtain sd where s: "starDecision c (treesPtr m) r = Inr sd" "starDecided rc c tbl r sd"
    using starDecision_row [OF assms] by blast
  note f = fallbackDecision_row [OF assms(1,2,4-6)]
  show ?thesis
    using p(2) s(2) by (cases pd; cases sd) (simp_all add: decide_def p(1) s(1) f decidedBy_def)
qed

text \<open>Where the table decides alone, the decision is one of a few.\<close>

lemma decided_matched:
  assumes "decidedBy rc c tbl r d" "matchesMethod rc tbl (rMethod r) (urlPathOf c r)"
  shows "\<exists>i p h f pb. methodIdx (rMethod r) = Some i
    \<and> bestIn rc tbl i (urlPathOf c r) p h f (bufParams pb) \<and> d = Serve False h f p pb"
  using assms by (auto simp: decidedBy_def ownDecided_def Let_def)

lemma decided_unmatched:
  assumes "decidedBy rc c tbl r d" "\<not> redirectTrailingSlash c" "\<not> redirectFixedPath c"
    and "\<not> matchesMethod rc tbl (rMethod r) (urlPathOf c r)" "\<not> matchesIn rc tbl idxWild (urlPathOf c r)"
  shows "d = missDecision rc c tbl r"
  using assms by (simp add: decidedBy_def ownDecided_def starDecided_def Let_def)

lemma decided_fixed:
  assumes "decidedBy rc c tbl r (RedirectTo target code)" "\<not> redirectTrailingSlash c"
  shows "target = redirectTo r (pathClean (urlPathOf c r))
    \<and> matchesMethod rc tbl (rMethod r) (pathClean (urlPathOf c r))"
  using assms
  by (auto simp: decidedBy_def ownDecided_def starDecided_def missDecision_def Let_def split: if_splits)

end
