(* ===== verification/ServingProperties.thy ===== *)
theory ServingProperties
  imports MuxDecision
begin

text \<open>
  The properties of the router as a whole: in every state that registrations, middleware,
  configuration and requests can lead to, a request is answered as the specification without
  caches says, by the row of the routing table that matches it, through the middleware of that
  row; and what registration and configuration changes do to that.
\<close>

section \<open>Middleware of the rows\<close>

text \<open>
  The registration a row comes from: the handler it was called with in a reachable state, from
  which the present state has been reached, and the middleware the router had then.
\<close>

definition registeredRow ::
  "regexLib \<Rightarrow> libs \<Rightarrow> 'w mux \<Rightarrow> 'w row list \<Rightarrow> 'w row \<Rightarrow> 'w handler \<Rightarrow> 'w middleware list \<Rightarrow> bool"
where
  "registeredRow rc L m tbl row h mws \<longleftrightarrow>
     (\<exists>m0 tbl0 m1 meth i p.
        reach rc L m0 tbl0 \<and> handle rc meth p (Some h) m0 = (m1, None) \<and> methodIdx meth = Some i
        \<and> mws = middleware m0 \<and> row = (i, p, wrapMiddleware (Some h) mws, None)
        \<and> reachFrom rc L m1 (tbl0 @ [row]) m tbl)"

definition registeredFast ::
  "regexLib \<Rightarrow> libs \<Rightarrow> 'w mux \<Rightarrow> 'w row list \<Rightarrow> 'w row \<Rightarrow> 'w fastHandler \<Rightarrow> 'w fastMiddleware list \<Rightarrow> bool"
where
  "registeredFast rc L m tbl row f fmws \<longleftrightarrow>
     (\<exists>m0 tbl0 m1 meth i p.
        reach rc L m0 tbl0 \<and> handleFast rc meth p (Some f) m0 = (m1, None) \<and> methodIdx meth = Some i
        \<and> middleware m0 = [] \<and> fmws = fastMiddleware m0
        \<and> row = (i, p, None, wrapFastMiddleware (Some f) fmws)
        \<and> reachFrom rc L m1 (tbl0 @ [row]) m tbl)"

text \<open>
  Every row comes from such a registration, and whichever it was, the middleware then is an
  initial part of what the router has now.
\<close>

definition rowWrapped :: "regexLib \<Rightarrow> libs \<Rightarrow> 'w mux \<Rightarrow> 'w row list \<Rightarrow> 'w row \<Rightarrow> bool" where
  "rowWrapped rc L m tbl row \<longleftrightarrow>
     ((\<exists>h mws. registeredRow rc L m tbl row h mws) \<or> (\<exists>f fmws. registeredFast rc L m tbl row f fmws))
     \<and> (\<forall>h mws. registeredRow rc L m tbl row h mws \<longrightarrow> take (length mws) (middleware m) = mws)
     \<and> (\<forall>f fmws. registeredFast rc L m tbl row f fmws \<longrightarrow> take (length fmws) (fastMiddleware m) = fmws)"

lemma handle_keeps_middleware:
  "handle rc meth pattern h m = (m', e) \<Longrightarrow> middleware m' = middleware m \<and> fastMiddleware m' = fastMiddleware m"
  "handleFast rc meth pattern f m = (m', e) \<Longrightarrow> middleware m' = middleware m \<and> fastMiddleware m' = fastMiddleware m"
  using handle_same [of rc meth pattern h m m' e] handleFast_same [of rc meth pattern f m m' e]
  by (simp_all add: sameServing_def)

lemma config_keeps_middleware:
  "middleware (snd (config m)) = middleware m" "fastMiddleware (snd (config m)) = fastMiddleware m"
  by (simp_all add: config_def Let_def split: option.splits)

lemma serving_keeps_middleware:
  assumes "coherent m"
  shows "middleware (snd (serveHTTP L pick m r w)) = middleware m
      \<and> fastMiddleware (snd (serveHTTP L pick m r w)) = fastMiddleware m"
    "middleware (snd (dispatch L pick (fst (config m)) (snd (config m)) r w)) = middleware m
      \<and> fastMiddleware (snd (dispatch L pick (fst (config m)) (snd (config m)) r w)) = fastMiddleware m"
  using serveHTTP_spec(3) [OF assms, of L pick r w]
    dispatch_spec(3) [OF config_spec(1,2) [OF assms], of L pick r w]
  by (simp_all add: sameRouting_def config_keeps_middleware)

lemma registered_later:
  "registeredRow rc L m tbl row h mws \<Longrightarrow> reachFrom rc L m tbl m' tbl' \<Longrightarrow> registeredRow rc L m' tbl' row h mws"
  "registeredFast rc L m tbl row f fmws \<Longrightarrow> reachFrom rc L m tbl m' tbl' \<Longrightarrow> registeredFast rc L m' tbl' row f fmws"
  unfolding registeredRow_def registeredFast_def using reachFrom_trans by blast+

definition rowRegistered :: "regexLib \<Rightarrow> libs \<Rightarrow> 'w mux \<Rightarrow> 'w row list \<Rightarrow> bool" where
  "rowRegistered rc L m tbl \<longleftrightarrow>
     (\<forall>row \<in> set tbl. (\<exists>h mws. registeredRow rc L m tbl row h mws) \<or> (\<exists>f fmws. registeredFast rc L m tbl row f fmws))"

lemma rowRegistered_step:
  "rowRegistered rc L m tbl \<Longrightarrow> reachFrom rc L m tbl m' tbl \<Longrightarrow> rowRegistered rc L m' tbl"
  unfolding rowRegistered_def using registered_later by meson

lemma rowRegistered_add:
  assumes "rowRegistered rc L m tbl" "reachFrom rc L m tbl m' (tbl @ [row])"
    and "(\<exists>h mws. registeredRow rc L m' (tbl @ [row]) row h mws)
      \<or> (\<exists>f fmws. registeredFast rc L m' (tbl @ [row]) row f fmws)"
  shows "rowRegistered rc L m' (tbl @ [row])"
proof -
  have "(\<exists>h mws. registeredRow rc L m' (tbl @ [row]) x h mws) \<or> (\<exists>f fmws. registeredFast rc L m' (tbl @ [row]) x f fmws)"
    if "x \<in> set tbl" for x
    using assms(1) that registered_later [OF _ assms(2)] unfolding rowRegistered_def by meson
  then show ?thesis using assms(3) by (auto simp: rowRegistered_def)
qed

lemma reach_registered: "reach rc L m tbl \<Longrightarrow> rowRegistered rc L m tbl"
proof (induction rule: reachFrom.induct)
  case here
  then show ?case by (simp add: rowRegistered_def)
next
  case (handled m tbl meth pattern h m' i)
  obtain h0 where h0: "h = Some h0" using handle_accepted(2) [OF handled.hyps(2,3)] by auto
  have "registeredRow rc L m' (tbl @ [(i, pattern, wrapMiddleware h (middleware m), None)])
      (i, pattern, wrapMiddleware h (middleware m), None) h0 (middleware m)"
    unfolding registeredRow_def using handled.hyps reachFrom.here h0 by blast
  then show ?case
    using rowRegistered_add [OF handled.IH reachFrom.handled [OF reachFrom.here handled.hyps(2,3)]] by blast
next
  case (fast_handled m tbl meth pattern f m' i)
  obtain f0 where f0: "f = Some f0" using handleFast_accepted(2) [OF fast_handled.hyps(2,3)] by auto
  have "registeredFast rc L m' (tbl @ [(i, pattern, None, wrapFastMiddleware f (fastMiddleware m))])
      (i, pattern, None, wrapFastMiddleware f (fastMiddleware m)) f0 (fastMiddleware m)"
    unfolding registeredFast_def
    using fast_handled.hyps handleFast_accepted(3) [OF fast_handled.hyps(2,3)] reachFrom.here f0 by blast
  then show ?case
    using rowRegistered_add [OF fast_handled.IH reachFrom.fast_handled [OF reachFrom.here fast_handled.hyps(2,3)]] by blast
qed (auto intro: rowRegistered_step reachFrom.intros)

text \<open>
  What later steps leave of a state: the rows, the middleware and the fast middleware only
  grow, and a row registered later is wrapped by all the middleware there was at the beginning.
\<close>

definition rowAfter :: "'w middleware list \<Rightarrow> 'w middleware list \<Rightarrow> 'w row \<Rightarrow> bool" where
  "rowAfter base mws row \<longleftrightarrow>
     (case row of
        (i, p, h, f) \<Rightarrow>
          f = None \<and> (\<exists>h0 k. k \<le> length mws \<and> h = wrapMiddleware (Some h0) (base @ take k mws))
          \<or> h = None \<and> base = [])"

lemma rowAfter_wrapped:
  "k \<le> length mws \<Longrightarrow> rowAfter base mws (i, p, wrapMiddleware (Some h0) (base @ take k mws), None)"
  unfolding rowAfter_def by blast

lemma rowAfter_cases:
  assumes "rowAfter base mws row"
  obtains (wrapped) i p h0 k where "row = (i, p, wrapMiddleware (Some h0) (base @ take k mws), None)" "k \<le> length mws"
  | (fast) i p f where "row = (i, p, None, f)" "base = []"
  using assms unfolding rowAfter_def by (cases row) blast

lemma rowAfter_more:
  assumes "rowAfter base mws row"
  shows "rowAfter base (mws @ mws') row"
  using assms
proof (cases rule: rowAfter_cases)
  case (wrapped i p h0 k)
  then show ?thesis using rowAfter_wrapped [of k "mws @ mws'" base i p h0] by simp
qed (simp add: rowAfter_def)

lemma rowAfter_base:
  assumes "rowAfter (base @ mws) [] row"
  shows "rowAfter base mws row"
  using assms
proof (cases rule: rowAfter_cases)
  case (wrapped i p h0 k)
  then show ?thesis using rowAfter_wrapped [of "length mws" mws base i p h0] by simp
qed (simp add: rowAfter_def)

definition grownFrom :: "'w mux \<Rightarrow> 'w row list \<Rightarrow> 'w mux \<Rightarrow> 'w row list \<Rightarrow> bool" where
  "grownFrom m0 tbl0 m tbl \<longleftrightarrow>
     (\<exists>rows mws fmws. tbl = tbl0 @ rows \<and> middleware m = middleware m0 @ mws
        \<and> fastMiddleware m = fastMiddleware m0 @ fmws \<and> (\<forall>row \<in> set rows. rowAfter (middleware m0) mws row))"

lemma grownFrom_same:
  "grownFrom m0 tbl0 m tbl \<Longrightarrow> middleware m' = middleware m \<Longrightarrow> fastMiddleware m' = fastMiddleware m
    \<Longrightarrow> grownFrom m0 tbl0 m' tbl"
  by (simp add: grownFrom_def)

lemma grownFrom_add:
  assumes "grownFrom m0 tbl0 m tbl" "middleware m' = middleware m \<and> fastMiddleware m' = fastMiddleware m"
    and "rowAfter (middleware m) [] row"
  shows "grownFrom m0 tbl0 m' (tbl @ [row])"
proof -
  obtain rows mws fmws where g: "tbl = tbl0 @ rows" "middleware m = middleware m0 @ mws"
    "fastMiddleware m = fastMiddleware m0 @ fmws" "\<forall>row \<in> set rows. rowAfter (middleware m0) mws row"
    using assms(1) unfolding grownFrom_def by blast
  have "rowAfter (middleware m0) mws row"
    using assms(3) unfolding g(2) by (rule rowAfter_base)
  then show ?thesis
    using g assms(2) unfolding grownFrom_def by (intro exI [of _ "rows @ [row]"] exI [of _ mws]) auto
qed

lemma grownFrom_use: "grownFrom m0 tbl0 m tbl \<Longrightarrow> grownFrom m0 tbl0 (useMiddleware mws m) tbl"
  unfolding grownFrom_def by (fastforce simp: useMiddleware_def intro: rowAfter_more)

lemma grownFrom_useFast: "grownFrom m0 tbl0 m tbl \<Longrightarrow> grownFrom m0 tbl0 (useFast fmws m) tbl"
  by (auto simp: grownFrom_def useFast_def)

lemma reachFrom_grown:
  assumes "reachFrom rc L m0 tbl0 m tbl" "reach rc L m0 tbl0"
  shows "grownFrom m0 tbl0 m tbl"
  using assms(1)
proof (induction rule: reachFrom.induct)
  case here
  then show ?case by (simp add: grownFrom_def)
next
  case (handled m tbl meth pattern h m' i)
  obtain h0 where "h = Some h0" using handle_accepted(2) [OF handled.hyps(2,3)] by auto
  then have "rowAfter (middleware m) [] (i, pattern, wrapMiddleware h (middleware m), None)"
    by (auto simp: rowAfter_def)
  then show ?case by (rule grownFrom_add [OF handled.IH handle_keeps_middleware(1) [OF handled.hyps(2)]])
next
  case (fast_handled m tbl meth pattern f m' i)
  have "rowAfter (middleware m) [] (i, pattern, None, wrapFastMiddleware f (fastMiddleware m))"
    using handleFast_accepted(3) [OF fast_handled.hyps(2,3)] by (simp add: rowAfter_def)
  then show ?case by (rule grownFrom_add [OF fast_handled.IH handle_keeps_middleware(2) [OF fast_handled.hyps(2)]])
next
  case (served m tbl pick r w)
  then show ?case
    using serving_keeps_middleware(1) [OF reach_coherent [OF reachFrom_trans [OF assms(2) served.hyps]]]
    by (intro grownFrom_same [OF served.IH]) simp_all
next
  case (dispatched m tbl pick r w)
  then show ?case
    using serving_keeps_middleware(2) [OF reach_coherent [OF reachFrom_trans [OF assms(2) dispatched.hyps]]]
    by (intro grownFrom_same [OF dispatched.IH]) simp_all
next
  case (used m tbl mws)
  then show ?case using grownFrom_use by blast
next
  case (fast_used m tbl fmws)
  then show ?case using grownFrom_useFast by blast
qed (erule grownFrom_same; simp add: handle_keeps_middleware preMiddleware_def rebuild_def)+

lemma registeredRow_prefix:
  assumes "registeredRow rc L m tbl row h mws"
  shows "take (length mws) (middleware m) = mws"
proof -
  obtain m0 tbl0 m1 meth i p where s: "reach rc L m0 tbl0" "handle rc meth p (Some h) m0 = (m1, None)"
    "methodIdx meth = Some i" "mws = middleware m0" "row = (i, p, wrapMiddleware (Some h) mws, None)"
    "reachFrom rc L m1 (tbl0 @ [row]) m tbl"
    using assms by (auto simp: registeredRow_def)
  have "reach rc L m1 (tbl0 @ [row])" using reachFrom.handled [OF s(1-3)] s(4,5) by simp
  from reachFrom_grown [OF s(6) this] show ?thesis
    using handle_keeps_middleware(1) [OF s(2)] s(4) by (auto simp: grownFrom_def)
qed

lemma registeredFast_prefix:
  assumes "registeredFast rc L m tbl row f fmws"
  shows "take (length fmws) (fastMiddleware m) = fmws"
proof -
  obtain m0 tbl0 m1 meth i p where s: "reach rc L m0 tbl0" "handleFast rc meth p (Some f) m0 = (m1, None)"
    "methodIdx meth = Some i" "fmws = fastMiddleware m0" "row = (i, p, None, wrapFastMiddleware (Some f) fmws)"
    "reachFrom rc L m1 (tbl0 @ [row]) m tbl"
    using assms by (auto simp: registeredFast_def)
  have "reach rc L m1 (tbl0 @ [row])" using reachFrom.fast_handled [OF s(1-3)] s(4,5) by simp
  from reachFrom_grown [OF s(6) this] show ?thesis
    using handle_keeps_middleware(2) [OF s(2)] s(4) by (auto simp: grownFrom_def)
qed

lemma reach_wrapped: "reach rc L m tbl \<Longrightarrow> \<forall>row \<in> set tbl. rowWrapped rc L m tbl row"
  using reach_registered registeredRow_prefix registeredFast_prefix
  unfolding rowWrapped_def rowRegistered_def by blast

lemma registered_row:
  assumes "(p, h, f, p) \<in> set (registered (rowsFor i tbl))"
  shows "\<exists>p0. (i, p0, h, f) \<in> set tbl \<and> p \<in> set (expansions p0)"
  using assms by (auto simp: registered_def entryOf_def rowsFor_def)

section \<open>The configuration of a state\<close>

text \<open>The snapshot a request reads, made from the exported fields if there is none yet.\<close>

definition effective :: "'w mux \<Rightarrow> 'w muxConfig" where
  "effective m = (case cfg m of Some c \<Rightarrow> c | None \<Rightarrow> frozenConfig (settings m))"

lemma config_effective: "fst (config m) = effective m"
  by (simp add: config_def effective_def Let_def split: option.splits)

lemma serveSpec_effective:
  "serveSpec L m r w =
     (let core = answer L (effective m) (middleware m) (treesPtr m);
          served = (case preHandlerPtr m of Some mws \<Rightarrow> wrapServe core mws r w | None \<Rightarrow> core r w)
      in if hasPanicHandler (effective m) then recoverPanic (effective m) r served else served)"
  by (simp add: serveSpec_def effective_def Let_def)

lemma serveSpec_cong:
  assumes "effective m' = effective m" "middleware m' = middleware m" "treesPtr m' = treesPtr m"
    "preHandlerPtr m' = preHandlerPtr m"
  shows "serveSpec L m' = serveSpec L m"
  by (intro ext) (simp only: serveSpec_effective assms)

lemma reach_frozen: "reach rc L m tbl \<Longrightarrow> cfg m = Some c \<Longrightarrow> \<exists>s. c = frozenConfig s"
proof (induction arbitrary: c rule: reachFrom.induct)
  case (served m tbl pick r w)
  then show ?case
    using serveHTTP_spec(3) [OF reach_coherent [OF served.hyps], of L pick r w]
      config_spec(2,3) [OF reach_coherent [OF served.hyps]] by (auto simp: sameRouting_def split: option.splits)
next
  case (dispatched m tbl pick r w)
  note k = config_spec [OF reach_coherent [OF dispatched.hyps]]
  show ?case
    using dispatch_spec(3) [OF k(1,2), of L pick r w] dispatched.IH dispatched.prems k(2,3)
    by (cases "cfg m") (auto simp: sameRouting_def)
qed (auto simp: newMux_def useMiddleware_def preMiddleware_def useFast_def rebuild_def sameServing_def
    dest!: handle_same handleFast_same)

lemma effective_frozen: "reach rc L m tbl \<Longrightarrow> \<exists>s. effective m = frozenConfig s"
  by (cases "cfg m") (auto simp: effective_def dest: reach_frozen)

section \<open>A concrete router\<close>

text \<open>
  Two middleware, of which the second is added after the first routes, a parameter route, two
  routes of another method, and a mount.
\<close>

definition tracing :: "string \<Rightarrow> nat middleware" where
  "tracing name next r w = next r (writeBody name w)"

definition showId :: "nat serve" where
  "showId r w = ok (writeBody (pathParam r ''id'') w)"

definition showPath :: "nat serve" where
  "showPath r w = ok (writeBody (uPath (rURL r)) w)"

definition demoLibs :: libs where
  "demoLibs = \<lparr>hasReqCtxField = True, relRef = (\<lambda>s. True)\<rparr>"

definition demo0 :: "nat mux" where
  "demo0 = useMiddleware [tracing ''a''] newMux"

definition demo1 :: "nat mux" where
  "demo1 = fst (handle lettersOnly ''GET'' ''/users/:id'' (Some (Func (Some showId))) demo0)"

definition demo2 :: "nat mux" where
  "demo2 = fst (handle lettersOnly ''POST'' ''/users'' (Some (Func (Some showPath))) (useMiddleware [tracing ''b''] demo1))"

definition demo3 :: "nat mux" where
  "demo3 = fst (handle lettersOnly ''DELETE'' ''/users{/:id}'' (Some (Func (Some showId))) demo2)"

definition demo :: "nat mux" where
  "demo = fst (handle lettersOnly ''*'' ''/api/*mux_mount'' (Some (MountFunc ''/api'' False (Func (Some showPath)))) demo3)"

definition demoTable :: "nat row list" where
  "demoTable =
     [(0, ''/users/:id'', wrapMiddleware (Some (Func (Some showId))) [tracing ''a''], None),
      (2, ''/users'', wrapMiddleware (Some (Func (Some showPath))) [tracing ''a'', tracing ''b''], None),
      (5, ''/users{/:id}'', wrapMiddleware (Some (Func (Some showId))) [tracing ''a'', tracing ''b''], None),
      (10, ''/api/*mux_mount'', wrapMiddleware (Some (MountFunc ''/api'' False (Func (Some showPath))))
             [tracing ''a'', tracing ''b''], None)]"

definition requestFor :: "string \<Rightarrow> string \<Rightarrow> request" where
  "requestFor meth path =
     \<lparr>rMethod = meth, rURL = \<lparr>uPath = path, uRawPath = [], uRawQuery = []\<rparr>, rHeader = Map.empty,
      rCtx = None, rRemoteAddr = [], rHost = []\<rparr>"

definition blankResponse :: "nat rw" where
  "blankResponse = \<lparr>wHeader = Map.empty, wSent = None, wBody = [], wWorld = 0\<rparr>"

lemma handle_keeps: "middleware (fst (handle rc meth pattern h m)) = middleware m"
  using handle_same [OF surjective_pairing [of "handle rc meth pattern h m"]] by (simp add: sameServing_def)

lemma demo_middleware [simp]:
  "middleware demo0 = [tracing ''a'']" "middleware demo1 = [tracing ''a'']"
  "middleware demo2 = [tracing ''a'', tracing ''b'']" "middleware demo3 = [tracing ''a'', tracing ''b'']"
  "middleware demo = [tracing ''a'', tracing ''b'']"
  by (simp_all add: demo0_def demo1_def demo2_def demo3_def demo_def handle_keeps useMiddleware_def newMux_def)

lemma accepted: "snd (handle rc meth pattern h m) = None \<Longrightarrow> handle rc meth pattern h m = (fst (handle rc meth pattern h m), None)"
  by (metis prod.collapse)

lemma demo1_ok: "handle lettersOnly ''GET'' ''/users/:id'' (Some (Func (Some showId))) demo0 = (demo1, None)"
  unfolding demo1_def by (rule accepted) code_simp

lemma demo2_ok:
  "handle lettersOnly ''POST'' ''/users'' (Some (Func (Some showPath))) (useMiddleware [tracing ''b''] demo1) = (demo2, None)"
  unfolding demo2_def by (rule accepted) code_simp

lemma demo3_ok: "handle lettersOnly ''DELETE'' ''/users{/:id}'' (Some (Func (Some showId))) demo2 = (demo3, None)"
  unfolding demo3_def by (rule accepted) code_simp

lemma demo_ok:
  "handle lettersOnly ''*'' ''/api/*mux_mount'' (Some (MountFunc ''/api'' False (Func (Some showPath)))) demo3 = (demo, None)"
  unfolding demo_def by (rule accepted) code_simp

lemma demo_methods:
  "methodIdx ''GET'' = Some 0" "methodIdx ''POST'' = Some 2" "methodIdx ''DELETE'' = Some 5" "methodIdx ''*'' = Some 10"
  by code_simp+

lemma demo_reachFrom: "reachFrom lettersOnly L demo0 [] demo demoTable"
proof -
  note 0 = reachFrom.here [of lettersOnly L demo0 "[]"]
  note 1 = reachFrom.handled [OF 0 demo1_ok demo_methods(1)]
  note 2 = reachFrom.handled [OF reachFrom.used [OF 1] demo2_ok demo_methods(2)]
  note 3 = reachFrom.handled [OF 2 demo3_ok demo_methods(3)]
  note 4 = reachFrom.handled [OF 3 demo_ok demo_methods(4)]
  have u: "middleware (useMiddleware [tracing ''b''] demo1) = [tracing ''a'', tracing ''b'']"
    by (simp add: useMiddleware_def)
  show ?thesis using 4 unfolding demoTable_def demo_middleware u append.simps .
qed

lemma demo_reach: "reach lettersOnly L demo demoTable"
proof (rule reachFrom_trans [OF _ demo_reachFrom])
  show "reach lettersOnly L demo0 []" unfolding demo0_def by (rule reachFrom.used [OF reachFrom.here])
qed

lemma handle_keeps_pre: "preHandlerPtr (fst (handle rc meth pattern h m)) = preHandlerPtr m"
  and handle_keeps_effective: "effective (fst (handle rc meth pattern h m)) = effective m"
  using handle_same [OF surjective_pairing [of "handle rc meth pattern h m"]]
  by (simp_all add: sameServing_def effective_def split: option.splits)

lemma demo_pre: "preHandlerPtr demo = None"
  by (simp add: demo0_def demo1_def demo2_def demo3_def demo_def handle_keeps_pre useMiddleware_def newMux_def)

lemma use_effective: "effective (useMiddleware mws m) = effective m"
  by (simp add: effective_def useMiddleware_def split: option.splits)

lemma handle_keeps_cfg: "cfg (fst (handle rc meth pattern h m)) = cfg m"
  using handle_same [OF surjective_pairing [of "handle rc meth pattern h m"]] by (simp add: sameServing_def)

lemma demo_cfg: "cfg demo = None"
  by (simp add: demo0_def demo1_def demo2_def demo3_def demo_def handle_keeps_cfg useMiddleware_def newMux_def)

text \<open>The same router with the automatic redirects off and another handler for 404.\<close>

definition quietFields :: "nat muxFields" where
  "quietFields = (settings newMux)\<lparr>RedirectTrailingSlash := False, NotFound := Some (Func (Some showPath))\<rparr>"

definition quietDemo :: "nat mux" where
  "quietDemo = demo\<lparr>settings := quietFields\<rparr>"

lemma quiet_effective: "effective quietDemo = frozenConfig quietFields"
  by (simp add: effective_def quietDemo_def demo_cfg)

lemma quiet_simps [simp]:
  "treesPtr quietDemo = treesPtr demo" "middleware quietDemo = middleware demo"
  "preHandlerPtr quietDemo = None" "cfg quietDemo = None"
  by (simp_all add: quietDemo_def demo_pre demo_cfg)

lemma demo_effective: "effective demo = frozenConfig (settings newMux)"
  unfolding demo0_def demo1_def demo2_def demo3_def demo_def handle_keeps_effective use_effective
  by (simp add: effective_def newMux_def)

lemma demo_rows:
  "rowsFor 0 demoTable = [(''/users/:id'', wrapMiddleware (Some (Func (Some showId))) [tracing ''a''], None)]"
  "rowsFor 2 demoTable = [(''/users'', wrapMiddleware (Some (Func (Some showPath))) [tracing ''a'', tracing ''b''], None)]"
  by (simp_all add: demoTable_def)

lemma requestFor_simps [simp]:
  "rMethod (requestFor meth path) = meth" "rURL (requestFor meth path) = \<lparr>uPath = path, uRawPath = [], uRawQuery = []\<rparr>"
  by (simp_all add: requestFor_def)

lemma concat_map_if: "concat (map (\<lambda>i. if P i then [f i] else []) xs) = map f (filter P xs)"
  by (induction xs) auto

lemma tableOK_iff:
  "tableOK tbl \<longleftrightarrow>
     (\<forall>(i, p, h, f) \<in> set tbl.
        i < methodCount \<longrightarrow> (h \<noteq> None \<or> f \<noteq> None) \<and> (\<forall>q \<in> set (expansions p). routable q))"
  unfolding tableOK_def registrable_def rowsFor_def by fastforce

lemma demo_table: "tableOK demoTable"
proof -
  have r: "\<forall>p \<in> {''/users/:id'', ''/users'', ''/users{/:id}'', ''/api/*mux_mount''}.
      \<forall>q \<in> set (expansions p). routable q" by code_simp
  have w: "wrapMiddleware (Some h) mws \<noteq> None" for h :: "nat handler" and mws by simp
  show ?thesis using r w by (simp add: tableOK_iff demoTable_def del: wrapMiddleware_some)
qed

section \<open>Answers of requests\<close>

lemma served_plain:
  assumes "reach rc L m tbl" "preHandlerPtr m = None" "\<not> hasPanicHandler (effective m)"
  shows "fst (serveHTTP L pick m r w) = answer L (effective m) (middleware m) (treesPtr m) r w"
  using serveHTTP_spec(1) [OF reach_coherent [OF assms(1)], of L pick r w] assms(2,3)
  by (simp add: serveSpec_effective Let_def)

lemma bestIn_matches: "bestIn rc tbl i path p h f ps \<Longrightarrow> matchesIn rc tbl i path"
  unfolding bestIn_def matchesIn_def by force

text \<open>
  The row comes from a registration, and whichever it was, the answer is that of the handler it
  was called with, through the middleware the router had then: on the request with the
  parameters and the pattern for a handler, with the parameters for a fast handler.
\<close>

definition runsRow ::
  "regexLib \<Rightarrow> libs \<Rightarrow> 'w mux \<Rightarrow> 'w row list \<Rightarrow> 'w row \<Rightarrow> string \<Rightarrow> Params \<Rightarrow> request \<Rightarrow> 'w rw
     \<Rightarrow> 'w served \<Rightarrow> bool"
where
  "runsRow rc L m tbl row p args r w out \<longleftrightarrow>
     rowWrapped rc L m tbl row
     \<and> (\<forall>h mws. registeredRow rc L m tbl row h mws \<longrightarrow>
          out = wrapServe (runOption L (errorHandler (effective m)) (Some h)) mws
                  (if args = [] then r else routeRequest r args p) w)
     \<and> (\<forall>f fmws. registeredFast rc L m tbl row f fmws \<longrightarrow>
          (\<exists>g. wrapFastMiddleware (Some f) fmws = Some g \<and> out = g r args w))"

lemma serveRoute_wrapped:
  "serveRoute L c (wrapMiddleware h mws) None p args r w
     = wrapServe (runOption L (errorHandler c) h) mws (if args = [] then r else routeRequest r args p) w"
  by (simp add: serveRoute_def runOption_wrap)

lemma serveRoute_runsRow:
  assumes "rowWrapped rc L m tbl (i, p0, h, f)" "h \<noteq> None \<or> f \<noteq> None"
  shows "runsRow rc L m tbl (i, p0, h, f) p args r w (serveRoute L (effective m) h f p args r w)"
proof -
  have "serveRoute L (effective m) h f p args r w
      = wrapServe (runOption L (errorHandler (effective m)) (Some h0)) mws (if args = [] then r else routeRequest r args p) w"
    if "registeredRow rc L m tbl (i, p0, h, f) h0 mws" for h0 mws
  proof -
    have "f = None" "h = wrapMiddleware (Some h0) mws" using that by (auto simp: registeredRow_def)
    then show ?thesis by (simp only: serveRoute_wrapped)
  qed
  moreover have "\<exists>g. wrapFastMiddleware (Some f0) fmws = Some g \<and> serveRoute L (effective m) h f p args r w = g r args w"
    if "registeredFast rc L m tbl (i, p0, h, f) f0 fmws" for f0 fmws
  proof -
    have hf: "h = None" "f = wrapFastMiddleware (Some f0) fmws" using that by (auto simp: registeredFast_def)
    then obtain g where "f = Some g" using assms(2) by auto
    then show ?thesis using hf(2) by (intro exI [of _ g]) (simp add: serveRoute_def)
  qed
  ultimately show ?thesis using assms(1) unfolding runsRow_def by blast
qed

section \<open>Properties of the router\<close>

text \<open>
  C6. The invariant of the router. In every state reached by registrations, middleware,
  assignments to the exported fields, \<open>Rebuild\<close> and requests, each method's tree is the one its
  rows of the routing table build in a new tree (and there is none without rows), the lazily
  built handlers and the pools agree with the configuration and the middleware, and every row
  comes from an earlier registration and holds the handler of that registration, wrapped by the
  middleware the router had then, which is an initial part of what it has now.
\<close>

theorem router_invariant:
  assumes "reach rc L m tbl"
  shows "routed rc m tbl \<and> coherent m
    \<and> (\<forall>row \<in> set tbl. rowWrapped rc L m tbl row)"
  using reach_routed [OF assms] reach_coherent [OF assms] reach_wrapped [OF assms] by blast

lemma router_invariant_witness:
  "routed lettersOnly demo demoTable \<and> coherent demo
    \<and> rowWrapped lettersOnly demoLibs demo demoTable (hd demoTable)"
proof -
  have "hd demoTable \<in> set demoTable" by (simp add: demoTable_def)
  then show ?thesis using router_invariant [OF demo_reach [of demoLibs]] by blast
qed

text \<open>
  C7. Serving refines its specification. In every reachable state, whatever the caches and
  pools hold and whichever pooled item is handed out, \<open>ServeHTTP\<close> answers as the specification
  that builds every handler anew and allocates every parameter slice.
\<close>

theorem serving_refines_specification:
  assumes "reach rc L m tbl"
  shows "fst (serveHTTP L pick m r w) = serveSpec L m r w"
  by (rule serveHTTP_spec(1) [OF reach_coherent [OF assms]])

lemma serving_refines_specification_witness:
  "fst (serveHTTP demoLibs 0 (snd (serveHTTP demoLibs 0 demo (requestFor ''GET'' ''/none'') blankResponse))
      (requestFor ''PUT'' ''/users'') blankResponse)
   = serveSpec demoLibs (snd (serveHTTP demoLibs 0 demo (requestFor ''GET'' ''/none'') blankResponse))
      (requestFor ''PUT'' ''/users'') blankResponse"
  by (rule serving_refines_specification [OF reachFrom.served [OF demo_reach]])

text \<open>
  C8. The routing decision is the table's. In a reachable state whose table is \<open>tableOK\<close> (every
  pattern is routable: a regex token only ends its pattern), with case-sensitive matching and a
  path that starts with a slash, \<open>dispatch\<close> never panics in the lookup and takes exactly the
  decision that the table, the settings and the trailing-slash hint of the depth-first search in
  the trees of the table determine: the preferred matching row of the method; otherwise, unless
  the method is CONNECT or the path "/", the redirect to the toggled slash where it is enabled
  and the hint is set, or else the redirect to the cleaned path where it is enabled, differs and
  is matched by a row of the method; otherwise the preferred matching row of "*", or the redirect
  to the toggled slash by the hint of its tree; otherwise the answer for OPTIONS, 405 or 404 that
  the settings and the Allow header of the table give. Redirects carry the code for the method.
\<close>

theorem dispatch_decides_by_table:
  assumes "reach rc L m tbl" "tableOK tbl" "\<not> caseInsensitive c"
    and "urlPathOf c r \<noteq> []" "hd (urlPathOf c r) = CHR ''/''"
  shows "\<exists>d. decide c (treesPtr m) r = Inr d \<and> decidedBy rc c tbl r d"
  by (rule decide_row [OF reach_routed [OF assms(1)] assms(2,3) refl assms(4,5)])

lemma dispatch_decides_by_table_witness:
  "\<exists>d. decide (frozenConfig (settings newMux)) (treesPtr demo) (requestFor ''GET'' ''/users/7/'') = Inr d
    \<and> decidedBy lettersOnly (frozenConfig (settings newMux)) demoTable (requestFor ''GET'' ''/users/7/'') d"
  by (rule dispatch_decides_by_table [OF demo_reach [of demoLibs] demo_table])
    (simp_all add: frozenConfig_def newMux_def urlPathOf_def requestFor_def)

text \<open>In this state a request with a slash too many is redirected, and the table says so.\<close>

lemma demo_redirect:
  "ownDecided lettersOnly (frozenConfig (settings newMux)) demoTable (requestFor ''GET'' ''/users/7/'')
     (Some (RedirectTo ''/users/7'' 301))"
proof -
  have n: "\<not> matchesMethod lettersOnly demoTable ''GET'' ''/users/7/''"
    unfolding matchesMethod_def matchesIn_def demo_methods option.case demo_rows by code_simp
  have s: "ownSlash lettersOnly demoTable ''GET'' ''/users/7/''"
    unfolding ownSlash_def slashHint_def demo_methods option.case demo_rows by code_simp
  have t: "redirectTo (requestFor ''GET'' ''/users/7/'') (toggleSlash ''/users/7/'') = ''/users/7''" by code_simp
  show ?thesis
    using n s t
    by (simp add: ownDecided_def Let_def frozenConfig_def newMux_def urlPathOf_def requestFor_def movable_def
        resolveRedirectCode_def)
qed

text \<open>
  C9. The Allow header. In a reachable state whose table is \<open>tableOK\<close>, and for a path that starts
  with a slash, it lists exactly the other methods one of whose rows matches, in the order of
  the method table and without OPTIONS and "*", followed by OPTIONS; it is empty when there is
  none. The matching is case-sensitive, also when CaseInsensitive is set.
\<close>

theorem allow_header_lists_methods:
  assumes "reach rc L m tbl" "tableOK tbl" "path \<noteq> []" "hd path = CHR ''/''"
  shows "allowed (treesPtr m) path meth
    = Inr (let names = [methodNames ! i. i \<leftarrow> [0..<methodCount],
                          i \<noteq> idxOPTIONS \<and> i \<noteq> idxWild \<and> methodNames ! i \<noteq> meth \<and> matchesIn rc tbl i path]
           in if names = [] then [] else joinStr '', '' names @ '', OPTIONS'')"
proof -
  have "[methodNames ! i. i \<leftarrow> [0..<methodCount],
      i \<noteq> idxOPTIONS \<and> i \<noteq> idxWild \<and> methodNames ! i \<noteq> meth \<and> matchesIn rc tbl i path]
    = allowNames rc tbl meth path"
    unfolding allowNames_def by (rule concat_map_if)
  then show ?thesis
    using allowed_row [OF reach_routed [OF assms(1)] assms(2-4), of meth] by (simp add: allowHeader_def)
qed

lemma allow_header_lists_methods_witness:
  "allowed (treesPtr demo) ''/users'' ''GET''
    = Inr (let names = [methodNames ! i. i \<leftarrow> [0..<methodCount],
             i \<noteq> idxOPTIONS \<and> i \<noteq> idxWild \<and> methodNames ! i \<noteq> ''GET'' \<and> matchesIn lettersOnly demoTable i ''/users'']
           in if names = [] then [] else joinStr '', '' names @ '', OPTIONS'')"
  by (rule allow_header_lists_methods [OF demo_reach [of demoLibs] demo_table]) simp_all


lemma demo_matches: "matchesMethod lettersOnly demoTable ''GET'' ''/users/7''"
  unfolding matchesMethod_def matchesIn_def demo_methods option.case demo_rows by code_simp

lemma demo_settings:
  "\<not> caseInsensitive (effective demo)" "\<not> hasPanicHandler (effective demo)"
  "urlPathOf (effective demo) (requestFor meth path) = path"
  by (simp_all add: demo_effective frozenConfig_def newMux_def urlPathOf_def)


text \<open>
  C11. With redirects off, an unmatched request is answered through all middleware. In a reachable
  state whose table is \<open>tableOK\<close>, with case-sensitive matching, both automatic redirects off (the
  trailing-slash one is on by default), no \<open>Pre\<close> middleware and no panic handler, a request whose
  path starts with a slash and is matched by no row of its method or of "*" is answered by the
  handler for OPTIONS or 405 with the table's Allow header, where the settings ask for it and
  that header is not empty, and otherwise by the handler for 404, in each case through every
  middleware the router has when it answers.
\<close>

theorem unmatched_request_is_answered:
  assumes "reach rc L m tbl" "tableOK tbl" "preHandlerPtr m = None"
    and c: "c = effective m" "\<not> caseInsensitive c" "\<not> hasPanicHandler c"
      "\<not> redirectTrailingSlash c" "\<not> redirectFixedPath c"
    and path: "path = urlPathOf c r" "path \<noteq> []" "hd path = CHR ''/''"
    and none: "\<not> matchesMethod rc tbl (rMethod r) path" "\<not> matchesIn rc tbl idxWild path"
  shows "fst (serveHTTP L pick m r w)
    = wrapServe (runOption L (errorHandler c) (Some
        (let allow = allowHeader rc tbl (rMethod r) path; options = (rMethod r = ''OPTIONS'' \<and> handleOPTIONS c)
         in if options \<and> allow \<noteq> [] then OptionsFunc allow (globalOPTIONS c)
            else if \<not> options \<and> handleMethodNotAllowed c \<and> allow \<noteq> [] then NotAllowedFunc allow (methodNotAllowed c)
            else notFoundBase c))) (middleware m) r w"
proof -
  have R: "routed rc m tbl" by (rule reach_routed [OF assms(1)])
  have out: "fst (serveHTTP L pick m r w) = answer L c (middleware m) (treesPtr m) r w"
    using served_plain [OF assms(1,3)] c(1,3) by simp
  obtain d where d: "decide c (treesPtr m) r = Inr d" "decidedBy rc c tbl r d"
    using decide_row [OF R assms(2) c(2) path(1) [symmetric] path(2,3)] by blast
  have dm: "d = missDecision rc c tbl r"
    using decided_unmatched [OF d(2) c(4,5)] none unfolding path(1) by blast
  define allow where "allow = allowHeader rc tbl (rMethod r) path"
  have "answer L c (middleware m) (treesPtr m) r w = respond L c (middleware m) (missDecision rc c tbl r) r w"
    by (simp add: answer_def d(1) dm)
  then show ?thesis
    unfolding out missDecision_def Let_def path(1) [symmetric] allow_def [symmetric] by (simp add: respond_def)
qed

lemma unmatched_request_is_answered_witness:
  "fst (serveHTTP demoLibs 0 quietDemo (requestFor ''GET'' ''/users'') blankResponse)
    = wrapServe (runOption demoLibs None (Some
        (let allow = allowHeader lettersOnly demoTable ''GET'' ''/users'';
             options = (''GET'' = ''OPTIONS'' \<and> handleOPTIONS (frozenConfig quietFields))
         in if options \<and> allow \<noteq> [] then OptionsFunc allow (globalOPTIONS (frozenConfig quietFields))
            else if \<not> options \<and> handleMethodNotAllowed (frozenConfig quietFields) \<and> allow \<noteq> []
            then NotAllowedFunc allow (methodNotAllowed (frozenConfig quietFields))
            else notFoundBase (frozenConfig quietFields)))) (middleware demo) (requestFor ''GET'' ''/users'') blankResponse"
proof -
  have r: "reach lettersOnly demoLibs quietDemo demoTable"
    unfolding quietDemo_def by (rule reachFrom.settings [OF demo_reach])
  have n: "\<not> matchesMethod lettersOnly demoTable ''GET'' ''/users''" "\<not> matchesIn lettersOnly demoTable idxWild ''/users''"
    unfolding matchesMethod_def matchesIn_def demo_methods option.case demo_rows idxWild_def by code_simp+
  have e: "errorHandler (frozenConfig quietFields) = None" "\<not> caseInsensitive (frozenConfig quietFields)"
    "\<not> hasPanicHandler (frozenConfig quietFields)" "\<not> redirectTrailingSlash (frozenConfig quietFields)"
    "\<not> redirectFixedPath (frozenConfig quietFields)"
    "urlPathOf (frozenConfig quietFields) (requestFor ''GET'' ''/users'') = ''/users''"
    by (simp_all add: frozenConfig_def quietFields_def newMux_def urlPathOf_def)
  show ?thesis
    using unmatched_request_is_answered [OF r demo_table quiet_simps(3) refl, where path = "''/users''" and r = "requestFor ''GET'' ''/users''"
        and pick = 0 and w = blankResponse, unfolded quiet_effective e requestFor_simps quiet_simps] n e(2-5) by simp
qed

text \<open>
  C12. The configuration is frozen. Once a request has taken the snapshot, assignments to the
  exported fields change no answer, and the first request after \<open>Rebuild\<close> is answered by the
  fields as they are then, whatever had been cached.
\<close>

theorem configuration_is_frozen:
  assumes "reach rc L m tbl" "cfg m = Some c"
  shows "fst (serveHTTP L pick (m\<lparr>settings := s\<rparr>) r w) = fst (serveHTTP L pick' m r w)
    \<and> fst (serveHTTP L pick (rebuild (m\<lparr>settings := s\<rparr>)) r w)
        = serveSpec L (m\<lparr>settings := s, cfg := Some (frozenConfig s)\<rparr>) r w"
proof -
  note r1 = reachFrom.settings [OF assms(1), of s]
  note r2 = reachFrom.rebuilt [OF r1]
  have "serveSpec L (m\<lparr>settings := s\<rparr>) = serveSpec L m"
    by (rule serveSpec_cong) (simp_all add: effective_def assms(2))
  moreover have "serveSpec L (rebuild (m\<lparr>settings := s\<rparr>)) = serveSpec L (m\<lparr>settings := s, cfg := Some (frozenConfig s)\<rparr>)"
    by (rule serveSpec_cong) (simp_all add: effective_def rebuild_def)
  ultimately show ?thesis
    by (simp add: serveHTTP_spec(1) reach_coherent [OF r1] reach_coherent [OF r2] reach_coherent [OF assms(1)])
qed

lemma configuration_is_frozen_witness:
  "\<exists>m. cfg m \<noteq> None
    \<and> fst (serveHTTP demoLibs 0 (m\<lparr>settings := quietFields\<rparr>) (requestFor ''GET'' ''/x'') blankResponse)
        = fst (serveHTTP demoLibs 0 m (requestFor ''GET'' ''/x'') blankResponse)"
proof -
  let ?m = "snd (serveHTTP demoLibs 0 demo (requestFor ''GET'' ''/x'') blankResponse)"
  have "cfg ?m = Some (effective demo)"
    using serveHTTP_spec(3) [OF reach_coherent [OF demo_reach [of demoLibs]], of demoLibs 0 "requestFor ''GET'' ''/x''" blankResponse]
      config_spec(2) [OF reach_coherent [OF demo_reach [of demoLibs]]]
    by (simp add: sameRouting_def config_effective)
  then show ?thesis using configuration_is_frozen [OF reachFrom.served [OF demo_reach [of demoLibs]]] by fastforce
qed

text \<open>
  C13. Panics end in the panic handler. With a panic handler configured, a panic of the lookup,
  of any middleware or of any handler is passed to it with the request and the response written
  so far, an answer without a panic is left alone, and where that handler does not panic itself
  none leaves \<open>ServeHTTP\<close>.
\<close>

theorem panics_end_in_the_panic_handler:
  assumes "reach rc L m tbl" "hasPanicHandler (effective m)"
  shows "\<exists>g. panicHandler (effective m) = Some g
    \<and> (let core = answer L (effective m) (middleware m) (treesPtr m);
            inner = (case preHandlerPtr m of Some mws \<Rightarrow> wrapServe core mws r w | None \<Rightarrow> core r w);
            out = fst (serveHTTP L pick m r w)
        in out = (case snd inner of None \<Rightarrow> inner | Some p \<Rightarrow> g r p (fst inner))
           \<and> ((\<forall>r p w. snd (g r p w) = None) \<longrightarrow> snd out = None))"
proof -
  obtain s where s: "effective m = frozenConfig s" using effective_frozen [OF assms(1)] by blast
  then obtain g where g: "panicHandler (effective m) = Some g"
    using assms(2) by (auto simp: frozenConfig_def)
  let ?core = "answer L (effective m) (middleware m) (treesPtr m)"
  let ?inner = "case preHandlerPtr m of Some mws \<Rightarrow> wrapServe ?core mws r w | None \<Rightarrow> ?core r w"
  have out: "fst (serveHTTP L pick m r w) = (case snd ?inner of None \<Rightarrow> ?inner | Some p \<Rightarrow> g r p (fst ?inner))"
    unfolding serveHTTP_spec(1) [OF reach_coherent [OF assms(1)]] serveSpec_effective recoverPanic_def g Let_def
    using assms(2) by (simp only: if_True option.case)
  then show ?thesis
    using g unfolding Let_def by (intro exI [of _ g]) (auto split: option.splits)
qed

definition guardedDemo :: "nat mux" where
  "guardedDemo = demo\<lparr>settings := (settings newMux)\<lparr>PanicHandler := Some (\<lambda>r p w. ok (writeBody ''!'' w))\<rparr>\<rparr>"

lemma panics_end_in_the_panic_handler_witness:
  "\<exists>g. panicHandler (effective guardedDemo) = Some g"
proof -
  have "hasPanicHandler (effective guardedDemo)"
    by (simp add: effective_def guardedDemo_def demo_cfg frozenConfig_def)
  then show ?thesis
    using panics_end_in_the_panic_handler
      [OF reachFrom.settings [OF demo_reach [of demoLibs],
          of "(settings newMux)\<lparr>PanicHandler := Some (\<lambda>r p w. ok (writeBody ''!'' w))\<rparr>", folded guardedDemo_def]]
    by blast
qed

text \<open>
  C14. Middleware cannot be bypassed by a later registration. From any reachable state in which
  the router has middleware, whatever registrations, configuration changes and requests follow,
  the rows and the middleware only grow, and every row registered from then on is a handler
  wrapped by all that middleware, in its order and outermost, followed by some that was added
  later: no fast handler, which runs through none, is ever accepted again. So whatever serves
  such a row runs inside that middleware, for every configuration and request.
\<close>

theorem middleware_cannot_be_bypassed:
  assumes "reach rc L m0 tbl0" "middleware m0 \<noteq> []" "reachFrom rc L m0 tbl0 m tbl"
  shows "\<exists>rows later. tbl = tbl0 @ rows \<and> middleware m = middleware m0 @ later
    \<and> (\<forall>(i, p, h, f) \<in> set rows. \<exists>h0 k.
         f = None \<and> h = wrapMiddleware (Some h0) (middleware m0 @ take k later)
         \<and> (\<forall>c q args r w. serveRoute L c h f q args r w
              = wrapServe (wrapServe (runOption L (errorHandler c) (Some h0)) (take k later)) (middleware m0)
                  (if args = [] then r else routeRequest r args q) w))"
proof -
  obtain rows later where g: "tbl = tbl0 @ rows" "middleware m = middleware m0 @ later"
    "\<forall>row \<in> set rows. rowAfter (middleware m0) later row"
    using reachFrom_grown [OF assms(3,1)] unfolding grownFrom_def by blast
  have "\<exists>h0 k. f = None \<and> h = wrapMiddleware (Some h0) (middleware m0 @ take k later)
      \<and> (\<forall>c q args r w. serveRoute L c h f q args r w
           = wrapServe (wrapServe (runOption L (errorHandler c) (Some h0)) (take k later)) (middleware m0)
               (if args = [] then r else routeRequest r args q) w)"
    if "(i, p, h, f) \<in> set rows" for i p h f
  proof -
    from g(3) that have "rowAfter (middleware m0) later (i, p, h, f)" by blast
    then obtain h0 k where "f = None" "h = wrapMiddleware (Some h0) (middleware m0 @ take k later)"
      using assms(2) by (cases rule: rowAfter_cases) auto
    then show ?thesis by (intro exI [of _ h0] exI [of _ k]) (simp only: serveRoute_wrapped wrapServe_append simp_thms)
  qed
  then show ?thesis using g(1,2) by blast
qed

lemma middleware_cannot_be_bypassed_witness:
  "\<exists>rows later. demoTable = [] @ rows \<and> middleware demo = [tracing ''a''] @ later
    \<and> (\<forall>row \<in> set rows. \<exists>h0 k. snd (snd row) = (wrapMiddleware (Some h0) ([tracing ''a''] @ take k later), None))"
proof -
  have 0: "reach lettersOnly demoLibs demo0 []"
    unfolding demo0_def by (rule reachFrom.used [OF reachFrom.here])
  have m: "middleware demo0 \<noteq> []" by simp
  obtain rows later where g: "demoTable = [] @ rows" "middleware demo = [tracing ''a''] @ later"
    "\<forall>(i, p, h, f) \<in> set rows. \<exists>h0 k. f = None \<and> h = wrapMiddleware (Some h0) ([tracing ''a''] @ take k later)
       \<and> (\<forall>c q args r w. serveRoute demoLibs c h f q args r w
            = wrapServe (wrapServe (runOption demoLibs (errorHandler c) (Some h0)) (take k later)) [tracing ''a'']
                (if args = [] then r else routeRequest r args q) w)"
    using middleware_cannot_be_bypassed [OF 0 m demo_reachFrom, unfolded demo_middleware(1)] by blast
  have "\<exists>h0 k. snd (snd row) = (wrapMiddleware (Some h0) ([tracing ''a''] @ take k later), None)"
    if "row \<in> set rows" for row
  proof -
    obtain i p h f where row: "row = (i, p, h, f)" by (cases row)
    then have "\<exists>h0 k. f = None \<and> h = wrapMiddleware (Some h0) ([tracing ''a''] @ take k later)"
      using bspec [OF g(3) that] by (simp only: prod.case) blast
    then show ?thesis unfolding row snd_conv by blast
  qed
  then show ?thesis using g(1,2) by blast
qed

text \<open>
  Pooling is unobservable. Whatever zeroed items the pools hold and whichever of them is
  handed out, calling the found handler with pooling enabled answers as without it, for every
  number of parameters, and returns only zeroed items of the right length to the pools, also
  when the handler panics.
\<close>

theorem pooling_is_unobservable:
  assumes "bufOK pb" "poolsOK ps"
  shows "fst (serveFound L pick c ps r star h fast pattern pb w)
      = fst (serveFound L 0 (c\<lparr>poolFastParams := False, poolRequestBundle := False\<rparr>) emptyPools r star h fast pattern pb w)
    \<and> poolsOK (snd (serveFound L pick c ps r star h fast pattern pb w))"
proof -
  have u: "unescapeParam (c\<lparr>poolFastParams := False, poolRequestBundle := False\<rparr>) = unescapeParam c"
    by (intro ext) (simp add: unescapeParam_def)
  show ?thesis
    by (simp add: serveFound_route [OF assms] serveFound_route(1) [OF assms(1) poolsOK_empty] serveRoute_def u
        split: option.splits)
qed

lemma pooling_is_unobservable_witness:
  "let c = frozenConfig ((settings newMux)\<lparr>PoolRequestBundle := True\<rparr>);
       pb = bufAdd (bufAdd emptyBuf ''id'' ''7'') ''name'' ''x'';
       ps = emptyPools\<lparr>bundles2 := [zeroBundle 2]\<rparr>;
       serve = (\<lambda>c ps. serveFound demoLibs 0 c ps (requestFor ''GET'' ''/'') False (Some (Func (Some showId))) None ''/'' pb blankResponse)
   in fst (serve c ps) = fst (serve (c\<lparr>poolFastParams := False, poolRequestBundle := False\<rparr>) emptyPools)
      \<and> poolsOK (snd (serve c ps))"
  unfolding Let_def
  by (rule pooling_is_unobservable)
    (simp_all add: bufAdd_def emptyBuf_def bufOK_def maxInline_def poolsOK_def emptyPools_def)

end
