(* ===== verification/RequestProperties.thy ===== *)
theory RequestProperties
  imports ServingProperties
begin

text \<open>
  Properties of what a handler receives and what a redirect sends: parameters and the numbers
  parsed from them, the request a mounted handler sees with its raw path, and the Location
  header of automatic redirects.
\<close>

section \<open>Parameters\<close>

lemma paramsLookup_append:
  "name \<notin> Key ` set ps \<Longrightarrow> paramsLookup (ps @ qs) name = paramsLookup qs name"
  by (induction ps) auto

text \<open>
  C15. Integer parameters round-trip. When the first parameter of the name holds the decimal
  numeral of an integer, \<open>Int64\<close> and \<open>Int\<close> read it back exactly within the 64 signed bits, and
  outside them return the nearest bound with a range error; likewise \<open>Uint64\<close> a natural number.
  The bound is what strconv returns with the error and params.go passes on; it is not what
  specification/params.md (requirement 13) asks for, the zero value with the error.
\<close>

theorem integer_parameters_round_trip:
  assumes "name \<notin> Key ` set ps"
  shows "paramsInt64 (ps @ mkParam name (decimalInt i) # qs) name
      = (if i < - (2 ^ 63) then (- (2 ^ 63), Some RangeError)
         else if i > 2 ^ 63 - 1 then (2 ^ 63 - 1, Some RangeError) else (i, None))
    \<and> paramsInt (ps @ mkParam name (decimalInt i) # qs) name
      = paramsInt64 (ps @ mkParam name (decimalInt i) # qs) name
    \<and> paramsUint64 (ps @ mkParam name (decimal n) # qs) name
      = (if n < 2 ^ 64 then (n, None) else (2 ^ 64 - 1, Some RangeError))"
  using assms
  by (simp add: paramsInt64_def paramsInt_def paramsUint64_def paramsLookup_append mkParam_def
      parseInt_decimalInt parseUint_decimal maxUint64_def)

lemma integer_parameters_round_trip_witness:
  "paramsInt64 ([mkParam ''a'' ''x''] @ mkParam ''id'' (decimalInt (-42)) # []) ''id'' = (-42, None)
    \<and> paramsUint64 ([mkParam ''a'' ''x''] @ mkParam ''id'' (decimal 18446744073709551616) # []) ''id''
        = (18446744073709551615, Some RangeError)"
proof -
  have n: "''id'' \<notin> Key ` set [mkParam ''a'' ''x'']" by (simp add: mkParam_def)
  show ?thesis
    using integer_parameters_round_trip [OF n, where i = "-42" and qs = "[]"]
      integer_parameters_round_trip [OF n, where n = 18446744073709551616 and qs = "[]"] by simp
qed

text \<open>What other code, an outer mount or a redirect puts around the context of the route.\<close>

datatype layer = MountLayer string | RedirectLayer string nat | ValueLayer ctxKey ctxValue | TimerLayer int

fun pushLayer :: "layer \<Rightarrow> ctx \<Rightarrow> ctx" where
  "pushLayer (MountLayer q) c = MountPrefixCtx c q"
| "pushLayer (RedirectLayer t k) c = RedirectCtx c t k"
| "pushLayer (ValueLayer k v) c = ValueCtx c k v"
| "pushLayer (TimerLayer d) c = TimerCtx c d"

lemma routeLayer_push: "routeLayer (foldr pushLayer ls c) = routeLayer c"
proof (induction ls)
  case (Cons l ls)
  then show ?case by (cases l) simp_all
qed simp

lemma routeCtx_layer:
  "routeCtxParams c = (case routeLayer c of
       Some (RequestCtx1 _ _ p) \<Rightarrow> [p] | Some (RequestCtx _ ps _) \<Rightarrow> ps | Some (RequestCtx2 _ _ p q) \<Rightarrow> [p, q]
     | _ \<Rightarrow> [])"
  "routeCtxPattern c = (case routeLayer c of
       Some (RequestCtx1 _ pat _) \<Rightarrow> pat | Some (RequestCtx _ _ pat) \<Rightarrow> pat | Some (RequestCtx2 _ pat _ _) \<Rightarrow> pat
     | _ \<Rightarrow> [])"
  by (cases c; simp add: routeCtxParams_def routeCtxPattern_def)+

text \<open>
  The request carries the parameters and the pattern: it is the old one but for its context, and
  in whatever contexts other layers make of that, the three accessors yield them; the mount
  prefix stays visible through the route's own layer.
\<close>

definition carriesRoute :: "request \<Rightarrow> Params \<Rightarrow> string \<Rightarrow> request \<Rightarrow> bool" where
  "carriesRoute r ps pattern r1 \<longleftrightarrow>
     r1\<lparr>rCtx := rCtx r\<rparr> = r
     \<and> mountPrefixFrom (requestContext r1) = mountPrefixFrom (requestContext r)
     \<and> (\<forall>ls r' name. let c = foldr pushLayer ls (requestContext r1); r2 = withContext r' c in
          paramsFromContext c = ps \<and> pathParam r2 name = paramsGet ps name \<and> routePattern r2 = pattern)"

lemma routeRequest_carries:
  assumes "ps \<noteq> []"
  shows "carriesRoute r ps pattern (routeRequest r ps pattern)"
proof -
  have base: "routeCtxParams (requestContext (routeRequest r ps pattern)) = ps"
    "routeCtxPattern (requestContext (routeRequest r ps pattern)) = pattern"
    by (auto simp: routeRequest_def withContext_def requestContext_def routeCtx_layer split: list.splits)
  have "routeCtxParams (foldr pushLayer ls (requestContext (routeRequest r ps pattern))) = ps"
    "routeCtxPattern (foldr pushLayer ls (requestContext (routeRequest r ps pattern))) = pattern" for ls
    using base unfolding routeCtx_layer routeLayer_push by simp_all
  moreover have "mountPrefixFrom (requestContext (routeRequest r ps pattern)) = mountPrefixFrom (requestContext r)"
    by (cases "requestContext r")
      (auto simp: routeRequest_def withContext_def requestContext_def mountPrefixFrom_def split: list.splits)
  moreover have "(routeRequest r ps pattern)\<lparr>rCtx := rCtx r\<rparr> = r"
    by (simp add: routeRequest_def withContext_def)
  ultimately show ?thesis
    by (simp add: carriesRoute_def paramsFromContext_def pathParam_def routePattern_def requestContext_def
        withContext_def Let_def)
qed

lemma dispatchParams_route:
  "dispatchParams1 fld r h pattern p w = h (routeRequest r [p] pattern) w"
  "dispatchParams2 fld r h pattern p q w = h (routeRequest r [p, q] pattern) w"
  using dispatchWithParams_route [of fld r h pattern "[p]" w] dispatchWithParams_route [of fld r h pattern "[p, q]" w]
  by (simp_all add: dispatchWithParams_def)

lemma dispatchN_route:
  assumes "poolsOK pools" "length ps > 2"
  shows "fst (dispatchParamsNPooled pick pools r h pattern ps w) = h (routeRequest r ps pattern) w"
proof -
  have "length ps \<noteq> 1" "length ps \<noteq> 2" using assms(2) by linarith+
  from dispatchN_transparent(1) [OF assms(1) this] show ?thesis by (simp only: dispatchWithParams_route)
qed

text \<open>
  C16. Captured parameters are read back. \<open>dispatchParams1\<close>, \<open>dispatchParams2\<close> and
  \<open>dispatchWithParams\<close> with at least one parameter, with and without the context field of the
  request, and their variants that take the context bundle from a pool (whose items are zeroed),
  call the handler with one and the same request: it carries exactly these parameters in their
  order and the pattern, which \<open>PathParam\<close>, \<open>ParamsFromContext\<close> and \<open>RoutePattern\<close> read
  back, also from whatever contexts mounts, redirects, values and timeouts make of its context;
  nothing else of the request is changed, and the mount prefix stays visible.
\<close>

theorem captured_parameters_read_back:
  assumes "poolsOK pools"
  shows "(\<exists>r1. carriesRoute r [p] pattern r1
        \<and> (\<forall>h w. dispatchParams1 fld r h pattern p w = h r1 w
             \<and> fst (dispatchParams1Pooled pick pools r h pattern p w) = h r1 w))
    \<and> (\<exists>r1. carriesRoute r [p, q] pattern r1
        \<and> (\<forall>h w. dispatchParams2 fld r h pattern p q w = h r1 w
             \<and> fst (dispatchParams2Pooled pick pools r h pattern p q w) = h r1 w))
    \<and> (\<exists>r1. carriesRoute r (p # ps) pattern r1
        \<and> (\<forall>h w. dispatchWithParams fld r h pattern (p # ps) w = h r1 w
             \<and> (length (p # ps) > 2 \<longrightarrow> fst (dispatchParamsNPooled pick pools r h pattern (p # ps) w) = h r1 w)))"
proof -
  have c: "carriesRoute r (x # xs) pattern (routeRequest r (x # xs) pattern)" for x xs
    by (rule routeRequest_carries) simp
  show ?thesis
  proof (intro conjI)
    show "\<exists>r1. carriesRoute r [p] pattern r1
        \<and> (\<forall>h w. dispatchParams1 fld r h pattern p w = h r1 w
             \<and> fst (dispatchParams1Pooled pick pools r h pattern p w) = h r1 w)"
      by (rule exI, rule conjI, rule c) (simp add: dispatchParams_route dispatch1_transparent(1) [OF assms, where fld = fld])
    show "\<exists>r1. carriesRoute r [p, q] pattern r1
        \<and> (\<forall>h w. dispatchParams2 fld r h pattern p q w = h r1 w
             \<and> fst (dispatchParams2Pooled pick pools r h pattern p q w) = h r1 w)"
      by (rule exI, rule conjI, rule c) (simp add: dispatchParams_route dispatch2_transparent(1) [OF assms, where fld = fld])
    show "\<exists>r1. carriesRoute r (p # ps) pattern r1
        \<and> (\<forall>h w. dispatchWithParams fld r h pattern (p # ps) w = h r1 w
             \<and> (length (p # ps) > 2 \<longrightarrow> fst (dispatchParamsNPooled pick pools r h pattern (p # ps) w) = h r1 w))"
      by (rule exI, rule conjI, rule c)
        (intro allI conjI impI; (rule dispatchWithParams_route | erule dispatchN_route [OF assms]))
  qed
qed

lemma captured_parameters_read_back_witness:
  "\<exists>r1. carriesRoute (requestFor ''GET'' ''/a/7/b/8'') [mkParam ''id'' ''7'', mkParam ''k'' ''8''] ''/a/:id/b/:k'' r1
     \<and> dispatchParams2 True (requestFor ''GET'' ''/a/7/b/8'') showId ''/a/:id/b/:k'' (mkParam ''id'' ''7'') (mkParam ''k'' ''8'')
         blankResponse = showId r1 blankResponse"
  using captured_parameters_read_back [OF poolsOK_empty, where r = "requestFor ''GET'' ''/a/7/b/8''"
      and pattern = "''/a/:id/b/:k''" and p = "mkParam ''id'' ''7''" and q = "mkParam ''k'' ''8''" and fld = True]
  by blast

section \<open>Mounted requests\<close>

text \<open>The path as the client sent it: the prefixes consumed by the mounts, and what is left.\<close>

definition clientPath :: "request \<Rightarrow> string" where
  "clientPath r = mountPrefixFrom (requestContext r) @ uPath (rURL r)"

lemma toggleSlash_append:
  assumes "length rest > 1"
  shows "toggleSlash (front @ rest) = front @ toggleSlash rest"
  using assms by (cases "rest = []") (auto simp: toggleSlash_def butlast_append)

text \<open>
  C17. Mounts keep the client's path. When the route of a mount has captured a remainder that is
  not empty and is the end of the decoded path (as it is unless \<open>UseRawPath\<close> matches the raw path
  instead or the captured value is unescaped), the mounted handler receives that remainder as its
  path, and the mount prefixes in its context followed by that path are the path of the client's
  request, at every level of nesting; and where the remainder is longer than a slash, a
  trailing-slash redirect computed inside is the toggled path of the client.
\<close>

theorem mounts_keep_the_client_path:
  assumes "pathParam r ''mux_mount'' = rest" "rest \<noteq> []" "uPath (rURL r) = front @ rest"
    and "r' = mountRequest fld prefix hasParam r"
  shows "uPath (rURL r') = rest \<and> clientPath r' = clientPath r \<and> rMethod r' = rMethod r \<and> rHeader r' = rHeader r
    \<and> uRawQuery (rURL r') = uRawQuery (rURL r)
    \<and> (length rest > 1 \<longrightarrow>
         redirectTo r' (toggleSlash rest) = buildRedirectTarget (toggleSlash (clientPath r)) (uRawQuery (rURL r)))"
proof -
  have mp: "matchedPrefix rest (uPath (rURL r)) = front"
    using assms(2,3) by (simp add: matchedPrefix_def Let_def)
  have u: "uPath (rURL r') = rest" "rMethod r' = rMethod r" "rHeader r' = rHeader r" "uRawQuery (rURL r') = uRawQuery (rURL r)"
    "mountPrefixFrom (requestContext r') = mountPrefixFrom (requestContext r) @ front"
    using assms(1,2,4) mp
    by (simp_all add: mountRequest_def Let_def withContext_def requestContext_def mountPrefixFrom_def)
  have c: "clientPath r' = clientPath r" using u assms(3) by (simp add: clientPath_def)
  have "redirectTo r' (toggleSlash rest) = buildRedirectTarget (toggleSlash (clientPath r)) (uRawQuery (rURL r))"
    if "length rest > 1"
    using u toggleSlash_append [OF that, of "mountPrefixFrom (requestContext r) @ front"] assms(3)
    by (simp add: redirectTo_def clientPath_def Let_def)
  then show ?thesis using u c by blast
qed

definition mountedRequest :: request where
  "mountedRequest = routeRequest (requestFor ''GET'' ''/api/v1/users'') [mkParam ''mux_mount'' ''/v1/users''] ''/api/*mux_mount''"

lemma mounts_keep_the_client_path_witness:
  "clientPath (mountRequest True ''/api'' False mountedRequest) = ''/api/v1/users''"
proof -
  have a: "pathParam mountedRequest ''mux_mount'' = ''/v1/users''" "uPath (rURL mountedRequest) = ''/api'' @ ''/v1/users''"
    by code_simp+
  have "''/v1/users'' \<noteq> []" by simp
  note X = mounts_keep_the_client_path [OF a(1) this a(2) refl [of "mountRequest True ''/api'' False mountedRequest"]]
  have "clientPath mountedRequest = ''/api/v1/users''" by code_simp
  then show ?thesis using X by metis
qed

text \<open>
  The raw path under a mount with parameters. The remainder is found exactly when the raw
  path starts with as many segments as the matched prefix has, each of which percent-decodes to
  the segment of the prefix, and it is what follows them: a raw path whose encoded slashes move
  the segment boundaries, or that has too few segments or a malformed escape, has none.
\<close>

theorem raw_remainder_is_segmentwise:
  assumes "\<forall>s \<in> set ss. CHR ''/'' \<notin> set s"
  shows "rawPathRemainder (slashed ss) raw = Some rem
    \<longleftrightarrow> (\<exists>rs. raw = slashed rs @ rem \<and> length rs = length ss
           \<and> (ss \<noteq> [] \<longrightarrow> rem = [] \<or> hd rem = CHR ''/'')
           \<and> (\<forall>s \<in> set rs. CHR ''/'' \<notin> set s) \<and> map pathUnescape rs = map Some ss)"
  using rawPathRemainder_some [of ss raw rem] assms by (simp add: segment_def)

lemma raw_remainder_is_segmentwise_witness:
  "rawPathRemainder (slashed [''a b'', ''c'']) ''/a%20b/c/d%2Fe'' = Some ''/d%2Fe''"
proof -
  have s: "\<forall>s \<in> set [''a b'', ''c'']. CHR ''/'' \<notin> set s" by simp
  have "''/a%20b/c/d%2Fe'' = slashed [''a%20b'', ''c''] @ ''/d%2Fe'' \<and> length [''a%20b'', ''c''] = length [''a b'', ''c'']
    \<and> ([''a b'', ''c''] \<noteq> [] \<longrightarrow> ''/d%2Fe'' = [] \<or> hd ''/d%2Fe'' = CHR ''/'')
    \<and> (\<forall>s \<in> set [''a%20b'', ''c'']. CHR ''/'' \<notin> set s)
    \<and> map pathUnescape [''a%20b'', ''c''] = map Some [''a b'', ''c'']"
    by code_simp
  then show ?thesis unfolding raw_remainder_is_segmentwise [OF s] by blast
qed

section \<open>Redirects\<close>

lemma slash_plain: "\<not> isRedirectControlByte (CHR ''/'')" "\<not> nonASCII (CHR ''/'')" "CHR ''/'' \<noteq> char_of (92 :: nat)"
  by code_simp+

lemma escapes_append:
  "percentEncodeControlBytes (a @ b) = percentEncodeControlBytes a @ percentEncodeControlBytes b"
  "hexEscapeNonASCII (a @ b) = hexEscapeNonASCII a @ hexEscapeNonASCII b"
  by (simp_all add: percentEncodeControlBytes_map hexEscapeNonASCII_map)

text \<open>An escaped string has no byte of the given kind that the original has not, but for '%' and digits.\<close>

lemma escape_set: "(\<And>c. set (enc c) \<subseteq> A) \<Longrightarrow> set (concat (map (\<lambda>c. if P c then enc c else [c]) s)) \<subseteq> set s \<union> A"
  by (induction s) auto

lemma escaped_set:
  "set (hexEscapeNonASCII (percentEncodeControlBytes s))
    \<subseteq> set s \<union> insert (CHR ''%'') (set ''0123456789ABCDEF'' \<union> set ''0123456789abcdef'')"
proof -
  have c: "set (percentEncodeControlBytes s) \<subseteq> set s \<union> insert (CHR ''%'') (set ''0123456789ABCDEF'')"
    unfolding percentEncodeControlBytes_map by (rule escape_set [OF percentUpper_set])
  have "set (CHR ''%'' # formatHex n) \<subseteq> insert (CHR ''%'') (set ''0123456789abcdef'')" for n
    using formatHex_set [of n] unfolding list.set(2) [of "CHR ''%''" "formatHex n"] by blast
  then have "set (hexEscapeNonASCII (percentEncodeControlBytes s))
      \<subseteq> set (percentEncodeControlBytes s) \<union> insert (CHR ''%'') (set ''0123456789abcdef'')"
    unfolding hexEscapeNonASCII_map by (intro escape_set)
  then show ?thesis using c by blast
qed

lemma escaped_hd:
  assumes "s \<noteq> []"
  shows "hexEscapeNonASCII (percentEncodeControlBytes s) \<noteq> []
    \<and> (hd (hexEscapeNonASCII (percentEncodeControlBytes s)) = hd s
       \<or> hd (hexEscapeNonASCII (percentEncodeControlBytes s)) = CHR ''%'')"
proof -
  obtain c t where s: "s = c # t" using assms by (cases s) auto
  have p: "\<not> nonASCII (CHR ''%'')" by code_simp
  show ?thesis
    by (simp add: s escapes_cons percentUpper_def p)
qed

text \<open>A path that starts with a slash and not with two.\<close>

definition singleSlash :: "string \<Rightarrow> bool" where
  "singleSlash s \<longleftrightarrow> s \<noteq> [] \<and> hd s = CHR ''/'' \<and> (length s > 1 \<longrightarrow> s ! 1 \<noteq> CHR ''/'')"

lemma location_on_origin:
  assumes "singleSlash target"
  shows "\<exists>l. wHeader (writeRedirect (relRef L) r target code w) ''Location'' = Some [CHR ''/'' # l]
    \<and> (l \<noteq> [] \<longrightarrow> hd l \<noteq> CHR ''/'') \<and> (\<forall>c \<in> set l. printable c \<and> c \<noteq> char_of (92 :: nat))"
proof -
  obtain t where t: "target = CHR ''/'' # t" "t \<noteq> [] \<longrightarrow> hd t \<noteq> CHR ''/''"
    using assms by (cases target) (auto simp: singleSlash_def hd_conv_nth)
  let ?e = "percentEncodeBackslash t"
  have e: "percentEncodeBackslash target = CHR ''/'' # ?e"
    using slash_plain(3) by (simp add: t(1) percentEncodeBackslash_cons)
  have eh: "?e \<noteq> [] \<longrightarrow> hd ?e \<noteq> CHR ''/''"
    using t(2) by (cases t) (auto simp: percentEncodeBackslash_cons percentEncodeBackslash_def)
  obtain loc query where q: "cutQuery (CHR ''/'' # ?e) = (loc, query)" by fastforce
  note cq = cutQuery_rooted [OF q] cutQuery_parts [OF q]
  obtain u where u: "cleanKeepSlash loc = CHR ''/'' # u" "u \<noteq> [] \<longrightarrow> hd u \<noteq> CHR ''/''"
    using cleanKeepSlash_shape(1) [OF cq(1,2)] by blast
  let ?l = "hexEscapeNonASCII (percentEncodeControlBytes (u @ query))"
  have wr: "writeRedirect (relRef L) r target code w
      = respondRedirect r (percentEncodeControlBytes (cleanKeepSlash loc @ query)) code w"
  proof -
    have "\<not> (length (CHR ''/'' # ?e) = 0 \<or> hd (CHR ''/'' # ?e) \<noteq> CHR ''/''
        \<or> length (CHR ''/'' # ?e) > 1 \<and> (CHR ''/'' # ?e) ! 1 = CHR ''/'')"
      using eh by (cases ?e) auto
    then show ?thesis unfolding writeRedirect_def Let_def e q by (simp only: if_False prod.case)
  qed
  have lc: "wHeader (writeRedirect (relRef L) r target code w) ''Location'' = Some [CHR ''/'' # ?l]"
    unfolding wr respondRedirect_location u(1) append_Cons escapes_cons(1) using slash_plain by (simp add: escapes_cons)
  have "u @ query \<noteq> [] \<longrightarrow> hd (u @ query) \<noteq> CHR ''/''"
    using u(2) cq(3) by (cases u) auto
  then have h: "?l \<noteq> [] \<longrightarrow> hd ?l \<noteq> CHR ''/''"
  proof (cases "u @ query = []")
    case True
    have "hexEscapeNonASCII (percentEncodeControlBytes []) = []" by code_simp
    then show ?thesis using True by (simp only: simp_thms)
  next
    case False
    have "CHR ''%'' \<noteq> CHR ''/''" by simp
    then show ?thesis using escaped_hd [OF False] False \<open>u @ query \<noteq> [] \<longrightarrow> _\<close> by metis
  qed
  have "set (u @ query) \<subseteq> set (CHR ''/'' # ?e)"
    using cleanKeepSlash_shape(2) [OF cq(1,2)] u(1) cq(4) by auto
  then have "char_of (92 :: nat) \<notin> set (u @ query)"
    using percentEncodeBackslash_set [of target] e by auto
  moreover have "char_of (92 :: nat) \<notin> insert (CHR ''%'') (set ''0123456789ABCDEF'' \<union> set ''0123456789abcdef'')"
    by code_simp
  ultimately have "char_of (92 :: nat) \<notin> set ?l" using escaped_set [of "u @ query"] by blast
  then show ?thesis using lc h escaped_printable [of "u @ query"] by blast
qed

lemma singleSlash_cons:
  "\<not> singleSlash []" "singleSlash (c # s) \<longleftrightarrow> c = CHR ''/'' \<and> (s = [] \<or> hd s \<noteq> CHR ''/'')"
  by (simp_all add: singleSlash_def) (cases s; auto)

lemma singleSlash_front:
  assumes "singleSlash (a @ b)" "length a > 1"
  shows "singleSlash (a @ b')"
proof -
  obtain x y a' where "a = x # y # a'"
    using assms(2) by (cases a; cases "tl a") auto
  then show ?thesis using assms(1) by (simp add: singleSlash_cons)
qed

lemma singleSlash_clean:
  assumes "p \<noteq> []" "hd p = CHR ''/''"
  shows "singleSlash (pathClean p)"
  using joinSlash_hd [of "cleanParts p"] cleanParts_good [of p]
  by (auto simp: pathClean_rooted [OF assms] singleSlash_cons)

lemma singleSlash_toggle:
  assumes "singleSlash p" "p \<noteq> ''/''"
  shows "singleSlash (toggleSlash p)"
proof -
  obtain x y s where p: "p = x # y # s"
    using assms by (cases p; cases "tl p") (auto simp: singleSlash_cons)
  show ?thesis
  proof (cases "s = []")
    case True
    then show ?thesis using assms(1) p by (auto simp: toggleSlash_def singleSlash_cons)
  next
    case False
    then show ?thesis using assms(1) p by (auto simp: toggleSlash_def singleSlash_cons)
  qed
qed

lemma singleSlash_query: "singleSlash s \<Longrightarrow> singleSlash (buildRedirectTarget s q)"
  by (cases s) (auto simp: buildRedirectTarget_def singleSlash_cons hd_append)

text \<open>A target of the router: the mount prefix, the new path and the query.\<close>

lemma redirectTo_single:
  assumes "path \<noteq> []" "hd path = CHR ''/''" "singleSlash (mountPrefixFrom (requestContext r) @ path)"
    and "singleSlash path \<Longrightarrow> singleSlash new"
  shows "singleSlash (redirectTo r new)"
proof (cases "mountPrefixFrom (requestContext r)")
  case Nil
  then show ?thesis using assms(3,4) by (simp add: redirectTo_def Let_def singleSlash_query)
next
  case (Cons c mp)
  have "mp \<noteq> []" using assms(1-3) Cons by (auto simp: singleSlash_cons)
  then have "length (mountPrefixFrom (requestContext r)) > 1" using Cons by simp
  from singleSlash_front [OF assms(3) this] show ?thesis
    using Cons by (simp add: redirectTo_def Let_def singleSlash_query)
qed

lemma redirect_targets:
  assumes "decide c trees r = Inr (RedirectTo target code)"
  shows "urlPathOf c r \<noteq> ''/''
    \<and> (target = redirectTo r (toggleSlash (urlPathOf c r)) \<or> target = redirectTo r (pathClean (urlPathOf c r)))"
proof -
  have c: "cleanedPath n p = Inr (Some q) \<Longrightarrow> q = pathClean p" for n :: "'a tree" and p q
    by (auto simp: cleanedPath_def Let_def split: if_splits sum.splits)
  have p: "primaryDecision c trees r = Inr (Some (RedirectTo target code)) \<Longrightarrow> ?thesis"
    by (auto simp: primaryDecision_def Let_def split: sum.splits option.splits if_splits dest: c)
  have s: "starDecision c trees r = Inr (Some (RedirectTo target code)) \<Longrightarrow> ?thesis"
    by (auto simp: starDecision_def Let_def split: sum.splits option.splits if_splits)
  have f: "fallbackDecision c trees r \<noteq> Inr (RedirectTo target code)"
    by (auto simp: fallbackDecision_def Let_def map_sum_def split: sum.splits if_splits)
  show ?thesis
    using assms p s f by (auto simp: decide_def split: sum.splits option.splits)
qed

text \<open>
  C18. Automatic redirects stay on the origin. Whenever \<open>dispatch\<close> decides to redirect a request
  whose path, with the mount prefixes consumed so far in front of it, starts with a slash and not
  with two, the Location header that \<open>writeRedirect\<close> sends is one value that starts with a slash
  followed by neither a slash nor a backslash, and contains only printable ASCII and no backslash
  anywhere, whatever else the path, the query and the mount prefix hold. A path that starts with
  two slashes is not covered: where a route registered with two slashes makes it the target of
  a redirect, the code deliberately sends that target as it is.
\<close>

theorem redirects_stay_on_the_origin:
  assumes "decide c trees r = Inr (RedirectTo target code)"
    and "path = urlPathOf c r" "path \<noteq> []" "hd path = CHR ''/''"
    and "singleSlash (mountPrefixFrom (requestContext r) @ path)"
  shows "\<exists>l. wHeader (writeRedirect (relRef L) r target code w) ''Location'' = Some [CHR ''/'' # l]
    \<and> (l \<noteq> [] \<longrightarrow> hd l \<noteq> CHR ''/'') \<and> (\<forall>c \<in> set l. printable c \<and> c \<noteq> char_of (92 :: nat))"
proof -
  have t: "path \<noteq> ''/''" "target = redirectTo r (toggleSlash path) \<or> target = redirectTo r (pathClean path)"
    using redirect_targets [OF assms(1)] assms(2) by simp_all
  have "singleSlash (redirectTo r (toggleSlash path))"
    by (rule redirectTo_single [OF assms(3-5)]) (rule singleSlash_toggle [OF _ t(1)])
  moreover have "singleSlash (redirectTo r (pathClean path))"
    by (rule redirectTo_single [OF assms(3-5)]) (rule singleSlash_clean [OF assms(3,4)])
  ultimately show ?thesis using t(2) location_on_origin by blast
qed

text \<open>A path whose first segment starts with a backslash, in a state with the route for it.\<close>

definition evilRequest :: request where
  "evilRequest = requestFor ''GET'' (''/users/'' @ char_of (92 :: nat) # ''evil.com/'')"

lemma redirects_stay_on_the_origin_witness:
  "\<exists>l. wHeader (writeRedirect (relRef demoLibs) evilRequest (''/users/'' @ char_of (92 :: nat) # ''evil.com'') 301 blankResponse)
        ''Location'' = Some [CHR ''/'' # l]
    \<and> (l \<noteq> [] \<longrightarrow> hd l \<noteq> CHR ''/'') \<and> (\<forall>c \<in> set l. printable c \<and> c \<noteq> char_of (92 :: nat))"
proof (rule redirects_stay_on_the_origin [OF _ refl])
  have "case decide (frozenConfig (settings newMux)) (treesPtr demo) evilRequest of
      Inr (RedirectTo t k) \<Rightarrow> t = ''/users/'' @ char_of (92 :: nat) # ''evil.com'' \<and> k = 301 | _ \<Rightarrow> False"
    by code_simp
  then show "decide (frozenConfig (settings newMux)) (treesPtr demo) evilRequest
      = Inr (RedirectTo (''/users/'' @ char_of (92 :: nat) # ''evil.com'') 301)"
    by (auto split: sum.splits decision.splits)
  show "urlPathOf (frozenConfig (settings newMux)) evilRequest \<noteq> []"
    "hd (urlPathOf (frozenConfig (settings newMux)) evilRequest) = CHR ''/''"
    "singleSlash (mountPrefixFrom (requestContext evilRequest) @ urlPathOf (frozenConfig (settings newMux)) evilRequest)"
    by code_simp+
qed



text \<open>
  The copy loops escape byte by byte. Both escape functions, whose loops copy the runs
  between escaped bytes at once, replace each byte on its own: a control byte by '%' and two
  upper-case hexadecimal digits, a byte from 128 up by '%' and its lower-case hexadecimal
  number; and a string without such bytes is returned as it is.
\<close>

theorem escape_loops_are_bytewise:
  "percentEncodeControlBytes s
      = concat (map (\<lambda>c. if isRedirectControlByte c
          then [CHR ''%'', upperHex (byteOf c div 16), upperHex (byteOf c mod 16)] else [c]) s)
    \<and> hexEscapeNonASCII s
      = concat (map (\<lambda>c. if nonASCII c then CHR ''%'' # formatHex (byteOf c) else [c]) s)"
  unfolding percentEncodeControlBytes_map hexEscapeNonASCII_map percentUpper_def by simp

section \<open>Fixed paths\<close>

text \<open>The request a client makes when it follows a redirect to the path.\<close>

definition atPath :: "string \<Rightarrow> request \<Rightarrow> request" where
  "atPath path r = r\<lparr>rURL := (rURL r)\<lparr>uPath := path, uRawPath := []\<rparr>\<rparr>"

text \<open>
  A fixed-path redirect leads to a handler. With trailing-slash redirects off, whenever a
  request is redirected, the path it is redirected to is the cleaned path of the request, and a
  request of the same method there is served at once by a row of that method: following the
  redirect neither loops nor ends in an error.
\<close>

theorem fixed_path_redirect_is_served:
  assumes "reach rc L m tbl" "tableOK tbl" "\<not> caseInsensitive c" "\<not> redirectTrailingSlash c"
    and "path = urlPathOf c r" "path \<noteq> []" "hd path = CHR ''/''"
    and "decide c (treesPtr m) r = Inr (RedirectTo target code)"
  shows "target = redirectTo r (pathClean path)
    \<and> (\<exists>h f p pb. decide c (treesPtr m) (atPath (pathClean path) r) = Inr (Serve False h f p pb))"
proof -
  let ?r = "atPath (pathClean path) r"
  note R = reach_routed [OF assms(1)]
  have d: "target = redirectTo r (pathClean path)" "matchesMethod rc tbl (rMethod r) (pathClean path)"
    using decide_row [OF R assms(2,3) assms(5) [symmetric] assms(6,7)] assms(8) decided_fixed [OF _ assms(4)]
    unfolding assms(5) by (metis sum.inject(2))+
  have u: "urlPathOf c ?r = pathClean path" "rMethod ?r = rMethod r"
    by (simp_all add: atPath_def urlPathOf_def)
  obtain d' where d': "decide c (treesPtr m) ?r = Inr d'" "decidedBy rc c tbl ?r d'"
    using decide_row [OF R assms(2,3) u(1) conjunct1 [OF rooted_clean [OF assms(6,7)]]
        conjunct2 [OF rooted_clean [OF assms(6,7)]]] by blast
  have "matchesMethod rc tbl (rMethod ?r) (urlPathOf c ?r)" using d(2) u by simp
  from decided_matched [OF d'(2) this] show ?thesis using d(1) d'(1) by blast
qed

lemma fixed_path_redirect_is_served_witness:
  "let c = frozenConfig (quietFields\<lparr>RedirectFixedPath := True\<rparr>); r = requestFor ''GET'' ''/x/..//users/7''
   in \<exists>h f p pb. decide c (treesPtr demo) (atPath (pathClean ''/x/..//users/7'') r) = Inr (Serve False h f p pb)"
proof -
  let ?c = "frozenConfig (quietFields\<lparr>RedirectFixedPath := True\<rparr>)"
  let ?r = "requestFor ''GET'' ''/x/..//users/7''"
  have c: "\<not> caseInsensitive ?c" "\<not> redirectTrailingSlash ?c" "urlPathOf ?c ?r = ''/x/..//users/7''"
    by (simp_all add: frozenConfig_def quietFields_def newMux_def urlPathOf_def)
  have "case decide ?c (treesPtr demo) ?r of Inr (RedirectTo t k) \<Rightarrow> True | _ \<Rightarrow> False" by code_simp
  then obtain t k where "decide ?c (treesPtr demo) ?r = Inr (RedirectTo t k)"
    by (auto split: sum.splits decision.splits)
  then show ?thesis
    using fixed_path_redirect_is_served [OF demo_reach demo_table c(1,2) c(3) [symmetric]] by simp
qed

end
