(* ===== verification/Group.thy ===== *)
theory Group
  imports RouterState
begin

text \<open>
  Groups (group.go, and the functions of mux.go that make them): a prefix with middleware in
  front of the registration operations of a router. The router a group points to is the state
  the operations take; a group's own fields are its value, since every constructor copies the
  middleware slices.
\<close>

record 'w group =
  gprefix :: string
  gmiddleware :: "'w middleware list"
  gfastMiddleware :: "'w fastMiddleware list"

section \<open>Making groups\<close>

definition joinPrefix :: "string \<Rightarrow> string \<Rightarrow> string" where
  "joinPrefix left right =
     (if left \<noteq> [] \<and> last left = CHR ''/'' \<and> right \<noteq> [] \<and> hd right = CHR ''/'' then left @ tl right
      else left @ right)"

definition muxGroup :: "string \<Rightarrow> 'w group" where
  "muxGroup prefix = \<lparr>gprefix = prefix, gmiddleware = [], gfastMiddleware = []\<rparr>"

definition muxWith :: "'w middleware list \<Rightarrow> 'w group" where
  "muxWith mws = \<lparr>gprefix = [], gmiddleware = mws, gfastMiddleware = []\<rparr>"

definition groupUse :: "'w middleware list \<Rightarrow> 'w group \<Rightarrow> 'w group" where
  "groupUse mws g = g\<lparr>gmiddleware := gmiddleware g @ mws\<rparr>"

definition groupUseFast :: "'w fastMiddleware list \<Rightarrow> 'w group \<Rightarrow> 'w group" where
  "groupUseFast mws g = g\<lparr>gfastMiddleware := gfastMiddleware g @ mws\<rparr>"

definition groupWith :: "'w middleware list \<Rightarrow> 'w group \<Rightarrow> 'w group" where
  "groupWith mws g =
     \<lparr>gprefix = gprefix g, gmiddleware = gmiddleware g @ mws, gfastMiddleware = gfastMiddleware g\<rparr>"

definition subGroup :: "string \<Rightarrow> 'w group \<Rightarrow> 'w group" where
  "subGroup prefix g =
     \<lparr>gprefix = joinPrefix (gprefix g) prefix, gmiddleware = gmiddleware g,
      gfastMiddleware = gfastMiddleware g\<rparr>"

text \<open>The function given to \<open>Route\<close> registers on the group it receives.\<close>

definition groupRoute ::
  "string \<Rightarrow> ('w group \<Rightarrow> 'w mux \<Rightarrow> 'w registration) \<Rightarrow> 'w group \<Rightarrow> 'w mux \<Rightarrow> 'w registration"
where
  "groupRoute prefix fn g m = fn (subGroup prefix g) m"

definition muxRoute :: "string \<Rightarrow> ('w group \<Rightarrow> 'w mux \<Rightarrow> 'w registration) \<Rightarrow> 'w mux \<Rightarrow> 'w registration" where
  "muxRoute prefix fn m = fn (muxGroup prefix) m"

section \<open>Registration on a group\<close>

definition groupHandle ::
  "regexLib \<Rightarrow> string \<Rightarrow> string \<Rightarrow> 'w handler option \<Rightarrow> 'w group \<Rightarrow> 'w mux \<Rightarrow> 'w registration"
where
  "groupHandle rc meth path h g m =
     handle rc meth (joinPrefix (gprefix g) path) (wrapMiddleware h (gmiddleware g)) m"

definition groupHandleFunc ::
  "regexLib \<Rightarrow> string \<Rightarrow> string \<Rightarrow> 'w serve option \<Rightarrow> 'w group \<Rightarrow> 'w mux \<Rightarrow> 'w registration"
where
  "groupHandleFunc rc meth path h g m = groupHandle rc meth path (Some (Func h)) g m"

definition groupHandleE ::
  "regexLib \<Rightarrow> string \<Rightarrow> string \<Rightarrow> 'w serveE option \<Rightarrow> 'w group \<Rightarrow> 'w mux \<Rightarrow> 'w registration"
where
  "groupHandleE rc meth path h g m = groupHandle rc meth path (Some (ErrorFunc h)) g m"

definition groupHandleFast ::
  "regexLib \<Rightarrow> string \<Rightarrow> string \<Rightarrow> 'w fastHandler option \<Rightarrow> 'w group \<Rightarrow> 'w mux \<Rightarrow> 'w registration"
where
  "groupHandleFast rc meth path h g m =
     (if gmiddleware g \<noteq> [] then (m, Some FastOnGroupWithMiddleware)
      else handleFast rc meth (joinPrefix (gprefix g) path) (wrapFastMiddleware h (gfastMiddleware g)) m)"

definition groupGET where "groupGET rc path h g m = groupHandleFunc rc ''GET'' path h g m"
definition groupHEAD where "groupHEAD rc path h g m = groupHandleFunc rc ''HEAD'' path h g m"
definition groupPOST where "groupPOST rc path h g m = groupHandleFunc rc ''POST'' path h g m"
definition groupPUT where "groupPUT rc path h g m = groupHandleFunc rc ''PUT'' path h g m"
definition groupPATCH where "groupPATCH rc path h g m = groupHandleFunc rc ''PATCH'' path h g m"
definition groupDELETE where "groupDELETE rc path h g m = groupHandleFunc rc ''DELETE'' path h g m"
definition groupOPTIONS where "groupOPTIONS rc path h g m = groupHandleFunc rc ''OPTIONS'' path h g m"
definition groupCONNECT where "groupCONNECT rc path h g m = groupHandleFunc rc ''CONNECT'' path h g m"
definition groupTRACE where "groupTRACE rc path h g m = groupHandleFunc rc ''TRACE'' path h g m"
definition groupQUERY where "groupQUERY rc path h g m = groupHandleFunc rc ''QUERY'' path h g m"

definition groupGETE where "groupGETE rc path h g m = groupHandleE rc ''GET'' path h g m"
definition groupHEADE where "groupHEADE rc path h g m = groupHandleE rc ''HEAD'' path h g m"
definition groupPOSTE where "groupPOSTE rc path h g m = groupHandleE rc ''POST'' path h g m"
definition groupPUTE where "groupPUTE rc path h g m = groupHandleE rc ''PUT'' path h g m"
definition groupPATCHE where "groupPATCHE rc path h g m = groupHandleE rc ''PATCH'' path h g m"
definition groupDELETEE where "groupDELETEE rc path h g m = groupHandleE rc ''DELETE'' path h g m"
definition groupOPTIONSE where "groupOPTIONSE rc path h g m = groupHandleE rc ''OPTIONS'' path h g m"
definition groupQUERYE where "groupQUERYE rc path h g m = groupHandleE rc ''QUERY'' path h g m"

definition groupANY :: "regexLib \<Rightarrow> string \<Rightarrow> 'w serve option \<Rightarrow> 'w group \<Rightarrow> 'w mux \<Rightarrow> 'w registration" where
  "groupANY rc path h g m = forEach (\<lambda>meth. groupHandleFunc rc meth path h g) anyMethods m"

definition groupMatch ::
  "regexLib \<Rightarrow> string list \<Rightarrow> string \<Rightarrow> 'w handler option \<Rightarrow> 'w group \<Rightarrow> 'w mux \<Rightarrow> 'w registration"
where
  "groupMatch rc methods path h g m = forEach (\<lambda>meth. groupHandle rc meth path h g) methods m"

definition groupMount ::
  "regexLib \<Rightarrow> string \<Rightarrow> 'w handler option \<Rightarrow> 'w group \<Rightarrow> 'w mux \<Rightarrow> 'w registration"
where
  "groupMount rc prefix h g m =
     mountAt rc (joinPrefix (gprefix g) prefix) (wrapMiddleware h (gmiddleware g)) m"

definition groupServeFiles ::
  "regexLib \<Rightarrow> string \<Rightarrow> 'w serve option \<Rightarrow> 'w group \<Rightarrow> 'w mux \<Rightarrow> 'w registration"
where
  "groupServeFiles rc prefix root g m =
     (case root of
        None \<Rightarrow> (m, Some ServeFilesNilRoot)
      | Some fs \<Rightarrow>
          (case checkServeFilesRawPath m of
             Some e \<Rightarrow> (m, Some e)
           | None \<Rightarrow>
               (case filesParam (joinPrefix (gprefix g) prefix) of
                  Inl e \<Rightarrow> (m, Some e)
                | Inr paramName \<Rightarrow>
                    forEach (\<lambda>meth. groupHandle rc meth prefix (Some (FilesFunc paramName fs)) g)
                      [''GET'', ''HEAD''] m)))"

section \<open>Groups are prefixes and middleware\<close>

text \<open>Joining prefixes is associative and has the empty prefix as its unit.\<close>

lemma joinPrefix_Nil [simp]: "joinPrefix [] p = p" "joinPrefix p [] = p"
  by (simp_all add: joinPrefix_def)

lemma joinPrefix_single: "joinPrefix p ''/'' = (if p \<noteq> [] \<and> last p = CHR ''/'' then p else p @ ''/'')"
  by (simp add: joinPrefix_def)

lemma joinPrefix_assoc: "joinPrefix (joinPrefix p a) b = joinPrefix p (joinPrefix a b)"
proof (cases a)
  case (Cons x xs)
  then show ?thesis
    by (cases xs) (auto simp: joinPrefix_def)
qed simp

lemma subGroup_subGroup: "subGroup b (subGroup a g) = subGroup (joinPrefix a b) g"
  by (simp add: subGroup_def joinPrefix_assoc)

text \<open>
  Registering on a group is registering the joined pattern on a router whose middleware the
  group's is appended to.
\<close>

lemma warn_middleware:
  "warnRawPathDecodeIfEnabled (m\<lparr>middleware := x\<rparr>) = (warnRawPathDecodeIfEnabled m)\<lparr>middleware := x\<rparr>"
  by (simp add: warnRawPathDecodeIfEnabled_def)

lemma publishRoute_middleware:
  "publishRoute add i (m\<lparr>middleware := x\<rparr>)
   = map_prod (\<lambda>m'. m'\<lparr>middleware := x\<rparr>) id (publishRoute add i m)"
  by (auto simp: publishRoute_def Let_def split: sum.splits)

lemma wrapMiddleware_Nil: "wrapMiddleware h [] = h"
  by (simp add: wrapMiddleware_def)

lemma groupHandle_is_handle:
  assumes "h \<noteq> None"
  shows "handle rc meth (joinPrefix (gprefix g) path) h (m\<lparr>middleware := middleware m @ gmiddleware g\<rparr>)
    = map_prod (\<lambda>m'. m'\<lparr>middleware := middleware m @ gmiddleware g\<rparr>) id (groupHandle rc meth path h g m)"
  using assms
  by (auto simp: groupHandle_def handle_def Let_def warn_middleware warn_same publishRoute_middleware
      wrapMiddleware_append wrapMiddleware_Nil split: option.splits)

end
