(* ===== verification/Introspection.thy ===== *)
theory Introspection
  imports RouterState
begin

text \<open>
  introspection.go: looking up a route without serving it, and listing the routes. The names of
  handlers, which the code takes from reflection, are a parameter.
\<close>

record RouteInfo =
  infoMethod :: string
  infoPattern :: string
  infoHandler :: string

definition lookupRoute ::
  "'w mux \<Rightarrow> string \<Rightarrow> string \<Rightarrow> goPanic + 'w handler option \<times> Params \<times> bool"
where
  "lookupRoute m meth path =
     (if path = [] \<or> hd path \<noteq> CHR ''/'' then Inr (None, [], False)
      else
        (case treesPtr m of
           None \<Rightarrow> Inr (None, [], False)
         | Some trees \<Rightarrow>
             (case methodIdx meth of
                None \<Rightarrow> Inr (None, [], False)
              | Some idx \<Rightarrow>
                  (case trees ! idx of
                     None \<Rightarrow> Inr (None, [], False)
                   | Some root \<Rightarrow>
                       (case getValue root path (Some emptyBuf) False of
                          Inl e \<Rightarrow> Inl e
                        | Inr (res, ps) \<Rightarrow>
                            if \<not> found res then Inr (None, [], False)
                            else
                              (let pb = (case ps of Some b \<Rightarrow> b | None \<Rightarrow> emptyBuf);
                                   params = (if pcount pb > 0
                                             then copyInto (replicate (pcount pb) (mkParam [] [])) (bufParams pb)
                                             else [])
                               in Inr (ohandler res, params, True)))))))"

text \<open>The leaves of every tree, in the order of the methods, with the method's name.\<close>

fun treeLeaves ::
  "nat \<times> 'w tree option \<Rightarrow> (string \<times> string \<times> 'w handler option \<times> 'w fastHandler option) list"
where
  "treeLeaves (i, None) = []"
| "treeLeaves (i, Some n) = map (\<lambda>leaf. (methodNames ! i, leaf)) (walkLeaves n)"

definition leavesOf :: "'w mux \<Rightarrow> (string \<times> string \<times> 'w handler option \<times> 'w fastHandler option) list" where
  "leavesOf m =
     (case treesPtr m of None \<Rightarrow> [] | Some trees \<Rightarrow> concat (map treeLeaves (enumerate 0 trees)))"

fun infoOf ::
  "('w handler \<Rightarrow> string) \<Rightarrow> ('w fastHandler \<Rightarrow> string)
     \<Rightarrow> string \<times> string \<times> 'w handler option \<times> 'w fastHandler option \<Rightarrow> RouteInfo"
where
  "infoOf handlerName fastHandlerName (meth, p, h, f) =
     \<lparr>infoMethod = meth, infoPattern = p,
      infoHandler = (case h of
                       Some g \<Rightarrow> handlerName g
                     | None \<Rightarrow> (case f of Some g \<Rightarrow> fastHandlerName g | None \<Rightarrow> []))\<rparr>"

definition routes ::
  "('w handler \<Rightarrow> string) \<Rightarrow> ('w fastHandler \<Rightarrow> string) \<Rightarrow> 'w mux \<Rightarrow> RouteInfo list"
where
  "routes handlerName fastHandlerName m = map (infoOf handlerName fastHandlerName) (leavesOf m)"

text \<open>
  \<open>Walk\<close> and \<open>WalkFast\<close>: within a tree the visitor does nothing once \<open>walkErr\<close> is set, and
  the loop over the trees stops after the tree in which it was set. The visited function
  carries a state of its own.
\<close>

type_synonym ('v, 's) visitor = "string \<Rightarrow> string \<Rightarrow> 'v \<Rightarrow> 's \<Rightarrow> 's \<times> goError option"

fun visitLeaves ::
  "('l \<Rightarrow> 'v option) \<Rightarrow> ('v, 's) visitor \<Rightarrow> string \<Rightarrow> (string \<times> 'l) list \<Rightarrow> 's \<times> goError option
     \<Rightarrow> 's \<times> goError option"
where
  "visitLeaves sel fn meth [] acc = acc"
| "visitLeaves sel fn meth ((p, l) # ls) (s, walkErr) =
     visitLeaves sel fn meth ls
       (case (walkErr, sel l) of
          (None, Some v) \<Rightarrow> fn meth p v s
        | _ \<Rightarrow> (s, walkErr))"

fun visitTrees ::
  "('w handler option \<times> 'w fastHandler option \<Rightarrow> 'v option) \<Rightarrow> ('v, 's) visitor
     \<Rightarrow> (nat \<times> 'w tree option) list \<Rightarrow> 's \<Rightarrow> 's \<times> goError option"
where
  "visitTrees sel fn [] s = (s, None)"
| "visitTrees sel fn ((i, root) # rest) s =
     (case root of
        None \<Rightarrow> visitTrees sel fn rest s
      | Some n \<Rightarrow>
          (case visitLeaves sel fn (methodNames ! i) (walkLeaves n) (s, None) of
             (s', Some e) \<Rightarrow> (s', Some e)
           | (s', None) \<Rightarrow> visitTrees sel fn rest s'))"

definition walkRoutes :: "('w handler, 's) visitor \<Rightarrow> 'w mux \<Rightarrow> 's \<Rightarrow> 's \<times> goError option" where
  "walkRoutes fn m s =
     (case treesPtr m of None \<Rightarrow> (s, None) | Some trees \<Rightarrow> visitTrees fst fn (enumerate 0 trees) s)"

definition walkFast :: "('w fastHandler, 's) visitor \<Rightarrow> 'w mux \<Rightarrow> 's \<Rightarrow> 's \<times> goError option" where
  "walkFast fn m s =
     (case treesPtr m of None \<Rightarrow> (s, None) | Some trees \<Rightarrow> visitTrees snd fn (enumerate 0 trees) s)"

section \<open>Walking is visiting the listed routes up to the first error\<close>

fun visitUntil :: "('v, 's) visitor \<Rightarrow> (string \<times> string \<times> 'v) list \<Rightarrow> 's \<Rightarrow> 's \<times> goError option" where
  "visitUntil fn [] s = (s, None)"
| "visitUntil fn ((meth, p, v) # rest) s =
     (case fn meth p v s of
        (s', Some e) \<Rightarrow> (s', Some e)
      | (s', None) \<Rightarrow> visitUntil fn rest s')"

definition selected :: "('l \<Rightarrow> 'v option) \<Rightarrow> (string \<times> string \<times> 'l) list \<Rightarrow> (string \<times> string \<times> 'v) list" where
  "selected sel ls = concat (map (\<lambda>(meth, p, l). case sel l of None \<Rightarrow> [] | Some v \<Rightarrow> [(meth, p, v)]) ls)"

lemma selected_simps [simp]:
  "selected sel [] = []"
  "selected sel ((meth, p, l) # ls) = (case sel l of None \<Rightarrow> [] | Some v \<Rightarrow> [(meth, p, v)]) @ selected sel ls"
  "selected sel (ls @ ls') = selected sel ls @ selected sel ls'"
  by (simp_all add: selected_def)

lemma visitUntil_append:
  "visitUntil fn (xs @ ys) s
   = (case visitUntil fn xs s of (s', Some e) \<Rightarrow> (s', Some e) | (s', None) \<Rightarrow> visitUntil fn ys s')"
  by (induction fn xs s rule: visitUntil.induct) (auto split: prod.splits option.splits)

lemma visitLeaves_error: "visitLeaves sel fn meth ls (s, Some e) = (s, Some e)"
  by (induction ls) auto

lemma visitLeaves_until:
  "visitLeaves sel fn meth ls (s, None) = visitUntil fn (selected sel (map (\<lambda>l. (meth, l)) ls)) s"
proof (induction ls arbitrary: s)
  case (Cons x ls)
  obtain p l where x: "x = (p, l)" by (cases x)
  show ?case
  proof (cases "sel l")
    case None
    then show ?thesis using Cons.IH by (simp add: x)
  next
    case (Some v)
    obtain s' e where f: "fn meth p v s = (s', e)" by fastforce
    then show ?thesis using Some Cons.IH by (cases e) (simp_all add: x visitLeaves_error)
  qed
qed simp

lemma visitTrees_until: "visitTrees sel fn ts s = visitUntil fn (selected sel (concat (map treeLeaves ts))) s"
proof (induction sel fn ts s rule: visitTrees.induct)
  case (2 sel fn i root rest s)
  show ?case
  proof (cases root)
    case None
    then show ?thesis using 2(1) by simp
  next
    case (Some n)
    obtain s' e where f: "visitLeaves sel fn (methodNames ! i) (walkLeaves n) (s, None) = (s', e)" by fastforce
    then show ?thesis using 2(2) [OF Some] Some
      by (cases e) (simp_all add: visitUntil_append visitLeaves_until [symmetric])
  qed
qed simp

lemma walkRoutes_until: "walkRoutes fn m s = visitUntil fn (selected fst (leavesOf m)) s"
  by (simp add: walkRoutes_def leavesOf_def visitTrees_until split: option.splits)

lemma walkFast_until: "walkFast fn m s = visitUntil fn (selected snd (leavesOf m)) s"
  by (simp add: walkFast_def leavesOf_def visitTrees_until split: option.splits)

section \<open>Listing is the routing table\<close>

lemma leavesOf_rows:
  assumes "routed rc m tbl" "\<forall>i < methodCount. registrable (rowsFor i tbl)"
  shows "mset (leavesOf m)
    = (\<Sum>i \<leftarrow> [0..<methodCount].
         mset (map (\<lambda>(q, h, f, p). (methodNames ! i, p, h, f)) (registered (rowsFor i tbl))))"
proof (cases "treesPtr m")
  case None
  then have "rowsFor i tbl = []" if "i < methodCount" for i
    using assms(1) that by (auto simp: routed_def treeOf_def)
  then have "(\<Sum>i \<leftarrow> [0..<methodCount].
      mset (map (\<lambda>(q, h, f, p). (methodNames ! i, p, h, f)) (registered (rowsFor i tbl))))
    = (\<Sum>i \<leftarrow> [0..<methodCount]. {#})"
    by (intro arg_cong [where f = sum_list] map_cong) (simp_all add: registered_def)
  then show ?thesis using None by (simp add: leavesOf_def)
next
  case (Some ts)
  have len: "length ts = methodCount" using assms(1) Some by (simp add: routed_def)
  have one: "mset (treeLeaves (i, ts ! i))
      = mset (map (\<lambda>(q, h, f, p). (methodNames ! i, p, h, f)) (registered (rowsFor i tbl)))"
    if "i < methodCount" for i
  proof (cases "ts ! i")
    case None
    then have "rowsFor i tbl = []" using assms(1) that Some by (auto simp: routed_def treeOf_def)
    then show ?thesis using None by (simp add: registered_def)
  next
    case n: (Some n)
    have "registerAll rc emptyNode (rowsFor i tbl) = Inr n"
      using assms(1) that Some n by (auto simp: routed_def treeOf_def)
    then have "mset (walkLeaves n) = mset (map (\<lambda>(q, h, f, p). (p, h, f)) (registered (rowsFor i tbl)))"
      using registerAll_walk assms(2) that by blast
    then have "image_mset (\<lambda>l. (methodNames ! i, l)) (mset (walkLeaves n))
      = image_mset (\<lambda>l. (methodNames ! i, l))
          (mset (map (\<lambda>(q, h, f, p). (p, h, f)) (registered (rowsFor i tbl))))"
      by (rule arg_cong)
    then show ?thesis by (simp add: n multiset.map_comp comp_def case_prod_unfold)
  qed
  have "enumerate 0 ts = map (\<lambda>i. (i, ts ! i)) [0..<methodCount]"
    by (rule nth_equalityI) (simp_all add: len nth_enumerate_eq)
  then have "mset (leavesOf m) = (\<Sum>i \<leftarrow> [0..<methodCount]. mset (treeLeaves (i, ts ! i)))"
    by (simp add: leavesOf_def Some mset_concat comp_def)
  also have "\<dots> = (\<Sum>i \<leftarrow> [0..<methodCount].
         mset (map (\<lambda>(q, h, f, p). (methodNames ! i, p, h, f)) (registered (rowsFor i tbl))))"
    by (intro arg_cong [where f = sum_list] map_cong) (simp_all add: one)
  finally show ?thesis .
qed

end
