(* ===== verification/LazyRedirect.thy ===== *)
theory LazyRedirect
  imports RouterState
begin

text \<open>
  The lock-free cache of the redirect handler (\<open>serveRedirect\<close> and \<open>lazyRedirect\<close> of mux.go)
  under interleaving: any number of requests load the snapshot and the cached entry and publish
  by compare-and-swap, one atomic access at a time, while \<open>Use\<close> and \<open>Rebuild\<close> change the
  snapshot and clear the entry between any two of them.
\<close>

section \<open>Shared state and threads\<close>

text \<open>
  The pointer to the entry is its identity with the entry; every stored entry is a new
  allocation, numbered by \<open>wNext\<close>. \<open>wHist\<close> lists the middleware of every generation so far,
  which no step reads.
\<close>

record 'w world =
  wGen :: nat
  wSnap :: "'w mwSnapshot option"
  wCell :: "(nat \<times> 'w lazyRedirectEntry) option"
  wNext :: nat
  wHist :: "'w middleware list list"

text \<open>Where a request stands; \<open>Comparing\<close> holds the pointer it will compare with.\<close>

datatype 'w thread =
    Idle
  | Direct
  | Loaded "'w mwSnapshot"
  | Building "'w mwSnapshot"
  | Comparing "'w mwSnapshot" "nat option"
  | Returned "'w mwSnapshot" "'w handler option"

definition redirectHandler :: "'w middleware list \<Rightarrow> 'w handler option" where
  "redirectHandler mws = wrapMiddleware (Some RedirectFunc) mws"

text \<open>One atomic access of a request and the branch it takes on what it reads.\<close>

fun advance :: "'w world \<Rightarrow> 'w thread \<Rightarrow> 'w world \<times> 'w thread" where
  "advance w Idle =
     (w, case wSnap w of
           None \<Rightarrow> Direct
         | Some s \<Rightarrow> if snapMw s = [] then Direct else Loaded s)"
| "advance w Direct = (w, Direct)"
| "advance w (Loaded s) =
     (w, case wCell w of
           None \<Rightarrow> Building s
         | Some (k, e) \<Rightarrow> if entryGen e = snapGen s then Returned s (entryHandler e) else Building s)"
| "advance w (Building s) =
     (w, case wCell w of
           None \<Rightarrow> Comparing s None
         | Some (k, e) \<Rightarrow>
             if entryGen e = snapGen s then Returned s (entryHandler e)
             else if entryGen e > snapGen s then Returned s (redirectHandler (snapMw s))
             else Comparing s (Some k))"
| "advance w (Comparing s cur) =
     (if map_option fst (wCell w) = cur then
        (w\<lparr>wCell := Some (wNext w, \<lparr>entryGen = snapGen s, entryHandler = redirectHandler (snapMw s)\<rparr>),
           wNext := wNext w + 1\<rparr>,
         Returned s (redirectHandler (snapMw s)))
      else (w, Building s))"
| "advance w (Returned s h) = (w, Returned s h)"

definition publishMiddleware :: "'w middleware list \<Rightarrow> 'w world \<Rightarrow> 'w world" where
  "publishMiddleware mws w =
     w\<lparr>wGen := wGen w + 1,
       wSnap := Some \<lparr>snapGen = wGen w + 1, snapMw = last (wHist w) @ mws\<rparr>,
       wHist := wHist w @ [last (wHist w) @ mws]\<rparr>"

definition clearEntry :: "'w world \<Rightarrow> 'w world" where
  "clearEntry w = w\<lparr>wCell := None\<rparr>"

definition newWorld :: "'w world" where
  "newWorld = \<lparr>wGen = 0, wSnap = None, wCell = None, wNext = 0, wHist = [[]]\<rparr>"

inductive interleaving :: "'w world \<Rightarrow> (nat \<Rightarrow> 'w thread) \<Rightarrow> bool" where
  start: "interleaving newWorld (\<lambda>i. Idle)"
| access: "interleaving w ts \<Longrightarrow> advance w (ts i) = (w', t') \<Longrightarrow> interleaving w' (ts(i := t'))"
| use: "interleaving w ts \<Longrightarrow> interleaving (publishMiddleware mws w) ts"
| rebuild: "interleaving w ts \<Longrightarrow> interleaving (clearEntry w) ts"
| request: "interleaving w ts \<Longrightarrow> interleaving w (ts(i := Idle))"

section \<open>The invariant\<close>

definition snapOK :: "'w world \<Rightarrow> 'w mwSnapshot \<Rightarrow> bool" where
  "snapOK w s \<longleftrightarrow> snapGen s \<le> wGen w \<and> snapMw s = wHist w ! snapGen s"

definition entryOK :: "'w world \<Rightarrow> 'w lazyRedirectEntry \<Rightarrow> bool" where
  "entryOK w e \<longleftrightarrow> entryGen e \<le> wGen w \<and> entryHandler e = redirectHandler (wHist w ! entryGen e)"

fun threadOK :: "'w world \<Rightarrow> 'w thread \<Rightarrow> bool" where
  "threadOK w (Loaded s) = snapOK w s"
| "threadOK w (Building s) = snapOK w s"
| "threadOK w (Comparing s cur) =
     (snapOK w s
      \<and> (\<forall>k e. cur = Some k \<longrightarrow> wCell w = Some (k, e) \<longrightarrow> entryGen e < snapGen s)
      \<and> (\<forall>k. cur = Some k \<longrightarrow> k < wNext w))"
| "threadOK w (Returned s h) = (snapOK w s \<and> h = redirectHandler (snapMw s))"
| "threadOK w t = True"

definition worldOK :: "'w world \<Rightarrow> bool" where
  "worldOK w \<longleftrightarrow>
     length (wHist w) = wGen w + 1
     \<and> (\<forall>s. wSnap w = Some s \<longrightarrow> snapOK w s)
     \<and> (\<forall>k e. wCell w = Some (k, e) \<longrightarrow> entryOK w e \<and> k < wNext w)"

lemma snapOK_publish:
  "worldOK w \<Longrightarrow> snapOK w s \<Longrightarrow> snapOK (publishMiddleware mws w) s"
  by (simp add: snapOK_def publishMiddleware_def worldOK_def nth_append)

lemma worldOK_publish: "worldOK w \<Longrightarrow> worldOK (publishMiddleware mws w)"
  by (auto simp: worldOK_def publishMiddleware_def snapOK_def entryOK_def nth_append)

lemma threadOK_publish: "worldOK w \<Longrightarrow> threadOK w t \<Longrightarrow> threadOK (publishMiddleware mws w) t"
  by (cases t) (auto simp: snapOK_publish, simp_all add: publishMiddleware_def)

lemma advance_OK:
  assumes "worldOK w" "threadOK w t" "advance w t = (w', t')"
  shows "worldOK w' \<and> threadOK w' t'"
  using assms
  by (cases t) (auto simp: worldOK_def snapOK_def entryOK_def split: option.splits if_splits prod.splits)

text \<open>A step of one thread keeps the invariant of the others: the cell only gets new pointers.\<close>

lemma advance_others:
  assumes "worldOK w" "advance w t = (w', t')" "threadOK w u"
  shows "threadOK w' u"
proof -
  have w': "w' = w \<or> (\<exists>e. w' = w\<lparr>wCell := Some (wNext w, e), wNext := wNext w + 1\<rparr>)"
    using assms(2) by (cases t) (auto split: option.splits if_splits prod.splits)
  then show ?thesis
    using assms(3) by (cases u) (auto simp: snapOK_def)
qed

lemma interleaving_OK: "interleaving w ts \<Longrightarrow> worldOK w \<and> (\<forall>i. threadOK w (ts i))"
proof (induction rule: interleaving.induct)
  case start
  then show ?case by (simp add: worldOK_def newWorld_def)
next
  case (access w ts i w' t')
  then show ?case using advance_OK advance_others by (metis fun_upd_apply)
next
  case (use w ts mws)
  then show ?case by (simp add: worldOK_publish threadOK_publish)
next
  case (rebuild w ts)
  have "threadOK (clearEntry w) (ts i)" for i
    using rebuild.IH spec [of "\<lambda>i. threadOK w (ts i)" i] by (cases "ts i") (auto simp: clearEntry_def snapOK_def)
  moreover have "worldOK (clearEntry w)"
    using rebuild.IH by (auto simp: worldOK_def clearEntry_def snapOK_def)
  ultimately show ?case by blast
next
  case (request w ts i)
  then show ?case by simp
qed

section \<open>Publication moves forward\<close>

definition cellGen :: "'w world \<Rightarrow> nat option" where
  "cellGen w = map_option (\<lambda>(k, e). entryGen e) (wCell w)"

lemma advance_forward:
  assumes "threadOK w t" "advance w t = (w', t')" "cellGen w = Some g"
  shows "\<exists>g' \<ge> g. cellGen w' = Some g'"
proof (cases t)
  case (Comparing s cur)
  obtain k e where c: "wCell w = Some (k, e)" "g = entryGen e"
    using assms(3) by (auto simp: cellGen_def)
  show ?thesis
  proof (cases "cur = Some k")
    case True
    then have "entryGen e < snapGen s" using assms(1) Comparing c by simp
    then show ?thesis using assms(2) Comparing True c by (auto simp: cellGen_def)
  next
    case False
    then show ?thesis using assms(2,3) Comparing c by (auto simp: cellGen_def)
  qed
qed (use assms(2,3) in \<open>auto simp: cellGen_def\<close>)

section \<open>Without interference\<close>

fun solo :: "nat \<Rightarrow> 'w world \<times> 'w thread \<Rightarrow> 'w world \<times> 'w thread" where
  "solo 0 wt = wt"
| "solo (Suc n) (w, t) = solo n (advance w t)"

text \<open>The shared state a router's state gives, for the sequential function.\<close>

definition cellOf :: "'w world \<Rightarrow> 'w lazyRedirectEntry option" where
  "cellOf w = map_option snd (wCell w)"

lemma solo_returned [simp]: "solo n (w, Returned s h) = (w, Returned s h)"
  by (induction n) auto

text \<open>What the sequential function returns and leaves, for the present entry.\<close>

definition soloResult :: "'w world \<Rightarrow> 'w mwSnapshot \<Rightarrow> 'w handler option \<times> 'w lazyRedirectEntry option" where
  "soloResult w s =
     map_prod id lazyRedirectPtr (lazyRedirect s (newMux\<lparr>lazyRedirectPtr := cellOf w\<rparr>))"

definition returns :: "nat \<Rightarrow> 'w world \<Rightarrow> 'w thread \<Rightarrow> 'w mwSnapshot \<Rightarrow> bool" where
  "returns n w t s \<longleftrightarrow>
     (\<exists>w'. solo n (w, t) = (w', Returned s (fst (soloResult w s))) \<and> cellOf w' = snd (soloResult w s))"

lemma soloResult_eq:
  "soloResult w s =
     (let entry = \<lparr>entryGen = snapGen s, entryHandler = redirectHandler (snapMw s)\<rparr> in
      case cellOf w of
        None \<Rightarrow> (redirectHandler (snapMw s), Some entry)
      | Some e \<Rightarrow>
          if entryGen e = snapGen s then (entryHandler e, Some e)
          else if entryGen e > snapGen s then (redirectHandler (snapMw s), Some e)
          else (redirectHandler (snapMw s), Some entry))"
  by (simp add: soloResult_def lazyRedirect_def redirectHandler_def Let_def split: option.splits)

lemma solo_building: "returns (Suc (Suc n)) w (Building s) s"
  by (cases "wCell w") (auto simp: returns_def soloResult_eq cellOf_def Let_def)

lemma solo_loaded: "returns 3 w (Loaded s) s"
  by (cases "wCell w") (auto simp: numeral_3_eq_3 returns_def soloResult_eq cellOf_def Let_def)

text \<open>
  A request about to compare has seen an older entry or none, so its success is what the
  sequential function does with the entry that is still there.
\<close>

lemma solo_comparing:
  assumes "threadOK w (Comparing s cur)"
  shows "returns 3 w (Comparing s cur) s"
proof (cases "map_option fst (wCell w) = cur")
  case True
  then show ?thesis
    using assms by (cases "wCell w") (auto simp: numeral_3_eq_3 returns_def soloResult_eq cellOf_def Let_def)
next
  case False
  then show ?thesis
    using solo_building [of 0 w s] by (simp add: numeral_3_eq_3 returns_def)
qed

lemma solo_returns:
  assumes "threadOK w t" "t = Loaded s \<or> t = Building s \<or> t = Comparing s cur"
  shows "returns 3 w t s"
  using assms solo_loaded solo_building [of 1 w s] solo_comparing [of w s cur]
  by (auto simp: numeral_3_eq_3)

end
