(* ===== verification/RegistrationProperties.thy ===== *)
theory RegistrationProperties
  imports RequestProperties Group Introspection LazyRedirect
begin

text \<open>
  Properties of registration for several methods and through groups, of looking up and listing
  routes, and of the lock-free cache of the redirect handler.
\<close>

section \<open>Several methods\<close>

text \<open>The rows that registering a handler for methods adds.\<close>

definition rowsOf :: "string list \<Rightarrow> string \<Rightarrow> 'w handler option \<Rightarrow> 'w row list" where
  "rowsOf methods pattern h = map (\<lambda>meth. (the (methodIdx meth), pattern, h, None)) methods"

lemma forEach_handle:
  assumes "reach rc L m tbl" "forEach (\<lambda>meth. handle rc meth pattern h) methods m = (m', e)"
  shows "\<exists>k \<le> length methods.
    reach rc L m' (tbl @ rowsOf (take k methods) pattern (wrapMiddleware h (middleware m)))
    \<and> (e = None \<longleftrightarrow> k = length methods)"
  using assms
proof (induction methods arbitrary: m tbl)
  case Nil
  then show ?case by (simp add: rowsOf_def)
next
  case (Cons meth methods)
  obtain m1 e1 where h1: "handle rc meth pattern h m = (m1, e1)" by fastforce
  show ?case
  proof (cases e1)
    case None
    then obtain i where i: "methodIdx meth = Some i" using handle_idx h1 by blast
    note r1 = reachFrom.handled [OF Cons.prems(1) h1 [unfolded None] i]
    have "forEach (\<lambda>meth. handle rc meth pattern h) methods m1 = (m', e)"
      using Cons.prems(2) h1 None by simp
    then obtain k where k: "k \<le> length methods" "e = None \<longleftrightarrow> k = length methods"
      "reach rc L m' ((tbl @ [(i, pattern, wrapMiddleware h (middleware m), None)])
         @ rowsOf (take k methods) pattern (wrapMiddleware h (middleware m1)))"
      using Cons.IH [OF r1] by blast
    then show ?thesis
      using i handle_keeps_middleware(1) [OF h1] by (intro exI [of _ "Suc k"]) (simp add: rowsOf_def)
  next
    case (Some p)
    then have "m' = m1" "e = Some p" using Cons.prems(2) h1 by simp_all
    then show ?thesis
      using reachFrom.handle_refused [OF Cons.prems(1) h1 [unfolded Some]] by (intro exI [of _ 0]) (simp add: rowsOf_def)
  qed
qed

text \<open>
  Registering for several methods. \<open>Match\<close>, and with it \<open>ANY\<close>, adds the rows of the
  listed methods in their order, each with the router's middleware; when one of them is refused,
  the rows before it stay registered and none after it is, and it succeeds exactly when all are
  accepted; \<open>ANY\<close> is \<open>Match\<close> for the ten methods.
\<close>

theorem several_methods_add_their_rows:
  assumes "reach rc L m tbl" "matchMethods rc methods pattern h m = (m', e)"
  shows "(\<exists>k \<le> length methods.
      reach rc L m' (tbl @ rowsOf (take k methods) pattern (wrapMiddleware h (middleware m)))
      \<and> (e = None \<longleftrightarrow> k = length methods))
    \<and> ANY rc pattern f m = matchMethods rc
        [''GET'', ''HEAD'', ''POST'', ''PUT'', ''PATCH'', ''DELETE'', ''OPTIONS'', ''CONNECT'', ''TRACE'', ''QUERY'']
        pattern (Some (Func f)) m"
  using forEach_handle [OF assms(1)] assms(2)
  by (simp add: matchMethods_def ANY_def handleFunc_def [abs_def] anyMethods_def)

lemma several_methods_add_their_rows_witness:
  "\<exists>k \<le> 2. reach lettersOnly demoLibs
      (fst (matchMethods lettersOnly [''GET'', ''BREW''] ''/tea'' (Some (Func (Some showPath))) demo))
      (demoTable @ rowsOf (take k [''GET'', ''BREW'']) ''/tea'' (wrapMiddleware (Some (Func (Some showPath))) (middleware demo)))"
proof -
  have l: "length [''GET'', ''BREW''] = 2" by simp
  show ?thesis
    using several_methods_add_their_rows [OF demo_reach [of demoLibs]
        surjective_pairing [of "matchMethods lettersOnly [''GET'', ''BREW''] ''/tea'' (Some (Func (Some showPath))) demo"]]
    unfolding l by blast
qed

section \<open>Groups\<close>

text \<open>
  Nesting groups joins their prefixes. A group of a group is the group with the joined
  prefix; joining is associative with the empty prefix as unit, so any nesting of groups and
  paths registers the pattern that joining everything at once gives, whichever way the slashes
  at the boundaries fall; and the sub-group has the parent's middleware.
\<close>

theorem groups_nest:
  "subGroup b (subGroup a g) = subGroup (joinPrefix a b) g
    \<and> joinPrefix (gprefix (subGroup b (subGroup a g))) path = joinPrefix (gprefix g) (joinPrefix a (joinPrefix b path))
    \<and> joinPrefix [] path = path \<and> joinPrefix path [] = path
    \<and> gmiddleware (subGroup a g) = gmiddleware g \<and> gfastMiddleware (subGroup a g) = gfastMiddleware g"
  by (simp add: subGroup_subGroup joinPrefix_assoc) (simp add: subGroup_def joinPrefix_assoc)

text \<open>
  C20. A group registers on the router. For a handler, registering on a group is registering the
  joined pattern on a router that has the group's middleware behind its own: the same outcome,
  the same trees; in a reachable state an accepted registration adds the row whose handler runs
  through the router's middleware and then the group's.
\<close>

theorem group_registers_on_router:
  assumes "h \<noteq> None" "reach rc L m tbl" "groupHandle rc meth path h g m = (m', e)"
  shows "handle rc meth (joinPrefix (gprefix g) path) h (m\<lparr>middleware := middleware m @ gmiddleware g\<rparr>)
      = (m'\<lparr>middleware := middleware m @ gmiddleware g\<rparr>, e)
    \<and> (case e of
         None \<Rightarrow> \<exists>i. methodIdx meth = Some i
           \<and> reach rc L m' (tbl @ [(i, joinPrefix (gprefix g) path,
                                   wrapMiddleware h (middleware m @ gmiddleware g), None)])
       | Some p \<Rightarrow> reach rc L m' tbl)"
proof -
  have hd: "handle rc meth (joinPrefix (gprefix g) path) (wrapMiddleware h (gmiddleware g)) m = (m', e)"
    using assms(3) by (simp add: groupHandle_def)
  have "case e of
      None \<Rightarrow> \<exists>i. methodIdx meth = Some i
        \<and> reach rc L m' (tbl @ [(i, joinPrefix (gprefix g) path, wrapMiddleware h (middleware m @ gmiddleware g), None)])
    | Some p \<Rightarrow> reach rc L m' tbl"
  proof (cases e)
    case None
    then obtain i where i: "methodIdx meth = Some i" using handle_idx hd by blast
    then show ?thesis
      using reachFrom.handled [OF assms(2) hd [unfolded None] i] None by (simp add: wrapMiddleware_append)
  next
    case (Some p)
    then show ?thesis using reachFrom.handle_refused [OF assms(2) hd [unfolded Some]] by simp
  qed
  then show ?thesis using groupHandle_is_handle [OF assms(1), of rc meth g path m] assms(3) by simp
qed

lemma group_registers_on_router_witness:
  "handle lettersOnly ''GET'' ''/v1/x'' (Some (Func (Some showPath)))
      (demo\<lparr>middleware := middleware demo @ [tracing ''g'']\<rparr>)
    = map_prod (\<lambda>m'. m'\<lparr>middleware := middleware demo @ [tracing ''g'']\<rparr>) id
        (groupHandle lettersOnly ''GET'' ''/x'' (Some (Func (Some showPath)))
          (groupUse [tracing ''g''] (muxGroup ''/v1/'')) demo)"
proof -
  let ?g = "groupUse [tracing ''g''] (muxGroup ''/v1/'')"
  have g: "joinPrefix (gprefix ?g) ''/x'' = ''/v1/x''" "gmiddleware ?g = [tracing ''g'']"
    by (simp_all add: groupUse_def muxGroup_def joinPrefix_def)
  obtain m' e where r: "groupHandle lettersOnly ''GET'' ''/x'' (Some (Func (Some showPath))) ?g demo = (m', e)"
    by fastforce
  show ?thesis
    using group_registers_on_router [OF _ demo_reach [of demoLibs] r] unfolding g r by simp
qed

section \<open>Introspection\<close>

text \<open>
  Listing is the routing table. In a reachable state with a covered table, \<open>Routes\<close> lists
  each pattern of each row, with its method and the name of its handler, once and nothing else.
\<close>

theorem routes_list_the_table:
  assumes "reach rc L m tbl" "tableOK tbl"
  shows "mset (routes handlerName fastHandlerName m)
    = (\<Sum>i \<leftarrow> [0..<methodCount].
         mset (map (\<lambda>(q, h, f, p). infoOf handlerName fastHandlerName (methodNames ! i, p, h, f))
           (registered (rowsFor i tbl))))"
proof -
  let ?info = "infoOf handlerName fastHandlerName"
  have s: "image_mset g (sum_list (map F xs)) = sum_list (map (\<lambda>i. image_mset g (F i)) xs)" for g F and xs :: "nat list"
    by (induction xs) simp_all
  have "mset (routes handlerName fastHandlerName m) = image_mset ?info (mset (leavesOf m))"
    by (simp add: routes_def)
  also have "\<dots> = (\<Sum>i \<leftarrow> [0..<methodCount].
      image_mset ?info (mset (map (\<lambda>(q, h, f, p). (methodNames ! i, p, h, f)) (registered (rowsFor i tbl)))))"
    using leavesOf_rows [OF reach_routed [OF assms(1)]] assms(2) by (simp only: tableOK_def s)
  finally show ?thesis by (simp add: multiset.map_comp comp_def case_prod_unfold del: infoOf.simps)
qed

lemma routes_list_the_table_witness:
  "mset (routes (\<lambda>h. ''h'') (\<lambda>f. ''f'') demo)
    = (\<Sum>i \<leftarrow> [0..<methodCount].
         mset (map (\<lambda>(q, h, f, p). infoOf (\<lambda>h. ''h'') (\<lambda>f. ''f'') (methodNames ! i, p, h, f))
           (registered (rowsFor i demoTable))))"
  by (rule routes_list_the_table [OF demo_reach [of demoLibs] demo_table])

text \<open>
  Walking visits the listed routes up to the first error. Whatever the visited function
  does and keeps, \<open>Walk\<close> calls it for the routes with a handler and \<open>WalkFast\<close> for the fast
  routes, in the order of the listing, stops calling it after its first error and returns that.
\<close>

theorem walking_visits_until_error:
  "walkRoutes fn m s
      = visitUntil fn [(meth, p, v). (meth, p, h, f) \<leftarrow> leavesOf m, v \<leftarrow> (case h of None \<Rightarrow> [] | Some v \<Rightarrow> [v])] s
    \<and> walkFast fn' m s'
      = visitUntil fn' [(meth, p, v). (meth, p, h, f) \<leftarrow> leavesOf m, v \<leftarrow> (case f of None \<Rightarrow> [] | Some v \<Rightarrow> [v])] s'"
proof -
  have s: "selected sel ls = concat (map (\<lambda>(meth, p, l). map (\<lambda>v. (meth, p, v)) (case sel l of None \<Rightarrow> [] | Some v \<Rightarrow> [v])) ls)"
    for sel :: "'l \<Rightarrow> 'v option" and ls
    unfolding selected_def by (rule arg_cong [where f = concat]) (auto split: option.splits)
  show ?thesis
    by (simp add: walkRoutes_until walkFast_until s case_prod_unfold)
qed

text \<open>
  C21. Looking up agrees with the table. In a reachable state whose table is \<open>tableOK\<close> (a regex
  token only ends its pattern), and for a path that starts with a slash, \<open>Lookup\<close> never panics and
  returns the handler and a copy of the captured parameters of the preferred matching row of the
  method (no handler for a fast row), and not found exactly where no row of the method matches.
\<close>

theorem lookup_agrees_with_table:
  assumes "reach rc L m tbl" "tableOK tbl" "path \<noteq> []" "hd path = CHR ''/''"
  shows "if matchesMethod rc tbl meth path
    then \<exists>i p h f ps. methodIdx meth = Some i \<and> bestIn rc tbl i path p h f ps \<and> lookupRoute m meth path = Inr (h, ps, True)
    else lookupRoute m meth path = Inr (None, [], False)"
proof (cases "methodIdx meth")
  case None
  then show ?thesis using assms(3,4) by (simp add: lookupRoute_def matchesMethod_def split: option.splits)
next
  case (Some i)
  note R = reach_routed [OF assms(1)]
  note il = methodIdx_less [OF Some]
  show ?thesis
  proof (cases "treeOf m i")
    case None
    then show ?thesis
      using no_tree_no_match [OF R il None, of path] assms(3,4) Some
      by (auto simp: lookupRoute_def matchesMethod_def treeOf_def split: option.splits)
  next
    case n: (Some n)
    obtain res pb where l: "getValue n path (Some emptyBuf) False = Inr (res, Some pb)"
      "found res \<longrightarrow> bestIn rc tbl i path (opattern res) (ohandler res) (ofast res) (bufParams pb)"
      "found res = matchesIn rc tbl i path"
      using lookup_row [OF R assms(2) il n assms(3,4)] by blast
    have b: "bufOK pb" using getValue_good(1) l(1) by blast
    have ps: "(if pcount pb > 0 then copyInto (replicate (pcount pb) (mkParam [] [])) (bufParams pb) else []) = bufParams pb"
      using bufParams_shape(1) [OF b] by auto
    have "lookupRoute m meth path = Inr (if found res then (ohandler res, bufParams pb, True) else (None, [], False))"
      using assms(3,4) Some n ps by (auto simp: lookupRoute_def treeOf_def l(1) Let_def split: option.splits)
    then show ?thesis using l(2,3) Some by (auto simp: matchesMethod_def)
  qed
qed

lemma lookup_agrees_with_table_witness:
  "\<exists>i p h f ps. methodIdx ''GET'' = Some i \<and> bestIn lettersOnly demoTable i ''/users/7'' p h f ps
     \<and> lookupRoute demo ''GET'' ''/users/7'' = Inr (h, ps, True)"
  using lookup_agrees_with_table [OF demo_reach [of demoLibs] demo_table, of "''/users/7''" "''GET''"] demo_matches by simp

section \<open>The redirect handler under concurrency\<close>

text \<open>
  C22. The cached redirect handler is the right one. In every interleaving of any number of
  requests with \<open>Use\<close> and \<open>Rebuild\<close>, at the granularity of single loads and compare-and-swaps,
  a request that returns from \<open>lazyRedirect\<close> has the handler wrapped by exactly the middleware of
  the snapshot it loaded, which is the list of the router's middleware at that generation: no
  request is served through fewer middleware than its snapshot had, however late it publishes.
\<close>

theorem redirect_handler_is_its_snapshots:
  assumes "interleaving w ts" "ts i = Returned s h"
  shows "h = wrapMiddleware (Some RedirectFunc) (snapMw s) \<and> snapGen s \<le> wGen w \<and> snapMw s = wHist w ! snapGen s"
proof -
  have "threadOK w (ts i)" using interleaving_OK [OF assms(1)] by blast
  then show ?thesis using assms(2) by (simp add: snapOK_def redirectHandler_def)
qed

text \<open>A request that loads the first snapshot and publishes after a second \<open>Use\<close>.\<close>

definition raceWorld :: "nat world" where
  "raceWorld = publishMiddleware [tracing ''b''] (publishMiddleware [tracing ''a''] newWorld)"

definition raceSnap :: "nat mwSnapshot" where
  "raceSnap = \<lparr>snapGen = 1, snapMw = [tracing ''a'']\<rparr>"

lemma race_reached: "interleaving raceWorld ((\<lambda>i. Idle)(0 := Loaded raceSnap))"
proof -
  have a: "advance (publishMiddleware [tracing ''a''] newWorld) ((\<lambda>i :: nat. Idle) 0)
      = (publishMiddleware [tracing ''a''] newWorld, Loaded raceSnap)"
    by (simp add: publishMiddleware_def newWorld_def raceSnap_def)
  show ?thesis
    unfolding raceWorld_def
    by (rule interleaving.use [OF interleaving.access [OF interleaving.use [OF interleaving.start] a]])
qed

lemma race_steps:
  "interleaving (fst (advance raceWorld (Comparing raceSnap None)))
     ((\<lambda>i. Idle)(0 := Returned raceSnap (redirectHandler [tracing ''a''])))"
proof -
  have c: "wCell raceWorld = None" by (simp add: raceWorld_def publishMiddleware_def newWorld_def)
  have 1: "interleaving raceWorld ((\<lambda>i. Idle)(0 := Building raceSnap))"
    using interleaving.access [OF race_reached, of 0 raceWorld "Building raceSnap"] c by simp
  have 2: "interleaving raceWorld ((\<lambda>i. Idle)(0 := Comparing raceSnap None))"
    using interleaving.access [OF 1, of 0 raceWorld "Comparing raceSnap None"] c by simp
  show ?thesis
    using interleaving.access [OF 2, of 0] c by (simp add: raceSnap_def)
qed

lemma redirect_handler_is_its_snapshots_witness:
  "redirectHandler [tracing ''a''] = wrapMiddleware (Some RedirectFunc) (snapMw raceSnap)"
  using redirect_handler_is_its_snapshots [OF race_steps, of 0 raceSnap "redirectHandler [tracing ''a'']"] by simp

text \<open>
  The cache never goes back. A step of any request keeps the generation of the cached entry
  or replaces it by a newer one, so a request that started with an older snapshot cannot
  overwrite a newer entry; only \<open>Rebuild\<close> empties the cache.
\<close>

theorem redirect_cache_moves_forward:
  assumes "interleaving w ts" "advance w (ts i) = (w', t')" "wCell w = Some (k, e)"
  shows "\<exists>k' e'. wCell w' = Some (k', e') \<and> entryGen e \<le> entryGen e'
    \<and> (entryGen e' = entryGen e \<longrightarrow> entryHandler e' = entryHandler e)"
proof -
  have OK: "worldOK w" "threadOK w (ts i)" using interleaving_OK [OF assms(1)] by blast+
  have OK': "worldOK w'" using advance_OK [OF OK assms(2)] by blast
  obtain g where "g \<ge> entryGen e" "cellGen w' = Some g"
    using advance_forward [OF OK(2) assms(2)] assms(3) by (force simp: cellGen_def)
  then obtain k' e' where c: "wCell w' = Some (k', e')" "entryGen e \<le> entryGen e'"
    by (auto simp: cellGen_def)
  have "wHist w' = wHist w" using assms(2) by (cases "ts i") (auto split: option.splits if_splits prod.splits)
  then have "entryGen e' = entryGen e \<longrightarrow> entryHandler e' = entryHandler e"
    using OK(1) OK' c(1) assms(3) by (auto simp: worldOK_def entryOK_def)
  then show ?thesis using c by blast
qed

lemma redirect_cache_moves_forward_witness:
  "\<exists>k' e'. wCell (fst (advance raceWorld (Comparing raceSnap None))) = Some (k', e') \<and> 1 \<le> entryGen e'"
proof -
  let ?w = "fst (advance raceWorld (Comparing raceSnap None))"
  have c: "wCell ?w = Some (0, \<lparr>entryGen = 1, entryHandler = redirectHandler [tracing ''a'']\<rparr>)"
    by (simp add: raceWorld_def raceSnap_def publishMiddleware_def newWorld_def)
  have "advance ?w (((\<lambda>i. Idle)(0 := Returned raceSnap (redirectHandler [tracing ''a'']))) (0 :: nat))
      = (?w, Returned raceSnap (redirectHandler [tracing ''a'']))" by simp
  from redirect_cache_moves_forward [OF race_steps this c] show ?thesis by (auto simp del: advance.simps)
qed

text \<open>
  C23. The publication loop ends with the sequential result. In every interleaving, from every
  point a request can be at in \<open>lazyRedirect\<close> (before its first load, before the load of the
  loop, before the compare-and-swap), when it then runs without interference it returns within
  three accesses the handler that the sequential function returns for its snapshot and the
  entry cached at that point, and leaves the entry that function leaves.
\<close>

theorem redirect_publication_ends:
  assumes "interleaving w ts" "ts i = Loaded s \<or> ts i = Building s \<or> ts i = Comparing s cur"
  shows "\<exists>w'. solo 3 (w, ts i) = (w', Returned s (fst (lazyRedirect s (newMux\<lparr>lazyRedirectPtr := cellOf w\<rparr>))))
    \<and> cellOf w' = lazyRedirectPtr (snd (lazyRedirect s (newMux\<lparr>lazyRedirectPtr := cellOf w\<rparr>)))"
proof -
  have "threadOK w (ts i)" using interleaving_OK [OF assms(1)] by blast
  from solo_returns [OF this assms(2)] show ?thesis by (simp add: returns_def soloResult_def)
qed

lemma redirect_publication_ends_witness:
  "\<exists>w'. solo 3 (raceWorld, Loaded raceSnap) = (w', Returned raceSnap (redirectHandler [tracing ''a'']))"
proof -
  have c: "cellOf raceWorld = None" by (simp add: raceWorld_def publishMiddleware_def newWorld_def cellOf_def)
  have "fst (lazyRedirect raceSnap (newMux\<lparr>lazyRedirectPtr := None\<rparr>)) = redirectHandler [tracing ''a'']"
    by (simp add: lazyRedirect_def raceSnap_def redirectHandler_def Let_def)
  then show ?thesis
    using redirect_publication_ends [OF race_reached, of 0 raceSnap None] c by auto
qed

end
