(* ===== verification/Threads.thy ===== *)
theory Threads
  imports MuxPrelude
begin

text \<open>
  What the interleaving models share: the threads of a system are a list of program points, and
  their invariants count the threads at points of a kind.
\<close>

definition countIf :: "('a \<Rightarrow> bool) \<Rightarrow> 'a list \<Rightarrow> nat" where
  "countIf P ts = length (filter P ts)"

lemma countIf_simps [simp]:
  "countIf P [] = 0" "countIf P (xs @ ys) = countIf P xs + countIf P ys"
  "countIf P (x # xs) = (if P x then 1 else 0) + countIf P xs"
  by (simp_all add: countIf_def)

lemma countIf_update:
  "i < length ts \<Longrightarrow>
     countIf P (ts[i := x]) + (if P (ts ! i) then 1 else 0) = countIf P ts + (if P x then 1 else 0)"
proof (induction ts arbitrary: i)
  case (Cons t ts)
  show ?case using Cons.prems Cons.IH [of "i - 1"] by (cases i) auto
qed simp

lemma countIf_mono: "(\<And>x. P x \<Longrightarrow> Q x) \<Longrightarrow> countIf P ts \<le> countIf Q ts"
  by (induction ts) auto

lemma countIf_pos: "i < length ts \<Longrightarrow> P (ts ! i) \<Longrightarrow> countIf P ts > 0"
  by (induction ts arbitrary: i) (auto simp: nth_Cons split: nat.splits)

lemma countIf_zero: "countIf P ts = 0 \<longleftrightarrow> (\<forall>x \<in> set ts. \<not> P x)"
  by (induction ts) auto

lemma countIf_cong: "(\<And>x. x \<in> set ts \<Longrightarrow> P x = Q x) \<Longrightarrow> countIf P ts = countIf Q ts"
  by (induction ts) auto

text \<open>Counting is counting indices; a predicate at most one thread satisfies excludes the others.\<close>

lemma countIf_unique:
  assumes "countIf P ts \<le> 1" "i < length ts" "j < length ts" "i \<noteq> j" "P (ts ! i)"
  shows "\<not> P (ts ! j)"
proof
  assume "P (ts ! j)"
  then have "{i, j} \<subseteq> {k. k < length ts \<and> P (ts ! k)}" using assms(2,3,5) by auto
  then have "card {i, j} \<le> countIf P ts"
    using card_mono [of "{k. k < length ts \<and> P (ts ! k)}" "{i, j}"] by (simp add: countIf_def length_filter_conv_card)
  then show False using assms(1,4) by simp
qed

lemma nth_update_at: "a < length xs \<Longrightarrow> xs[b := x] ! a = (if b = a then x else xs ! a)"
  by (cases "b < length xs") (simp_all add: nth_list_update)

lemma in_set_update:
  "i < length ts \<Longrightarrow> q \<in> set (ts[i := p]) \<longleftrightarrow> q = p \<or> (\<exists>j < length ts. j \<noteq> i \<and> q = ts ! j)"
  by (auto simp: in_set_conv_nth nth_list_update)

lemma countIf_none: "(\<And>x. x \<in> set ts \<Longrightarrow> \<not> P x) \<Longrightarrow> countIf P ts = 0"
  by (simp add: countIf_zero)

lemma countIf_take_drop:
  "i < length xs \<Longrightarrow> countIf P (take i xs @ drop (Suc i) xs) + (if P (xs ! i) then 1 else 0) = countIf P xs"
  by (subst (3) id_take_nth_drop [of i xs]) auto

end
