(* ===== verification/Throttle.thy ===== *)
theory Throttle
  imports Handlers Threads
begin

text \<open>
  The global throttle (middleware/throttle.go, \<open>throttleSem\<close> and \<open>ThrottleBacklog\<close>): a counting
  semaphore with a compare-and-swap fast path and a bounded backlog of waiters, as an
  interleaving of single atomic accesses and channel operations of any number of requests.
\<close>

section \<open>The semaphore\<close>

text \<open>A channel of empty structs is the number of values it holds, with its capacity.\<close>

record throttleSem =
  inUse :: int
  limit :: int
  queueLen :: nat
  queueCap :: nat
  wakeLen :: nat
  wakeCap :: nat

definition newThrottleSem :: "int \<Rightarrow> nat \<Rightarrow> throttleSem" where
  "newThrottleSem lim backlog =
     \<lparr>inUse = 0, limit = lim, queueLen = 0, queueCap = backlog, wakeLen = 0, wakeCap = backlog\<rparr>"

text \<open>The construction of the middleware, with its two panics.\<close>

definition throttleBacklog :: "int \<Rightarrow> int \<Rightarrow> goPanic + throttleSem" where
  "throttleBacklog lim backlog =
     (if lim \<le> 0 then Inl (BadConfig ''middleware: ThrottleBacklog limit must be > 0'')
      else if backlog < 0 then Inl (BadConfig ''middleware: ThrottleBacklog backlog must be >= 0'')
      else Inr (newThrottleSem lim (nat backlog)))"

definition throttleAllBacklog :: "int \<Rightarrow> int \<Rightarrow> goPanic + throttleSem" where
  "throttleAllBacklog lim backlog = throttleBacklog lim backlog"

section \<open>Requests\<close>

text \<open>
  Where a request stands: in the loop of its first \<open>tryAcquire\<close> (before the load, or with the
  loaded value before the swap), before the send to \<open>queue\<close>, in the loop of \<open>acquireWait\<close>, blocked
  in its \<open>select\<close>, before the deferred receive from \<open>queue\<close> with the result, in the handler, and
  before the two operations of \<open>release\<close>. The flag of \<open>Trying\<close> and \<open>SlowLoaded\<close> says whether a
  signal brought the request there; no step reads it.
\<close>

datatype phase =
    Arrived
  | FastLoaded int
  | Enqueueing
  | Trying bool
  | SlowLoaded bool int
  | Selecting
  | Leaving bool
  | InHandler
  | Releasing
  | Waking
  | Done
  | Rejected

text \<open>
  \<open>Go\<close> is the request's own next operation, \<open>Expire\<close> its timer. A handler may end at any time,
  by returning or panicking: the release is deferred. None is a blocked operation.
\<close>

datatype event = Go | Expire

fun step :: "event \<Rightarrow> throttleSem \<Rightarrow> phase \<Rightarrow> (throttleSem \<times> phase) option" where
  "step Go s Arrived =
     Some (s, if inUse s \<ge> limit s then Enqueueing else FastLoaded (inUse s))"
| "step Go s (FastLoaded cur) =
     Some (if inUse s = cur then (s\<lparr>inUse := cur + 1\<rparr>, InHandler) else (s, Arrived))"
| "step Go s Enqueueing =
     Some (if queueLen s < queueCap s then (s\<lparr>queueLen := queueLen s + 1\<rparr>, Trying False)
           else (s, Rejected))"
| "step Go s (Trying woken) =
     Some (s, if inUse s \<ge> limit s then Selecting else SlowLoaded woken (inUse s))"
| "step Go s (SlowLoaded woken cur) =
     Some (if inUse s = cur then (s\<lparr>inUse := cur + 1\<rparr>, Leaving True) else (s, Trying woken))"
| "step Go s Selecting =
     (if wakeLen s > 0 then Some (s\<lparr>wakeLen := wakeLen s - 1\<rparr>, Trying True) else None)"
| "step Expire s Selecting = Some (s, Leaving False)"
| "step Go s (Leaving acquired) =
     (if queueLen s > 0
      then Some (s\<lparr>queueLen := queueLen s - 1\<rparr>, if acquired then InHandler else Rejected)
      else None)"
| "step Go s InHandler = Some (s, Releasing)"
| "step Go s Releasing = Some (s\<lparr>inUse := inUse s - 1\<rparr>, Waking)"
| "step Go s Waking =
     Some (if wakeLen s < wakeCap s then s\<lparr>wakeLen := wakeLen s + 1\<rparr> else s, Done)"
| "step e s ph = None"

text \<open>What the client of a request gets that ends in \<open>Done\<close> or \<open>Rejected\<close>.\<close>

definition throttleAnswer :: "phase \<Rightarrow> 'w middleware" where
  "throttleAnswer ph next r w =
     (if ph = Rejected then ok (httpError (statusText 503) 503 w) else next r w)"

inductive throttling :: "int \<Rightarrow> int \<Rightarrow> throttleSem \<Rightarrow> phase list \<Rightarrow> bool" for lim backlog where
  built: "throttleBacklog lim backlog = Inr s \<Longrightarrow> throttling lim backlog s []"
| arrive: "throttling lim backlog s ts \<Longrightarrow> throttling lim backlog s (ts @ [Arrived])"
| move: "throttling lim backlog s ts \<Longrightarrow> i < length ts \<Longrightarrow> step e s (ts ! i) = Some (s', ph)
    \<Longrightarrow> throttling lim backlog s' (ts[i := ph])"

section \<open>Counting requests\<close>

text \<open>Who holds a permit, who is in the backlog, who was woken, who will wake another.\<close>

fun holds :: "phase \<Rightarrow> bool" where
  "holds (Leaving acquired) = acquired"
| "holds ph = (ph = InHandler \<or> ph = Releasing)"

fun waits :: "phase \<Rightarrow> bool" where
  "waits (Trying woken) = True"
| "waits (SlowLoaded woken cur) = True"
| "waits (Leaving acquired) = True"
| "waits ph = (ph = Selecting)"

fun awake :: "phase \<Rightarrow> bool" where
  "awake (Trying woken) = woken"
| "awake (SlowLoaded woken cur) = woken"
| "awake ph = (ph = Waking)"

fun loadedOK :: "int \<Rightarrow> phase \<Rightarrow> bool" where
  "loadedOK lim (FastLoaded cur) = (cur < lim)"
| "loadedOK lim (SlowLoaded woken cur) = (cur < lim)"
| "loadedOK lim ph = True"

section \<open>The invariant\<close>

text \<open>
  The counters are exact, a loaded value is below the limit, and no wake-up is lost: if a request
  is blocked, every free permit is matched by a signal in the channel, by a request that took
  one, or by a release about to send one; or there is a signal for each blocked request.
\<close>

definition accounted :: "throttleSem \<Rightarrow> phase list \<Rightarrow> bool" where
  "accounted s ts \<longleftrightarrow>
     wakeCap s = queueCap s \<and> wakeLen s \<le> wakeCap s
     \<and> inUse s = int (countIf holds ts) \<and> inUse s \<le> limit s
     \<and> queueLen s = countIf waits ts \<and> queueLen s \<le> queueCap s"

definition belowLimit :: "throttleSem \<Rightarrow> phase list \<Rightarrow> bool" where
  "belowLimit s ts \<longleftrightarrow> list_all (loadedOK (limit s)) ts"

definition signalled :: "throttleSem \<Rightarrow> phase list \<Rightarrow> bool" where
  "signalled s ts \<longleftrightarrow>
     limit s - inUse s \<le> int (wakeLen s + countIf awake ts)
     \<or> countIf (\<lambda>ph. ph = Selecting) ts \<le> wakeLen s"

definition semOK :: "throttleSem \<Rightarrow> phase list \<Rightarrow> bool" where
  "semOK s ts \<longleftrightarrow> accounted s ts \<and> belowLimit s ts \<and> signalled s ts"

lemma step_constants: "step e s ph = Some (s', ph') \<Longrightarrow> limit s' = limit s \<and> queueCap s' = queueCap s"
  by (cases "(e, s, ph)" rule: step.cases) (auto split: if_splits)

lemma belowLimit_move:
  assumes "belowLimit s ts" "i < length ts" "step e s (ts ! i) = Some (s', ph)"
  shows "belowLimit s' (ts[i := ph])"
proof -
  have "loadedOK (limit s) ph"
    using assms(3) by (cases "(e, s, ts ! i)" rule: step.cases) (auto split: if_splits)
  then show ?thesis
    using assms step_constants [OF assms(3)] by (auto simp: belowLimit_def list_all_length nth_list_update)
qed

lemma accounted_move:
  assumes "accounted s ts" "belowLimit s ts" "i < length ts" "step e s (ts ! i) = Some (s', ph)"
  shows "accounted s' (ts[i := ph])"
proof -
  have l: "loadedOK (limit s) (ts ! i)" using assms(2,3) by (simp add: belowLimit_def list_all_length)
  show ?thesis
    using assms(1,4) l countIf_update [OF assms(3), of holds ph] countIf_update [OF assms(3), of waits ph]
    by (cases "(e, s, ts ! i)" rule: step.cases) (auto simp: accounted_def split: if_splits)
qed

lemma signalled_move:
  assumes "accounted s ts" "signalled s ts" "i < length ts" "step e s (ts ! i) = Some (s', ph)"
  shows "signalled s' (ts[i := ph])"
proof -
  have sel: "countIf (\<lambda>ph. ph = Selecting) ts \<le> countIf waits ts" by (rule countIf_mono) auto
  have a: "inUse s \<le> limit s" "wakeLen s = wakeCap s \<Longrightarrow> countIf (\<lambda>ph. ph = Selecting) ts \<le> wakeLen s"
    "wakeLen s \<le> wakeCap s"
    using assms(1) sel by (auto simp: accounted_def)
  show ?thesis
    using assms(2,4) a countIf_update [OF assms(3), of awake ph] countIf_update [OF assms(3), of "\<lambda>ph. ph = Selecting" ph]
    unfolding signalled_def
    by (cases "(e, s, ts ! i)" rule: step.cases) (auto split: if_splits)
qed

lemma semOK_move:
  "semOK s ts \<Longrightarrow> i < length ts \<Longrightarrow> step e s (ts ! i) = Some (s', ph) \<Longrightarrow> semOK s' (ts[i := ph])"
  unfolding semOK_def using accounted_move belowLimit_move signalled_move by blast

lemma throttling_OK:
  "throttling lim backlog s ts \<Longrightarrow>
     semOK s ts \<and> limit s = lim \<and> queueCap s = nat backlog \<and> lim > 0 \<and> backlog \<ge> 0"
proof (induction rule: throttling.induct)
  case (built s)
  then show ?case
    by (auto simp: throttleBacklog_def newThrottleSem_def semOK_def accounted_def belowLimit_def signalled_def
        split: if_splits)
next
  case (arrive s ts)
  then show ?case by (auto simp: semOK_def accounted_def belowLimit_def signalled_def)
next
  case (move s ts i e s' ph)
  then show ?case using semOK_move step_constants by metis
qed

section \<open>Settling\<close>

text \<open>
  An internal step is one that needs neither a new request nor the end of a handler nor a timer.
\<close>

inductive internal :: "throttleSem \<times> phase list \<Rightarrow> throttleSem \<times> phase list \<Rightarrow> bool" where
  "i < length ts \<Longrightarrow> ts ! i \<noteq> InHandler \<Longrightarrow> step Go s (ts ! i) = Some (s', ph)
    \<Longrightarrow> internal (s, ts) (s', ts[i := ph])"

text \<open>
  A failed swap means that another request changed the counter, so the measure is: the changes
  of the counter that can still happen, the signals that can still be taken, and what is left of
  each loop, where a stale loaded value costs one more round.
\<close>

fun changes :: "phase \<Rightarrow> bool" where
  "changes (Leaving acquired) = False"
| "changes ph = (ph \<notin> {InHandler, Waking, Done, Rejected})"

fun rank :: "int \<Rightarrow> phase \<Rightarrow> nat" where
  "rank n Arrived = 4"
| "rank n (FastLoaded cur) = (if cur = n then 1 else 5)"
| "rank n Enqueueing = 3"
| "rank n (Trying woken) = 2"
| "rank n (SlowLoaded woken cur) = (if cur = n then 1 else 3)"
| "rank n (Leaving acquired) = 1"
| "rank n Waking = 1"
| "rank n ph = 0"

definition ranks :: "throttleSem \<Rightarrow> phase list \<Rightarrow> nat" where
  "ranks s ts = sum_list (map (rank (inUse s)) ts)"

definition settleMeasure :: "((throttleSem \<times> phase list) \<times> throttleSem \<times> phase list) set" where
  "settleMeasure = inv_image (less_than <*lex*> less_than <*lex*> less_than)
     (\<lambda>(s, ts). (countIf changes ts, wakeLen s + countIf (\<lambda>ph. ph = Waking) ts, ranks s ts))"

lemma ranks_update:
  assumes "i < length ts" "rank (inUse s) ph < rank (inUse s) (ts ! i)"
  shows "ranks s (ts[i := ph]) < ranks s ts"
proof -
  have s: "sum_list (map f (ts[i := ph])) + f (ts ! i) = sum_list (map f ts) + f ph" for f :: "phase \<Rightarrow> nat"
    using assms(1) by (induction ts arbitrary: i) (auto simp: nth_Cons split: nat.splits)
  show ?thesis using s [of "rank (inUse s)"] assms(2) by (simp add: ranks_def)
qed

definition signals :: "phase \<Rightarrow> nat" where
  "signals ph = (if ph = Waking then 1 else 0)"

lemma step_progress:
  assumes "step Go s ph = Some (s', ph')" "ph \<noteq> InHandler"
  shows "changes ph \<and> \<not> changes ph'
    \<or> changes ph' = changes ph \<and> inUse s' = inUse s
      \<and> (wakeLen s' + signals ph' < wakeLen s + signals ph
         \<or> wakeLen s' + signals ph' = wakeLen s + signals ph \<and> rank (inUse s) ph' < rank (inUse s) ph)"
  using assms by (cases "(Go, s, ph)" rule: step.cases) (auto simp: signals_def split: if_splits)

lemma internal_decreases: "internal x y \<Longrightarrow> (y, x) \<in> settleMeasure"
proof (induction rule: internal.induct)
  case (1 i ts s s' ph)
  have c: "countIf changes (ts[i := ph]) + (if changes (ts ! i) then 1 else 0)
      = countIf changes ts + (if changes ph then 1 else 0)"
    and w: "countIf (\<lambda>ph. ph = Waking) (ts[i := ph]) + signals (ts ! i)
      = countIf (\<lambda>ph. ph = Waking) ts + signals ph"
    using countIf_update [OF 1(1), of changes ph] countIf_update [OF 1(1), of "\<lambda>ph. ph = Waking" ph]
    by (simp_all add: signals_def)
  have r: "inUse s' = inUse s \<Longrightarrow> rank (inUse s) ph < rank (inUse s) (ts ! i) \<Longrightarrow> ranks s' (ts[i := ph]) < ranks s ts"
    using ranks_update [OF 1(1), of s ph] by (simp add: ranks_def)
  have lex: "(y, x) \<in> settleMeasure \<longleftrightarrow>
      countIf changes (snd y) < countIf changes (snd x)
      \<or> countIf changes (snd y) = countIf changes (snd x)
        \<and> (wakeLen (fst y) + countIf (\<lambda>ph. ph = Waking) (snd y) < wakeLen (fst x) + countIf (\<lambda>ph. ph = Waking) (snd x)
           \<or> wakeLen (fst y) + countIf (\<lambda>ph. ph = Waking) (snd y) = wakeLen (fst x) + countIf (\<lambda>ph. ph = Waking) (snd x)
             \<and> ranks (fst y) (snd y) < ranks (fst x) (snd x))" for x y
    by (cases x; cases y) (simp add: settleMeasure_def)
  show ?case
    using step_progress [OF 1(3,2)] c w r unfolding lex fst_conv snd_conv by (elim disjE conjE) auto
qed

lemma settles: "wf {(y, x). internal x y}"
proof -
  have "wf settleMeasure" unfolding settleMeasure_def by (intro wf_inv_image wf_lex_prod wf_less_than)
  then show ?thesis by (rule wf_subset) (auto intro: internal_decreases)
qed

text \<open>Where no internal step is left, no request waits in vain.\<close>

lemma settled_phase:
  assumes "semOK s ts" "\<forall>y. \<not> internal (s, ts) y" "i < length ts"
  shows "ts ! i \<in> {InHandler, Selecting, Done, Rejected}" "ts ! i = Selecting \<Longrightarrow> wakeLen s = 0"
proof -
  have "step Go s (ts ! i) = None \<or> ts ! i = InHandler"
    using assms(2,3) internal.intros by (metis option.exhaust surj_pair)
  moreover have "ts ! i = Leaving b \<Longrightarrow> queueLen s > 0" for b
    using assms(1,3) countIf_pos [of i ts waits] by (simp add: semOK_def accounted_def)
  ultimately show "ts ! i \<in> {InHandler, Selecting, Done, Rejected}" "ts ! i = Selecting \<Longrightarrow> wakeLen s = 0"
    by (cases "ts ! i"; auto split: if_splits)+
qed

lemma settled_busy:
  assumes "semOK s ts" "\<forall>y. \<not> internal (s, ts) y" "Selecting \<in> set ts"
  shows "int (countIf (\<lambda>ph. ph = InHandler) ts) = limit s"
proof -
  note ph = settled_phase [OF assms(1,2)]
  obtain i where i: "i < length ts" "ts ! i = Selecting" using assms(3) by (metis in_set_conv_nth)
  have w: "wakeLen s = 0" using ph(2) i by blast
  have "countIf awake ts = 0" using ph(1) by (fastforce simp: countIf_zero in_set_conv_nth)
  moreover have "countIf (\<lambda>ph. ph = Selecting) ts > 0" using countIf_pos [of i ts "\<lambda>ph. ph = Selecting"] i by simp
  moreover have "countIf holds ts = countIf (\<lambda>ph. ph = InHandler) ts"
    using ph(1) by (intro countIf_cong) (fastforce simp: in_set_conv_nth)
  ultimately show ?thesis using assms(1) w by (simp add: semOK_def accounted_def signalled_def)
qed

end
