(* ===== verification/ThrottleTable.thy ===== *)
theory ThrottleTable
  imports Handlers Threads
begin

text \<open>
  The per-client throttle (middleware/throttle.go, \<open>throttleTable\<close> and \<open>ThrottlePerIPCapped\<close>): a
  sharded table of reference-counted token channels with a bound on its size and a pool of
  recycled entries, as an interleaving of the requests' locks, atomic operations and channel
  operations.
\<close>

section \<open>The table\<close>

text \<open>
  Entries are objects: a pointer to one is its index in the list of all that were allocated. A
  token channel is the number of its tokens with its capacity.
\<close>

record throttleEntry =
  teTokens :: nat
  teCap :: nat
  teRefs :: int

record throttleTable =
  ttLocked :: "nat \<Rightarrow> bool"
  ttShards :: "nat \<Rightarrow> string \<Rightarrow> nat option"
  ttSize :: int
  ttMax :: int
  ttEntries :: "throttleEntry list"
  ttPool :: "nat list"

definition throttleShardCount :: nat where
  "throttleShardCount = 64"

definition newThrottleTable :: "int \<Rightarrow> throttleTable" where
  "newThrottleTable maxSize =
     \<lparr>ttLocked = (\<lambda>i. False), ttShards = (\<lambda>i. Map.empty), ttSize = 0, ttMax = maxSize,
      ttEntries = [], ttPool = []\<rparr>"

text \<open>The construction of the middleware, with its panic on the limit.\<close>

definition throttlePerIPCapped :: "int \<Rightarrow> int \<Rightarrow> goPanic + throttleTable" where
  "throttlePerIPCapped lim maxSize =
     (if lim \<le> 0 then Inl (BadConfig ''middleware: ThrottlePerIP limit must be > 0'')
      else Inr (newThrottleTable maxSize))"

definition DefaultThrottlePerIPMaxTableSize :: int where
  "DefaultThrottlePerIPMaxTableSize = 100000"

definition throttlePerIP :: "int \<Rightarrow> goPanic + throttleTable" where
  "throttlePerIP lim = throttlePerIPCapped lim DefaultThrottlePerIPMaxTableSize"

text \<open>The seeded hash of package maphash is a parameter: any function of the key.\<close>

type_synonym hashKey = "string \<Rightarrow> 64 word"

definition shardFor :: "hashKey \<Rightarrow> string \<Rightarrow> nat" where
  "shardFor h key = unat (and (h key) (of_nat (throttleShardCount - 1)))"

definition lookupKey :: "hashKey \<Rightarrow> throttleTable \<Rightarrow> string \<Rightarrow> nat option" where
  "lookupKey h t key = ttShards t (shardFor h key) key"

definition setKey :: "hashKey \<Rightarrow> string \<Rightarrow> nat option \<Rightarrow> throttleTable \<Rightarrow> throttleTable" where
  "setKey h key v t =
     (let sh = shardFor h key
      in t\<lparr>ttShards := (ttShards t)(sh := (ttShards t sh)(key := v))\<rparr>)"

definition setLocked :: "hashKey \<Rightarrow> string \<Rightarrow> bool \<Rightarrow> throttleTable \<Rightarrow> throttleTable" where
  "setLocked h key b t = t\<lparr>ttLocked := (ttLocked t)(shardFor h key := b)\<rparr>"

definition setEntry :: "nat \<Rightarrow> (throttleEntry \<Rightarrow> throttleEntry) \<Rightarrow> throttleTable \<Rightarrow> throttleTable" where
  "setEntry a f t = t\<lparr>ttEntries := (ttEntries t)[a := f (ttEntries t ! a)]\<rparr>"

section \<open>Requests\<close>

text \<open>
  Where a request with its key stands, in the order of the code: \<open>acquire\<close> from the lock to the
  unlock, the two selects on the token channel, the handler, the deferred return of the token,
  and \<open>decRefs\<close>; the flag says whether the handler ran.
\<close>

datatype tphase =
    Locking string
  | Looking string
  | Reserving string
  | RollingBack string
  | Allocating string
  | UnlockFull string
  | UnlockGot string nat
  | TakingFast string nat
  | Waiting string nat
  | Inside string nat
  | Returning string nat
  | DecLocking string nat bool
  | Decrementing string nat bool
  | DecUnlocking string nat bool bool
  | Shrinking string nat bool
  | Recycling string nat bool
  | Served string
  | Refused string

text \<open>
  \<open>Go\<close> is the next operation, \<open>Expire\<close> the timer, and \<open>Pooled i\<close> the operation that takes an
  entry from the pool, where \<open>Go\<close> finds none: a \<open>sync.Pool\<close> promises neither. None is a blocked
  operation.
\<close>

datatype tevent = Go | Expire | Pooled nat

definition freshEntry :: "int \<Rightarrow> throttleEntry" where
  "freshEntry lim = \<lparr>teTokens = nat lim, teCap = nat lim, teRefs = 1\<rparr>"

definition allocate :: "int \<Rightarrow> throttleTable \<Rightarrow> nat \<times> throttleTable" where
  "allocate lim t = (length (ttEntries t), t\<lparr>ttEntries := ttEntries t @ [freshEntry lim]\<rparr>)"

definition takePooled :: "int \<Rightarrow> nat \<Rightarrow> throttleTable \<Rightarrow> nat \<times> throttleTable" where
  "takePooled lim i t =
     (let a = ttPool t ! i;
          t' = t\<lparr>ttPool := take i (ttPool t) @ drop (Suc i) (ttPool t)\<rparr>
      in if int (teCap (ttEntries t ! a)) \<noteq> lim then allocate lim t'
         else (a, setEntry a (\<lambda>e. e\<lparr>teRefs := 1\<rparr>) t'))"

definition takeToken :: "nat \<Rightarrow> throttleTable \<Rightarrow> throttleTable option" where
  "takeToken a t =
     (if teTokens (ttEntries t ! a) > 0
      then Some (setEntry a (\<lambda>e. e\<lparr>teTokens := teTokens e - 1\<rparr>) t) else None)"

fun tstep :: "hashKey \<Rightarrow> int \<Rightarrow> tevent \<Rightarrow> throttleTable \<Rightarrow> tphase \<Rightarrow> (throttleTable \<times> tphase) option" where
  "tstep h lim Go t (Locking k) =
     (if ttLocked t (shardFor h k) then None else Some (setLocked h k True t, Looking k))"
| "tstep h lim Go t (Looking k) =
     (case lookupKey h t k of
        Some a \<Rightarrow> Some (setEntry a (\<lambda>e. e\<lparr>teRefs := teRefs e + 1\<rparr>) t, UnlockGot k a)
      | None \<Rightarrow> Some (t, if ttMax t > 0 then Reserving k else Allocating k))"
| "tstep h lim Go t (Reserving k) =
     Some (t\<lparr>ttSize := ttSize t + 1\<rparr>, if ttSize t + 1 > ttMax t then RollingBack k else Allocating k)"
| "tstep h lim Go t (RollingBack k) = Some (t\<lparr>ttSize := ttSize t - 1\<rparr>, UnlockFull k)"
| "tstep h lim Go t (Allocating k) =
     (let (a, t') = allocate lim t in Some (setKey h k (Some a) t', UnlockGot k a))"
| "tstep h lim (Pooled i) t (Allocating k) =
     (if i < length (ttPool t)
      then let (a, t') = takePooled lim i t in Some (setKey h k (Some a) t', UnlockGot k a)
      else None)"
| "tstep h lim Go t (UnlockFull k) = Some (setLocked h k False t, Refused k)"
| "tstep h lim Go t (UnlockGot k a) = Some (setLocked h k False t, TakingFast k a)"
| "tstep h lim Go t (TakingFast k a) =
     (case takeToken a t of Some t' \<Rightarrow> Some (t', Inside k a) | None \<Rightarrow> Some (t, Waiting k a))"
| "tstep h lim Go t (Waiting k a) = map_option (\<lambda>t'. (t', Inside k a)) (takeToken a t)"
| "tstep h lim Expire t (Waiting k a) = Some (t, DecLocking k a False)"
| "tstep h lim Go t (Inside k a) = Some (t, Returning k a)"
| "tstep h lim Go t (Returning k a) =
     (if teTokens (ttEntries t ! a) < teCap (ttEntries t ! a)
      then Some (setEntry a (\<lambda>e. e\<lparr>teTokens := teTokens e + 1\<rparr>) t, DecLocking k a True)
      else None)"
| "tstep h lim Go t (DecLocking k a b) =
     (if ttLocked t (shardFor h k) then None else Some (setLocked h k True t, Decrementing k a b))"
| "tstep h lim Go t (Decrementing k a b) =
     (let t' = setEntry a (\<lambda>e. e\<lparr>teRefs := teRefs e - 1\<rparr>) t;
          removed = (teRefs (ttEntries t' ! a) = 0)
      in Some (if removed then setKey h k None t' else t', DecUnlocking k a b removed))"
| "tstep h lim Go t (DecUnlocking k a b removed) =
     Some (setLocked h k False t,
       if removed then Shrinking k a b else if b then Served k else Refused k)"
| "tstep h lim Go t (Shrinking k a b) =
     Some (if ttMax t > 0 then t\<lparr>ttSize := ttSize t - 1\<rparr> else t, Recycling k a b)"
| "tstep h lim Go t (Recycling k a b) =
     Some (t\<lparr>ttPool := a # ttPool t\<rparr>, if b then Served k else Refused k)"
| "tstep h lim e t p = None"

text \<open>What the client of a request gets that ends in \<open>Served\<close> or \<open>Refused\<close>.\<close>

definition perIPAnswer :: "tphase \<Rightarrow> 'w middleware" where
  "perIPAnswer p next r w =
     (case p of Refused k \<Rightarrow> ok (httpError (statusText 503) 503 w) | _ \<Rightarrow> next r w)"

inductive perIP :: "hashKey \<Rightarrow> int \<Rightarrow> int \<Rightarrow> throttleTable \<Rightarrow> tphase list \<Rightarrow> bool" for h lim maxSize where
  built: "throttlePerIPCapped lim maxSize = Inr t \<Longrightarrow> perIP h lim maxSize t []"
| arrive: "perIP h lim maxSize t ts \<Longrightarrow> perIP h lim maxSize t (ts @ [Locking k])"
| move: "perIP h lim maxSize t ts \<Longrightarrow> i < length ts \<Longrightarrow> tstep h lim e t (ts ! i) = Some (t', p)
    \<Longrightarrow> perIP h lim maxSize t' (ts[i := p])"

section \<open>What a request holds\<close>

text \<open>
  Its key; the entry it counts as a reference of, whose token it holds, or which it removed and
  still has in hand; the key of the shard it has locked; the key it knows to be absent; whether
  the size counts a slot for it, and whether that is to be undone.
\<close>

fun keyOf :: "tphase \<Rightarrow> string" where
  "keyOf (Locking k) = k" | "keyOf (Looking k) = k" | "keyOf (Reserving k) = k"
| "keyOf (RollingBack k) = k" | "keyOf (Allocating k) = k" | "keyOf (UnlockFull k) = k"
| "keyOf (UnlockGot k a) = k" | "keyOf (TakingFast k a) = k" | "keyOf (Waiting k a) = k"
| "keyOf (Inside k a) = k" | "keyOf (Returning k a) = k" | "keyOf (DecLocking k a b) = k"
| "keyOf (Decrementing k a b) = k" | "keyOf (DecUnlocking k a b r) = k" | "keyOf (Shrinking k a b) = k"
| "keyOf (Recycling k a b) = k" | "keyOf (Served k) = k" | "keyOf (Refused k) = k"

fun refersTo :: "tphase \<Rightarrow> nat option" where
  "refersTo (UnlockGot k a) = Some a" | "refersTo (TakingFast k a) = Some a"
| "refersTo (Waiting k a) = Some a" | "refersTo (Inside k a) = Some a"
| "refersTo (Returning k a) = Some a" | "refersTo (DecLocking k a b) = Some a"
| "refersTo (Decrementing k a b) = Some a" | "refersTo p = None"

fun tokenOf :: "tphase \<Rightarrow> nat option" where
  "tokenOf (Inside k a) = Some a" | "tokenOf (Returning k a) = Some a" | "tokenOf p = None"

fun removedBy :: "tphase \<Rightarrow> nat option" where
  "removedBy (DecUnlocking k a b r) = (if r then Some a else None)"
| "removedBy (Shrinking k a b) = Some a" | "removedBy (Recycling k a b) = Some a" | "removedBy p = None"

fun locks :: "tphase \<Rightarrow> bool" where
  "locks (Looking k) = True" | "locks (Reserving k) = True" | "locks (RollingBack k) = True"
| "locks (Allocating k) = True" | "locks (UnlockFull k) = True" | "locks (UnlockGot k a) = True"
| "locks (Decrementing k a b) = True" | "locks (DecUnlocking k a b r) = True" | "locks p = False"

fun knowsAbsent :: "tphase \<Rightarrow> bool" where
  "knowsAbsent (Reserving k) = True" | "knowsAbsent (RollingBack k) = True"
| "knowsAbsent (Allocating k) = True" | "knowsAbsent p = False"

fun counted :: "tphase \<Rightarrow> bool" where
  "counted (RollingBack k) = True" | "counted (Allocating k) = True"
| "counted (DecUnlocking k a b r) = r" | "counted (Shrinking k a b) = True" | "counted p = False"

definition lockedBy :: "hashKey \<Rightarrow> nat \<Rightarrow> tphase \<Rightarrow> bool" where
  "lockedBy h sh p \<longleftrightarrow> locks p \<and> shardFor h (keyOf p) = sh"

section \<open>The invariant\<close>

text \<open>
  Locks: a locked shard has exactly one holder. Entries: reference counts and tokens are exact.
  Map: a request's entry is the one its key maps to, different keys map to different entries, a
  mapped entry is referenced, and a key found absent under the lock stays absent. Ownership: an
  entry is mapped, in the hands of the request that removed it, or in the pool, once. Size: the
  counter is exact and bounded, up to additions about to be undone.
\<close>

definition lockOK :: "hashKey \<Rightarrow> throttleTable \<Rightarrow> tphase list \<Rightarrow> bool" where
  "lockOK h t ts \<longleftrightarrow> (\<forall>sh. countIf (lockedBy h sh) ts = (if ttLocked t sh then 1 else 0))"

definition entriesOK :: "int \<Rightarrow> throttleTable \<Rightarrow> tphase list \<Rightarrow> bool" where
  "entriesOK lim t ts \<longleftrightarrow>
     (\<forall>a < length (ttEntries t).
        int (teCap (ttEntries t ! a)) = lim
        \<and> teTokens (ttEntries t ! a) + countIf (\<lambda>p. tokenOf p = Some a) ts = teCap (ttEntries t ! a))"

definition refsOK :: "throttleTable \<Rightarrow> tphase list \<Rightarrow> bool" where
  "refsOK t ts \<longleftrightarrow>
     (\<forall>a < length (ttEntries t). teRefs (ttEntries t ! a) = int (countIf (\<lambda>p. refersTo p = Some a) ts))"

definition refsMapped :: "hashKey \<Rightarrow> throttleTable \<Rightarrow> tphase list \<Rightarrow> bool" where
  "refsMapped h t ts \<longleftrightarrow>
     (\<forall>p \<in> set ts. \<forall>a. refersTo p = Some a \<longrightarrow> lookupKey h t (keyOf p) = Some a)"

definition mappedOK :: "hashKey \<Rightarrow> throttleTable \<Rightarrow> tphase list \<Rightarrow> bool" where
  "mappedOK h t ts \<longleftrightarrow>
     (\<forall>k a. lookupKey h t k = Some a \<longrightarrow>
        a < length (ttEntries t) \<and> (\<exists>p \<in> set ts. refersTo p = Some a)
        \<and> (\<forall>k'. lookupKey h t k' = Some a \<longrightarrow> k' = k))"

definition absentOK :: "hashKey \<Rightarrow> throttleTable \<Rightarrow> tphase list \<Rightarrow> bool" where
  "absentOK h t ts \<longleftrightarrow> (\<forall>p \<in> set ts. knowsAbsent p \<longrightarrow> lookupKey h t (keyOf p) = None)"

definition mapOK :: "hashKey \<Rightarrow> throttleTable \<Rightarrow> tphase list \<Rightarrow> bool" where
  "mapOK h t ts \<longleftrightarrow> refsMapped h t ts \<and> mappedOK h t ts \<and> absentOK h t ts"

lemma mapOK_D:
  assumes "mapOK h t ts"
  shows "p \<in> set ts \<Longrightarrow> refersTo p = Some a \<Longrightarrow> lookupKey h t (keyOf p) = Some a"
    and "lookupKey h t k = Some a \<Longrightarrow> a < length (ttEntries t)"
    and "lookupKey h t k = Some a \<Longrightarrow> \<exists>p \<in> set ts. refersTo p = Some a"
    and "lookupKey h t k = Some a \<Longrightarrow> lookupKey h t k' = Some a \<Longrightarrow> k' = k"
    and "p \<in> set ts \<Longrightarrow> knowsAbsent p \<Longrightarrow> lookupKey h t (keyOf p) = None"
  using assms unfolding mapOK_def refsMapped_def mappedOK_def absentOK_def by blast+

definition ownedOK :: "hashKey \<Rightarrow> throttleTable \<Rightarrow> tphase list \<Rightarrow> bool" where
  "ownedOK h t ts \<longleftrightarrow>
     (\<forall>a. countIf (\<lambda>x. x = a) (ttPool t) + countIf (\<lambda>p. removedBy p = Some a) ts
            + (if \<exists>k. lookupKey h t k = Some a then 1 else 0) \<le> 1)
     \<and> (\<forall>a \<in> set (ttPool t). a < length (ttEntries t))
     \<and> (\<forall>p \<in> set ts. \<forall>a. removedBy p = Some a \<longrightarrow> a < length (ttEntries t))"

definition keys :: "hashKey \<Rightarrow> throttleTable \<Rightarrow> string set" where
  "keys h t = {k. lookupKey h t k \<noteq> None}"

definition sizeOK :: "hashKey \<Rightarrow> throttleTable \<Rightarrow> tphase list \<Rightarrow> bool" where
  "sizeOK h t ts \<longleftrightarrow>
     finite (keys h t)
     \<and> (ttMax t > 0 \<longrightarrow>
          ttSize t = int (card (keys h t) + countIf counted ts)
          \<and> ttSize t - int (countIf (\<lambda>p. \<exists>k. p = RollingBack k) ts) \<le> ttMax t)
     \<and> (\<forall>k. (Reserving k \<in> set ts \<or> RollingBack k \<in> set ts) \<longrightarrow> ttMax t > 0)"

definition perIPOK :: "hashKey \<Rightarrow> int \<Rightarrow> throttleTable \<Rightarrow> tphase list \<Rightarrow> bool" where
  "perIPOK h lim t ts \<longleftrightarrow>
     lockOK h t ts \<and> entriesOK lim t ts \<and> refsOK t ts \<and> mapOK h t ts \<and> ownedOK h t ts \<and> sizeOK h t ts"

lemma table_simps [simp]:
  "lookupKey h (setLocked h' k b t) = lookupKey h t" "ttEntries (setLocked h' k b t) = ttEntries t"
  "ttPool (setLocked h' k b t) = ttPool t" "ttSize (setLocked h' k b t) = ttSize t"
  "ttMax (setLocked h' k b t) = ttMax t"
  "lookupKey h (setEntry a f t) = lookupKey h t" "ttLocked (setEntry a f t) = ttLocked t"
  "ttPool (setEntry a f t) = ttPool t" "ttSize (setEntry a f t) = ttSize t" "ttMax (setEntry a f t) = ttMax t"
  "ttEntries (setEntry a f t) = (ttEntries t)[a := f (ttEntries t ! a)]"
  "ttLocked (setKey h k v t) = ttLocked t" "ttEntries (setKey h k v t) = ttEntries t"
  "ttPool (setKey h k v t) = ttPool t" "ttSize (setKey h k v t) = ttSize t" "ttMax (setKey h k v t) = ttMax t"
  "lookupKey h (ttSize_update g t) = lookupKey h t" "lookupKey h (ttPool_update g' t) = lookupKey h t"
  "lookupKey h (ttEntries_update g'' t) = lookupKey h t"
  by (simp_all add: setLocked_def setEntry_def setKey_def Let_def lookupKey_def fun_eq_iff)

lemma lookupKey_setKey [simp]: "lookupKey h (setKey h k v t) = (lookupKey h t)(k := v)"
  by (auto simp: lookupKey_def setKey_def Let_def fun_eq_iff)

lemma ttLocked_set [simp]: "ttLocked (setLocked h k b t) = (ttLocked t)(shardFor h k := b)"
  by (simp add: setLocked_def)

section \<open>Steps keep the invariant\<close>

lemma tstep_lock:
  assumes "tstep h lim e t p = Some (t', p')"
  shows "keyOf p' = keyOf p"
    and "locks p' = locks p \<and> ttLocked t' = ttLocked t
      \<or> \<not> locks p \<and> locks p' \<and> \<not> ttLocked t (shardFor h (keyOf p))
        \<and> ttLocked t' = (ttLocked t)(shardFor h (keyOf p) := True)
      \<or> locks p \<and> \<not> locks p' \<and> ttLocked t' = (ttLocked t)(shardFor h (keyOf p) := False)"
  using assms
  by (cases "(h, lim, e, t, p)" rule: tstep.cases;
      auto simp: takeToken_def takePooled_def allocate_def Let_def split: if_splits option.splits)+

lemma lockOK_move:
  assumes "lockOK h t ts" "i < length ts" "tstep h lim e t (ts ! i) = Some (t', p)"
  shows "lockOK h t' (ts[i := p])"
  unfolding lockOK_def
proof
  fix sh
  show "countIf (lockedBy h sh) (ts[i := p]) = (if ttLocked t' sh then 1 else 0)"
    using assms(1) tstep_lock [OF assms(3)] countIf_update [OF assms(2), of "lockedBy h sh" p]
    by (auto simp: lockOK_def lockedBy_def split: if_splits)
qed

lemma lock_excludes:
  assumes "lockOK h t ts" "i < length ts" "j < length ts" "i \<noteq> j" "locks (ts ! i)" "locks (ts ! j)"
  shows "keyOf (ts ! i) \<noteq> keyOf (ts ! j)"
proof
  assume k: "keyOf (ts ! i) = keyOf (ts ! j)"
  let ?P = "lockedBy h (shardFor h (keyOf (ts ! i)))"
  have "countIf ?P ts \<le> 1" using assms(1) by (simp add: lockOK_def)
  from countIf_unique [OF this assms(2-4)] show False using assms(5,6) k by (simp add: lockedBy_def)
qed

text \<open>Taking a token changes nothing but the tokens of the entry.\<close>

lemma teRefs_tokens [simp]:
  "teRefs (es[a := (es ! a)\<lparr>teTokens := n\<rparr>] ! b) = teRefs (es ! b)"
  by (cases "a < length es") (auto simp: nth_list_update not_less list_update_beyond)

lemma takeToken_quiet:
  assumes "takeToken a t = Some t'"
  shows "lookupKey h t' = lookupKey h t" "ttPool t' = ttPool t" "length (ttEntries t') = length (ttEntries t)"
    "teRefs (ttEntries t' ! b) = teRefs (ttEntries t ! b)" "ttSize t' = ttSize t" "ttMax t' = ttMax t"
  using assms by (auto simp: takeToken_def split: if_splits)

lemma tstep_other:
  assumes "tstep h lim e t p = Some (t', p')" "\<And>k. p \<noteq> Looking k" "\<And>k. p \<noteq> Allocating k"
    "\<And>k a b. p \<noteq> Decrementing k a b" "\<And>k a b. p \<noteq> Recycling k a b"
  shows "lookupKey h t' = lookupKey h t \<and> refersTo p' = refersTo p \<and> removedBy p' = removedBy p
      \<and> ttPool t' = ttPool t \<and> length (ttEntries t') = length (ttEntries t)
      \<and> (\<forall>a. teRefs (ttEntries t' ! a) = teRefs (ttEntries t ! a)) \<and> (knowsAbsent p' \<longrightarrow> knowsAbsent p)"
  using assms
  by (cases p; cases e) (simp_all add: takeToken_quiet split: if_splits option.splits, auto simp: takeToken_quiet)

lemma tstep_looking:
  "tstep h lim e t (Looking k) = Some (t', p') \<Longrightarrow>
     (\<exists>a. lookupKey h t k = Some a \<and> p' = UnlockGot k a \<and> t' = setEntry a (\<lambda>e. e\<lparr>teRefs := teRefs e + 1\<rparr>) t)
     \<or> lookupKey h t k = None \<and> t' = t \<and> p' = (if ttMax t > 0 then Reserving k else Allocating k)"
  by (cases e) (auto split: option.splits)

lemma tstep_allocating:
  assumes "tstep h lim e t (Allocating k) = Some (t', p')"
    and "\<forall>a \<in> set (ttPool t). int (teCap (ttEntries t ! a)) = lim"
  shows "p' = UnlockGot k (length (ttEntries t))
      \<and> t' = setKey h k (Some (length (ttEntries t))) (t\<lparr>ttEntries := ttEntries t @ [freshEntry lim]\<rparr>)
    \<or> (\<exists>j < length (ttPool t). p' = UnlockGot k (ttPool t ! j)
      \<and> t' = setKey h k (Some (ttPool t ! j)) (setEntry (ttPool t ! j) (\<lambda>e. e\<lparr>teRefs := 1\<rparr>)
              (t\<lparr>ttPool := take j (ttPool t) @ drop (Suc j) (ttPool t)\<rparr>)))"
  using assms by (cases e) (auto simp: allocate_def takePooled_def Let_def split: if_splits)

lemma tstep_decrementing:
  assumes "tstep h lim e t (Decrementing k a b) = Some (t', p')" "a < length (ttEntries t)"
  shows "teRefs (ttEntries t ! a) \<noteq> 1 \<and> p' = DecUnlocking k a b False
      \<and> t' = setEntry a (\<lambda>e. e\<lparr>teRefs := teRefs e - 1\<rparr>) t
    \<or> teRefs (ttEntries t ! a) = 1 \<and> p' = DecUnlocking k a b True
      \<and> t' = setKey h k None (setEntry a (\<lambda>e. e\<lparr>teRefs := teRefs e - 1\<rparr>) t)"
  using assms by (cases e) (auto simp: Let_def split: if_splits)

lemma tstep_recycling:
  "tstep h lim e t (Recycling k a b) = Some (t', p') \<Longrightarrow>
     t' = t\<lparr>ttPool := a # ttPool t\<rparr> \<and> p' = (if b then Served k else Refused k)"
  by (cases e) auto

text \<open>The steps that change the map, the pool or the references; every other leaves them alone.\<close>

lemma tstep_kinds:
  assumes "tstep h lim e t p = Some (t', p')"
    and "\<forall>a \<in> set (ttPool t). int (teCap (ttEntries t ! a)) = lim"
    and "\<forall>a. refersTo p = Some a \<longrightarrow> a < length (ttEntries t)"
  obtains (quiet) "lookupKey h t' = lookupKey h t" "refersTo p' = refersTo p" "removedBy p' = removedBy p"
      "ttPool t' = ttPool t" "length (ttEntries t') = length (ttEntries t)"
      "\<forall>a. teRefs (ttEntries t' ! a) = teRefs (ttEntries t ! a)"
      "knowsAbsent p' \<longrightarrow> knowsAbsent p \<or> lookupKey h t (keyOf p) = None"
  | (join) k a where "p = Looking k" "p' = UnlockGot k a" "lookupKey h t k = Some a"
      "t' = setEntry a (\<lambda>e. e\<lparr>teRefs := teRefs e + 1\<rparr>) t"
  | (fresh) k where "p = Allocating k" "p' = UnlockGot k (length (ttEntries t))"
      "t' = setKey h k (Some (length (ttEntries t))) (t\<lparr>ttEntries := ttEntries t @ [freshEntry lim]\<rparr>)"
  | (reuse) k j where "p = Allocating k" "j < length (ttPool t)" "p' = UnlockGot k (ttPool t ! j)"
      "t' = setKey h k (Some (ttPool t ! j)) (setEntry (ttPool t ! j) (\<lambda>e. e\<lparr>teRefs := 1\<rparr>)
              (t\<lparr>ttPool := take j (ttPool t) @ drop (Suc j) (ttPool t)\<rparr>))"
  | (leave) k a b where "p = Decrementing k a b" "p' = DecUnlocking k a b False" "teRefs (ttEntries t ! a) \<noteq> 1"
      "t' = setEntry a (\<lambda>e. e\<lparr>teRefs := teRefs e - 1\<rparr>) t"
  | (remove) k a b where "p = Decrementing k a b" "p' = DecUnlocking k a b True" "teRefs (ttEntries t ! a) = 1"
      "t' = setKey h k None (setEntry a (\<lambda>e. e\<lparr>teRefs := teRefs e - 1\<rparr>) t)"
  | (recycle) k a b where "p = Recycling k a b" "t' = t\<lparr>ttPool := a # ttPool t\<rparr>" "refersTo p' = None"
      "removedBy p' = None" "\<not> knowsAbsent p'"
proof -
  consider (other) "\<And>k. p \<noteq> Looking k" "\<And>k. p \<noteq> Allocating k" "\<And>k a b. p \<noteq> Decrementing k a b"
      "\<And>k a b. p \<noteq> Recycling k a b"
    | (look) k where "p = Looking k" | (alloc) k where "p = Allocating k"
    | (dec) k a b where "p = Decrementing k a b" | (rec) k a b where "p = Recycling k a b"
    by (cases p) auto
  then show thesis
  proof cases
    case other
    show thesis by (rule quiet) (use tstep_other [OF assms(1) other] in simp_all)
  next
    case look
    from tstep_looking [OF assms(1) [unfolded look]] show thesis
    proof (elim disjE exE conjE)
      fix a assume "lookupKey h t k = Some a" "p' = UnlockGot k a" "t' = setEntry a (\<lambda>e. e\<lparr>teRefs := teRefs e + 1\<rparr>) t"
      then show thesis by (intro join [OF look])
    next
      assume "lookupKey h t k = None" "t' = t" "p' = (if ttMax t > 0 then Reserving k else Allocating k)"
      then show thesis by (intro quiet) (simp_all add: look)
    qed
  next
    case alloc
    from tstep_allocating [OF assms(1) [unfolded alloc] assms(2)] show thesis
      by (elim disjE exE conjE) (rule fresh [OF alloc], assumption+, rule reuse [OF alloc], assumption+)
  next
    case dec
    have "a < length (ttEntries t)" using assms(3) dec by simp
    from tstep_decrementing [OF assms(1) [unfolded dec] this] show thesis
      by (elim disjE exE conjE) (rule leave [OF dec], assumption+, rule remove [OF dec], assumption+)
  next
    case rec
    note r = tstep_recycling [OF assms(1) [unfolded rec]]
    show thesis by (rule recycle [OF rec]) (use r in simp_all)
  qed
qed

text \<open>What the kinds need of the invariant, for the request that moves.\<close>

lemma kinds_apply:
  assumes "perIPOK h lim t ts" "i < length ts"
  shows "\<forall>a \<in> set (ttPool t). int (teCap (ttEntries t ! a)) = lim"
    and "\<forall>a. refersTo (ts ! i) = Some a \<longrightarrow> a < length (ttEntries t)"
    and "refersTo (ts ! i) = Some a \<Longrightarrow> teRefs (ttEntries t ! a) \<ge> 1"
proof -
  have ts: "ts ! i \<in> set ts" using assms(2) by simp
  show "\<forall>a \<in> set (ttPool t). int (teCap (ttEntries t ! a)) = lim"
    using assms(1) by (auto simp: perIPOK_def ownedOK_def entriesOK_def)
  show l: "\<forall>a. refersTo (ts ! i) = Some a \<longrightarrow> a < length (ttEntries t)"
    using assms(1) ts mapOK_D(1,2) unfolding perIPOK_def by blast
  show "refersTo (ts ! i) = Some a \<Longrightarrow> teRefs (ttEntries t ! a) \<ge> 1"
    using assms(1) l countIf_pos [OF assms(2), of "\<lambda>p. refersTo p = Some a"]
    by (fastforce simp: perIPOK_def refsOK_def)
qed

text \<open>Nobody refers to an entry that is not mapped.\<close>

lemma unmapped_unreferenced:
  assumes "mapOK h t ts" "\<nexists>k. lookupKey h t k = Some a"
  shows "countIf (\<lambda>p. refersTo p = Some a) ts = 0"
  using assms(2) mapOK_D(1) [OF assms(1)] by (auto simp: countIf_zero)

lemma pool_unmapped:
  assumes "ownedOK h t ts" "a \<in> set (ttPool t)"
  shows "\<nexists>k. lookupKey h t k = Some a" "countIf (\<lambda>x. x = a) (ttPool t) = 1" "\<forall>p \<in> set ts. removedBy p \<noteq> Some a"
proof -
  let ?n = "countIf (\<lambda>x. x = a) (ttPool t)" and ?m = "countIf (\<lambda>p. removedBy p = Some a) ts"
  have "?n \<noteq> 0" using assms(2) by (auto simp: countIf_zero)
  moreover have "?n + ?m + (if \<exists>k. lookupKey h t k = Some a then 1 else 0) \<le> 1"
    using assms(1) by (simp add: ownedOK_def)
  ultimately have "?m = 0" "\<nexists>k. lookupKey h t k = Some a" "?n = 1" by (auto split: if_splits)
  then show "\<nexists>k. lookupKey h t k = Some a" "?n = 1" "\<forall>p \<in> set ts. removedBy p \<noteq> Some a"
    by (simp_all add: countIf_zero)
qed

lemma new_unmapped: "mapOK h t ts \<Longrightarrow> \<nexists>k. lookupKey h t k = Some (length (ttEntries t))"
  using mapOK_D(2) by fastforce

definition refAt :: "nat \<Rightarrow> tphase \<Rightarrow> int" where
  "refAt a p = (if refersTo p = Some a then 1 else 0)"

lemma refsOK_same:
  assumes "refsOK t ts" "i < length ts" "length (ttEntries t') = length (ttEntries t)"
    and "\<And>a. a < length (ttEntries t) \<Longrightarrow>
      teRefs (ttEntries t' ! a) + refAt a (ts ! i) = teRefs (ttEntries t ! a) + refAt a p"
  shows "refsOK t' (ts[i := p])"
  unfolding refsOK_def
proof (intro allI impI)
  fix a assume a: "a < length (ttEntries t')"
  have "int (countIf (\<lambda>p. refersTo p = Some a) (ts[i := p])) + refAt a (ts ! i)
      = int (countIf (\<lambda>p. refersTo p = Some a) ts) + refAt a p"
    using countIf_update [OF assms(2), of "\<lambda>p. refersTo p = Some a" p] by (simp add: refAt_def split: if_splits)
  then show "teRefs (ttEntries t' ! a) = int (countIf (\<lambda>p. refersTo p = Some a) (ts[i := p]))"
    using assms(1,3) assms(4) [of a] a by (simp add: refsOK_def)
qed

lemma refsOK_move:
  assumes "perIPOK h lim t ts" "i < length ts" "tstep h lim e t (ts ! i) = Some (t', p)"
  shows "refsOK t' (ts[i := p])"
proof -
  have R: "refsOK t ts" and M: "mapOK h t ts" and O: "ownedOK h t ts"
    using assms(1) by (simp_all add: perIPOK_def)
  note z = unmapped_unreferenced [OF M] and same = refsOK_same [OF R assms(2)]
  show ?thesis
  proof (rule tstep_kinds [OF assms(3) kinds_apply(1,2) [OF assms(1,2)]])
    fix k j assume a: "ts ! i = Allocating k" "j < length (ttPool t)" "p = UnlockGot k (ttPool t ! j)"
      "t' = setKey h k (Some (ttPool t ! j)) (setEntry (ttPool t ! j) (\<lambda>e. e\<lparr>teRefs := 1\<rparr>)
              (t\<lparr>ttPool := take j (ttPool t) @ drop (Suc j) (ttPool t)\<rparr>))"
    have z: "countIf (\<lambda>p. refersTo p = Some (ttPool t ! j)) ts = 0"
      using z pool_unmapped(1) [OF O] a(2) by (meson nth_mem)
    show ?thesis by (rule same) (use R z a in \<open>auto simp: refsOK_def nth_update_at refAt_def\<close>)
  next
    fix k assume a: "ts ! i = Allocating k" "p = UnlockGot k (length (ttEntries t))"
      "t' = setKey h k (Some (length (ttEntries t))) (t\<lparr>ttEntries := ttEntries t @ [freshEntry lim]\<rparr>)"
    have c: "countIf (\<lambda>p. refersTo p = Some a) (ts[i := p])
        = countIf (\<lambda>p. refersTo p = Some a) ts + (if a = length (ttEntries t) then 1 else 0)" for a
      using countIf_update [OF assms(2), of "\<lambda>p. refersTo p = Some a" p] a by auto
    show ?thesis
      using R z [OF new_unmapped [OF M]] c a(3)
      by (auto simp: refsOK_def nth_append freshEntry_def less_Suc_eq)
  qed (rule same; auto simp: nth_update_at refAt_def)+
qed

text \<open>A step moves tokens between a channel and the request, or adds a full channel.\<close>

definition tokenAt :: "nat \<Rightarrow> tphase \<Rightarrow> nat" where
  "tokenAt a p = (if tokenOf p = Some a then 1 else 0)"

lemma takeToken_tokens:
  assumes "takeToken b t = Some t'" "a < length (ttEntries t)"
  shows "teCap (ttEntries t' ! a) = teCap (ttEntries t ! a)"
    "teTokens (ttEntries t' ! a) + (if a = b then 1 else 0) = teTokens (ttEntries t ! a)"
  using assms by (auto simp: takeToken_def nth_update_at split: if_splits)

lemma allocate_tokens:
  assumes "tstep h lim e t (Allocating k) = Some (t', p')" "a < length (ttEntries t)"
  shows "a < length (ttEntries t') \<and> teCap (ttEntries t' ! a) = teCap (ttEntries t ! a)
    \<and> teTokens (ttEntries t' ! a) = teTokens (ttEntries t ! a) \<and> tokenOf p' = None"
  using assms
  by (cases e) (auto simp: takePooled_def allocate_def Let_def nth_append nth_update_at split: if_splits)

lemma tstep_tokens:
  assumes "tstep h lim e t p = Some (t', p')" "a < length (ttEntries t)"
  shows "a < length (ttEntries t') \<and> teCap (ttEntries t' ! a) = teCap (ttEntries t ! a)
    \<and> teTokens (ttEntries t' ! a) + tokenAt a p' = teTokens (ttEntries t ! a) + tokenAt a p"
proof (cases "\<exists>k. p = Allocating k")
  case True
  then show ?thesis using allocate_tokens assms by (fastforce simp: tokenAt_def)
next
  case False
  then show ?thesis
    using assms
    by (cases p; cases e)
      (simp_all add: tokenAt_def takeToken_quiet Let_def split: if_splits option.splits,
       auto simp: takeToken_quiet takeToken_tokens nth_update_at dest: takeToken_tokens(2) split: if_splits)
qed

lemma tstep_new_entry:
  assumes "tstep h lim e t p = Some (t', p')" "a < length (ttEntries t')" "\<not> a < length (ttEntries t)"
  shows "a = length (ttEntries t) \<and> ttEntries t' ! a = freshEntry lim \<and> tokenOf p' = None \<and> tokenOf p = None"
proof (cases "\<exists>k. p = Allocating k")
  case True
  then show ?thesis
    using assms by (cases e) (auto simp: takePooled_def allocate_def Let_def nth_append split: if_splits)
next
  case False
  then have "length (ttEntries t') = length (ttEntries t)"
    using assms(1) by (cases p; cases e) (simp_all add: Let_def split: if_splits option.splits, auto simp: takeToken_quiet)
  then show ?thesis using assms(2,3) by simp
qed

lemma entriesOK_move:
  assumes "perIPOK h lim t ts" "i < length ts" "tstep h lim e t (ts ! i) = Some (t', p)" "lim > 0"
  shows "entriesOK lim t' (ts[i := p])"
proof -
  have E: "entriesOK lim t ts" and M: "mapOK h t ts" using assms(1) by (simp_all add: perIPOK_def)
  have c: "countIf (\<lambda>p. tokenOf p = Some a) (ts[i := p]) + tokenAt a (ts ! i)
      = countIf (\<lambda>p. tokenOf p = Some a) ts + tokenAt a p" for a
    using countIf_update [OF assms(2), of "\<lambda>p. tokenOf p = Some a" p] by (simp add: tokenAt_def)
  have n: "countIf (\<lambda>p. tokenOf p = Some (length (ttEntries t))) ts = 0"
  proof -
    have "tokenOf q = Some a \<Longrightarrow> refersTo q = Some a" for q a by (cases q) auto
    then have "countIf (\<lambda>p. tokenOf p = Some (length (ttEntries t))) ts
        \<le> countIf (\<lambda>p. refersTo p = Some (length (ttEntries t))) ts" by (intro countIf_mono)
    then show ?thesis using unmapped_unreferenced [OF M new_unmapped [OF M]] by simp
  qed
  show ?thesis
    unfolding entriesOK_def
  proof (intro allI impI)
    fix a assume a: "a < length (ttEntries t')"
    show "int (teCap (ttEntries t' ! a)) = lim
        \<and> teTokens (ttEntries t' ! a) + countIf (\<lambda>p. tokenOf p = Some a) (ts[i := p]) = teCap (ttEntries t' ! a)"
    proof (cases "a < length (ttEntries t)")
      case True
      have "int (teCap (ttEntries t ! a)) = lim
          \<and> teTokens (ttEntries t ! a) + countIf (\<lambda>p. tokenOf p = Some a) ts = teCap (ttEntries t ! a)"
        using E True by (simp add: entriesOK_def)
      then show ?thesis using tstep_tokens [OF assms(3) True] c [of a] by simp
    next
      case False
      then show ?thesis
        using tstep_new_entry [OF assms(3) a False] c [of a] n assms(4) by (auto simp: tokenAt_def freshEntry_def)
    qed
  qed
qed

end
