(* ===== verification/ThrottleTableSafe.thy ===== *)
theory ThrottleTableSafe
  imports ThrottleTable
begin

text \<open>
  The map, the ownership of entries and the size of the per-client table: every step keeps the
  rest of the invariant of ThrottleTable, in all interleavings.
\<close>

section \<open>The map\<close>

lemma updated_thread:
  "q \<in> set (ts[i := p]) \<Longrightarrow> q = p \<or> q \<in> set ts"
  using set_update_subset_insert [of ts i p] by blast

text \<open>A reference of another request, or one the moving request keeps, is still there.\<close>

lemma reference_kept:
  assumes "i < length ts" "\<exists>q \<in> set ts. refersTo q = Some a"
    and "refersTo (ts ! i) = Some a \<Longrightarrow> \<exists>q \<in> set (ts[i := p]). refersTo q = Some a"
  shows "\<exists>q \<in> set (ts[i := p]). refersTo q = Some a"
proof -
  obtain j where j: "j < length ts" "refersTo (ts ! j) = Some a"
    using assms(2) by (metis in_set_conv_nth)
  show ?thesis
  proof (cases "j = i")
    case False
    then have "ts ! j \<in> set (ts[i := p])" using j(1) in_set_update [OF assms(1)] by blast
    then show ?thesis using j(2) by blast
  qed (use assms(3) j(2) in simp)
qed

lemma mapOK_keep:
  assumes M: "mapOK h t ts" and i: "i < length ts" and lk: "lookupKey h t' = lookupKey h t"
    and len: "length (ttEntries t') = length (ttEntries t)"
    and r: "\<And>a. refersTo p = Some a \<Longrightarrow> lookupKey h t (keyOf p) = Some a"
    and k: "\<And>a. refersTo (ts ! i) = Some a \<Longrightarrow> \<exists>q \<in> set (ts[i := p]). refersTo q = Some a"
    and n: "knowsAbsent p \<Longrightarrow> lookupKey h t (keyOf p) = None"
  shows "mapOK h t' (ts[i := p])"
proof -
  have "refsMapped h t' (ts[i := p])"
    unfolding refsMapped_def lk
  proof (intro ballI allI impI)
    fix q a assume "q \<in> set (ts[i := p])" "refersTo q = Some a"
    then show "lookupKey h t (keyOf q) = Some a"
      using updated_thread [of q ts i p] mapOK_D(1) [OF M, of q a] r [of a] by auto
  qed
  moreover have "mappedOK h t' (ts[i := p])"
    unfolding mappedOK_def lk len
  proof (intro allI impI conjI)
    fix k a assume a: "lookupKey h t k = Some a"
    show "a < length (ttEntries t)" by (rule mapOK_D(2) [OF M a])
    show "\<exists>q \<in> set (ts[i := p]). refersTo q = Some a"
      by (rule reference_kept [OF i mapOK_D(3) [OF M a]]) (rule k)
    fix k' assume "lookupKey h t k' = Some a"
    then show "k' = k" by (rule mapOK_D(4) [OF M a])
  qed
  moreover have "absentOK h t' (ts[i := p])"
    unfolding absentOK_def lk
  proof (intro ballI impI)
    fix q assume "q \<in> set (ts[i := p])" "knowsAbsent q"
    then show "lookupKey h t (keyOf q) = None"
      using updated_thread [of q ts i p] mapOK_D(5) [OF M, of q] n by auto
  qed
  ultimately show ?thesis by (simp add: mapOK_def)
qed

text \<open>A first request for a key: its entry was nobody's, and it holds the lock of the shard.\<close>

lemma others_absent:
  assumes "lockOK h t ts" "i < length ts" "ts ! i = Allocating k" "q \<in> set (ts[i := UnlockGot k a])" "knowsAbsent q"
  shows "keyOf q \<noteq> k \<and> q \<in> set ts"
proof -
  obtain j where j: "j < length ts" "j \<noteq> i" "q = ts ! j"
    using assms(2,4,5) by (auto simp: in_set_update)
  have "locks q" using assms(5) by (cases q) auto
  then show ?thesis using lock_excludes [OF assms(1) j(1) assms(2) j(2)] j assms(3) by simp
qed

lemma mapOK_insert:
  assumes M: "mapOK h t ts" and L: "lockOK h t ts" and i: "i < length ts" and p: "ts ! i = Allocating k"
    and lk: "lookupKey h t' = (lookupKey h t)(k \<mapsto> a)" and new: "\<nexists>k. lookupKey h t k = Some a"
    and len: "a < length (ttEntries t')" "length (ttEntries t) \<le> length (ttEntries t')"
  shows "mapOK h t' (ts[i := UnlockGot k a])"
proof -
  let ?ts = "ts[i := UnlockGot k a]"
  have none: "lookupKey h t k = None" using mapOK_D(5) [OF M nth_mem [OF i]] p by simp
  have mem: "UnlockGot k a \<in> set ?ts" by (simp add: i set_update_memI)
  have "refsMapped h t' ?ts"
    unfolding refsMapped_def lk
  proof (intro ballI allI impI)
    fix q b assume q: "q \<in> set ?ts" "refersTo q = Some b"
    show "((lookupKey h t)(k \<mapsto> a)) (keyOf q) = Some b"
    proof (cases "q = UnlockGot k a")
      case False
      then have "lookupKey h t (keyOf q) = Some b" using updated_thread [OF q(1)] mapOK_D(1) [OF M] q(2) by blast
      then show ?thesis using none by auto
    qed (use q(2) in simp)
  qed
  moreover have "mappedOK h t' ?ts"
    unfolding mappedOK_def lk
  proof (intro allI impI conjI)
    fix k' b assume b: "((lookupKey h t)(k \<mapsto> a)) k' = Some b"
    show "b < length (ttEntries t')"
      using b len mapOK_D(2) [OF M, of k' b] by (simp split: if_splits)
    show "\<exists>q \<in> set ?ts. refersTo q = Some b"
    proof (cases "k' = k")
      case False
      then show ?thesis using reference_kept [OF i mapOK_D(3) [OF M]] b p by auto
    qed (use b mem in force)
    fix k'' assume "((lookupKey h t)(k \<mapsto> a)) k'' = Some b"
    then show "k'' = k'" using b new mapOK_D(4) [OF M, of k' b k''] by (auto split: if_splits)
  qed
  moreover have "absentOK h t' ?ts"
    unfolding absentOK_def lk
    using others_absent [OF L i p] mapOK_D(5) [OF M] by (auto simp del: split_paired_All)
  ultimately show ?thesis by (simp add: mapOK_def)
qed

text \<open>The last reference of a key: nobody else refers to its entry, so nobody else has its key mapped.\<close>

lemma mapOK_remove:
  assumes M: "mapOK h t ts" and R: "refsOK t ts" and i: "i < length ts" and p: "ts ! i = Decrementing k a b"
    and last: "teRefs (ttEntries t ! a) = 1" and lk: "lookupKey h t' = (lookupKey h t)(k := None)"
    and len: "length (ttEntries t') = length (ttEntries t)"
  shows "mapOK h t' (ts[i := DecUnlocking k a b True])"
proof -
  let ?p = "DecUnlocking k a b True"
  have ka: "lookupKey h t k = Some a" using mapOK_D(1) [OF M nth_mem [OF i], of a] p by simp
  have "countIf (\<lambda>p. refersTo p = Some a) ts = 1"
    using R last mapOK_D(2) [OF M ka] by (simp add: refsOK_def)
  then have "countIf (\<lambda>p. refersTo p = Some a) (ts[i := ?p]) = 0"
    using countIf_update [OF i, of "\<lambda>p. refersTo p = Some a" ?p] p by simp
  then have no: "refersTo q \<noteq> Some a" if "q \<in> set (ts[i := ?p])" for q
    using that by (simp add: countIf_zero)
  have "refsMapped h t' (ts[i := ?p])"
    unfolding refsMapped_def lk
  proof (intro ballI allI impI)
    fix q c assume q: "q \<in> set (ts[i := ?p])" "refersTo q = Some c"
    then have "lookupKey h t (keyOf q) = Some c"
      using updated_thread [OF q(1)] mapOK_D(1) [OF M] by fastforce
    moreover from this have "keyOf q \<noteq> k" using no [OF q(1)] q(2) ka by auto
    ultimately show "((lookupKey h t)(k := None)) (keyOf q) = Some c" by simp
  qed
  moreover have "mappedOK h t' (ts[i := ?p])"
    unfolding mappedOK_def lk len
  proof (intro allI impI conjI)
    fix k' c assume c: "((lookupKey h t)(k := None)) k' = Some c"
    then have c': "lookupKey h t k' = Some c" and "k' \<noteq> k" by (auto split: if_splits)
    then have "c \<noteq> a" using mapOK_D(4) [OF M ka, of k'] by blast
    show "c < length (ttEntries t)" using mapOK_D(2) [OF M c'] .
    show "\<exists>q \<in> set (ts[i := ?p]). refersTo q = Some c"
      using reference_kept [OF i mapOK_D(3) [OF M c']] p \<open>c \<noteq> a\<close> by auto
    fix k'' assume "((lookupKey h t)(k := None)) k'' = Some c"
    then show "k'' = k'" using mapOK_D(4) [OF M c', of k''] by (auto split: if_splits)
  qed
  moreover have "absentOK h t' (ts[i := ?p])"
    unfolding absentOK_def lk using updated_thread mapOK_D(5) [OF M] by fastforce
  ultimately show ?thesis by (simp add: mapOK_def)
qed

lemma mapOK_move:
  assumes OK: "perIPOK h lim t ts" and i: "i < length ts" and s: "tstep h lim e t (ts ! i) = Some (t', p)"
  shows "mapOK h t' (ts[i := p])"
proof -
  have M: "mapOK h t ts" and L: "lockOK h t ts" and R: "refsOK t ts" and O: "ownedOK h t ts"
    using OK by (simp_all add: perIPOK_def)
  note keep = mapOK_keep [OF M i] and key = tstep_lock(1) [OF s]
  have mem: "p \<in> set (ts[i := p])" by (simp add: i set_update_memI)
  show ?thesis
  proof (rule tstep_kinds [OF s kinds_apply(1,2) [OF OK i]])
    assume q: "lookupKey h t' = lookupKey h t" "refersTo p = refersTo (ts ! i)"
      "length (ttEntries t') = length (ttEntries t)"
      "knowsAbsent p \<longrightarrow> knowsAbsent (ts ! i) \<or> lookupKey h t (keyOf (ts ! i)) = None"
    show ?thesis
    proof (rule keep [OF q(1,3)])
      fix a assume "refersTo p = Some a"
      then show "lookupKey h t (keyOf p) = Some a" using mapOK_D(1) [OF M nth_mem [OF i]] q(2) key by simp
    next
      fix a assume "refersTo (ts ! i) = Some a"
      then show "\<exists>q \<in> set (ts[i := p]). refersTo q = Some a" using mem q(2) by force
    next
      assume "knowsAbsent p"
      then show "lookupKey h t (keyOf p) = None" using mapOK_D(5) [OF M nth_mem [OF i]] q(4) key by auto
    qed
  next
    fix k a assume "ts ! i = Looking k" "p = UnlockGot k a" "lookupKey h t k = Some a"
      "t' = setEntry a (\<lambda>e. e\<lparr>teRefs := teRefs e + 1\<rparr>) t"
    then show ?thesis by (intro keep) simp_all
  next
    fix k assume a: "ts ! i = Allocating k" "p = UnlockGot k (length (ttEntries t))"
      "t' = setKey h k (Some (length (ttEntries t))) (t\<lparr>ttEntries := ttEntries t @ [freshEntry lim]\<rparr>)"
    show ?thesis unfolding a(2) by (rule mapOK_insert [OF M L i a(1)]) (simp_all add: a(3) new_unmapped [OF M])
  next
    fix k j assume a: "ts ! i = Allocating k" "j < length (ttPool t)" "p = UnlockGot k (ttPool t ! j)"
      "t' = setKey h k (Some (ttPool t ! j)) (setEntry (ttPool t ! j) (\<lambda>e. e\<lparr>teRefs := 1\<rparr>)
              (t\<lparr>ttPool := take j (ttPool t) @ drop (Suc j) (ttPool t)\<rparr>))"
    have "ttPool t ! j < length (ttEntries t)" using O nth_mem [OF a(2)] by (simp add: ownedOK_def)
    then show ?thesis unfolding a(3)
      by (intro mapOK_insert [OF M L i a(1)]) (simp_all add: a(4) pool_unmapped(1) [OF O nth_mem [OF a(2)], simplified])
  next
    fix k a b assume l: "ts ! i = Decrementing k a b" "p = DecUnlocking k a b False" "teRefs (ttEntries t ! a) \<noteq> 1"
      "t' = setEntry a (\<lambda>e. e\<lparr>teRefs := teRefs e - 1\<rparr>) t"
    show ?thesis
    proof (rule keep)
      fix c assume c: "refersTo (ts ! i) = Some c"
      then have ca: "c = a" using l(1) by simp
      have "a < length (ttEntries t)" using kinds_apply(2) [OF OK i] c ca by blast
      then have "int (countIf (\<lambda>p. refersTo p = Some a) ts) \<noteq> 1" "countIf (\<lambda>p. refersTo p = Some a) ts > 0"
        using R l(1,3) countIf_pos [OF i, of "\<lambda>p. refersTo p = Some a"] by (simp_all add: refsOK_def)
      then have "countIf (\<lambda>p. refersTo p = Some a) (ts[i := p]) \<noteq> 0"
        using countIf_update [OF i, of "\<lambda>p. refersTo p = Some a" p] l(1,2) by simp
      then show "\<exists>q \<in> set (ts[i := p]). refersTo q = Some c" using ca by (simp add: countIf_zero)
    qed (use l in simp_all)
  next
    fix k a b assume l: "ts ! i = Decrementing k a b" "p = DecUnlocking k a b True" "teRefs (ttEntries t ! a) = 1"
      "t' = setKey h k None (setEntry a (\<lambda>e. e\<lparr>teRefs := teRefs e - 1\<rparr>) t)"
    show ?thesis unfolding l(2) by (rule mapOK_remove [OF M R i l(1,3)]) (simp_all add: l(4))
  next
    fix k a b assume "ts ! i = Recycling k a b" "t' = t\<lparr>ttPool := a # ttPool t\<rparr>" "refersTo p = None" "\<not> knowsAbsent p"
    then show ?thesis by (intro keep) simp_all
  qed
qed

section \<open>Ownership\<close>

definition owners :: "hashKey \<Rightarrow> throttleTable \<Rightarrow> tphase list \<Rightarrow> nat \<Rightarrow> nat" where
  "owners h t ts a =
     countIf (\<lambda>x. x = a) (ttPool t) + countIf (\<lambda>p. removedBy p = Some a) ts
       + (if \<exists>k. lookupKey h t k = Some a then 1 else 0)"

lemma ownedOK_owners:
  "ownedOK h t ts \<longleftrightarrow>
     (\<forall>a. owners h t ts a \<le> 1) \<and> (\<forall>a \<in> set (ttPool t). a < length (ttEntries t))
     \<and> (\<forall>p \<in> set ts. \<forall>a. removedBy p = Some a \<longrightarrow> a < length (ttEntries t))"
  by (simp add: ownedOK_def owners_def)

lemma ownedOK_move:
  assumes OK: "perIPOK h lim t ts" and i: "i < length ts" and s: "tstep h lim e t (ts ! i) = Some (t', p)"
  shows "ownedOK h t' (ts[i := p])"
proof -
  have M: "mapOK h t ts" and O: "ownedOK h t ts" using OK by (simp_all add: perIPOK_def)
  have o1: "owners h t ts a \<le> 1" for a using O by (simp add: ownedOK_owners)
  have pool: "\<forall>a \<in> set (ttPool t). a < length (ttEntries t)" using O by (simp add: ownedOK_owners)
  have rem: "removedBy q = Some a \<Longrightarrow> q \<in> set ts \<Longrightarrow> a < length (ttEntries t)" for q a
    using O by (simp add: ownedOK_owners)
  have c: "countIf (\<lambda>p. removedBy p = Some a) (ts[i := p]) + (if removedBy (ts ! i) = Some a then 1 else 0)
      = countIf (\<lambda>p. removedBy p = Some a) ts + (if removedBy p = Some a then 1 else 0)" for a
    by (rule countIf_update [OF i])
  have rem': "\<forall>q \<in> set (ts[i := p]). \<forall>a. removedBy q = Some a \<longrightarrow> a < n"
    if "\<And>a. removedBy p = Some a \<Longrightarrow> a < length (ttEntries t)" "length (ttEntries t) \<le> n" for n
  proof (intro ballI allI impI)
    fix q a assume "q \<in> set (ts[i := p])" "removedBy q = Some a"
    then have "a < length (ttEntries t)" using updated_thread [of q ts i p] rem [of q a] that(1) [of a] by auto
    then show "a < n" using that(2) by simp
  qed
  show ?thesis
  proof (rule tstep_kinds [OF s kinds_apply(1,2) [OF OK i]])
    assume q: "lookupKey h t' = lookupKey h t" "removedBy p = removedBy (ts ! i)" "ttPool t' = ttPool t"
      "length (ttEntries t') = length (ttEntries t)"
    have "owners h t' (ts[i := p]) a = owners h t ts a" for a
      using c [of a] q by (simp add: owners_def)
    then show ?thesis
      using o1 pool q rem' [of "length (ttEntries t)"] rem [OF _ nth_mem [OF i]] by (simp add: ownedOK_owners)
  next
    fix k a assume q: "ts ! i = Looking k" "p = UnlockGot k a" "lookupKey h t k = Some a"
      "t' = setEntry a (\<lambda>e. e\<lparr>teRefs := teRefs e + 1\<rparr>) t"
    have "owners h t' (ts[i := p]) b = owners h t ts b" for b
      using c [of b] q by (simp add: owners_def)
    then show ?thesis
      using o1 pool q rem' [of "length (ttEntries t)"] by (simp add: ownedOK_owners)
  next
    fix k assume q: "ts ! i = Allocating k" "p = UnlockGot k (length (ttEntries t))"
      "t' = setKey h k (Some (length (ttEntries t))) (t\<lparr>ttEntries := ttEntries t @ [freshEntry lim]\<rparr>)"
    let ?n = "length (ttEntries t)"
    have none: "lookupKey h t k = None" using mapOK_D(5) [OF M nth_mem [OF i]] q(1) by simp
    have "countIf (\<lambda>x. x = ?n) (ttPool t) = 0" using pool by (auto simp: countIf_zero)
    moreover have "countIf (\<lambda>p. removedBy p = Some ?n) ts = 0" using rem by (auto simp: countIf_zero)
    ultimately have "owners h t' (ts[i := p]) b \<le> 1" for b
      using c [of b] o1 [of b] q none by (cases "b = ?n") (auto simp: owners_def split: if_splits)
    then show ?thesis
      using pool q rem' [of "Suc ?n"] by (auto simp: ownedOK_owners less_SucI)
  next
    fix k j assume q: "ts ! i = Allocating k" "j < length (ttPool t)" "p = UnlockGot k (ttPool t ! j)"
      "t' = setKey h k (Some (ttPool t ! j)) (setEntry (ttPool t ! j) (\<lambda>e. e\<lparr>teRefs := 1\<rparr>)
              (t\<lparr>ttPool := take j (ttPool t) @ drop (Suc j) (ttPool t)\<rparr>))"
    have none: "lookupKey h t k = None" using mapOK_D(5) [OF M nth_mem [OF i]] q(1) by simp
    note u = pool_unmapped [OF O nth_mem [OF q(2)]]
    have d: "countIf (\<lambda>x. x = b) (take j (ttPool t) @ drop (Suc j) (ttPool t)) + (if ttPool t ! j = b then 1 else 0)
        = countIf (\<lambda>x. x = b) (ttPool t)" for b by (rule countIf_take_drop [OF q(2)])
    have r0: "countIf (\<lambda>p. removedBy p = Some (ttPool t ! j)) ts = 0" using u(3) by (simp add: countIf_zero)
    have "owners h t' (ts[i := p]) b \<le> 1" for b
    proof (cases "b = ttPool t ! j")
      case True
      then show ?thesis using c [of b] d [of b] u(2) r0 q by (simp add: owners_def)
    next
      case False
      then show ?thesis
        using c [of b] d [of b] o1 [of b] q none by (auto simp: owners_def split: if_splits)
    qed
    moreover have "\<forall>a \<in> set (take j (ttPool t) @ drop (Suc j) (ttPool t)). a < length (ttEntries t)"
      using pool by (auto dest: in_set_takeD in_set_dropD)
    ultimately show ?thesis using q rem' [of "length (ttEntries t)"] by (simp add: ownedOK_owners)
  next
    fix k a b assume q: "ts ! i = Decrementing k a b" "p = DecUnlocking k a b False"
      "t' = setEntry a (\<lambda>e. e\<lparr>teRefs := teRefs e - 1\<rparr>) t"
    have "owners h t' (ts[i := p]) x = owners h t ts x" for x
      using c [of x] q by (simp add: owners_def)
    then show ?thesis
      using o1 pool q rem' [of "length (ttEntries t)"] by (simp add: ownedOK_owners)
  next
    fix k a b assume q: "ts ! i = Decrementing k a b" "p = DecUnlocking k a b True" "teRefs (ttEntries t ! a) = 1"
      "t' = setKey h k None (setEntry a (\<lambda>e. e\<lparr>teRefs := teRefs e - 1\<rparr>) t)"
    have ka: "lookupKey h t k = Some a" using mapOK_D(1) [OF M nth_mem [OF i], of a] q(1) by simp
    have only: "\<not> (\<exists>k'. ((lookupKey h t)(k := None)) k' = Some a)" using mapOK_D(4) [OF M ka] by (auto split: if_splits)
    have "owners h t' (ts[i := p]) x \<le> 1" for x
    proof (cases "x = a")
      case True
      then show ?thesis using c [of x] o1 [of x] q ka only by (auto simp: owners_def split: if_splits)
    next
      case False
      then show ?thesis using c [of x] o1 [of x] q by (auto simp: owners_def split: if_splits)
    qed
    then show ?thesis
      using pool q rem' [of "length (ttEntries t)"] mapOK_D(2) [OF M ka] by (simp add: ownedOK_owners)
  next
    fix k a b assume q: "ts ! i = Recycling k a b" "t' = t\<lparr>ttPool := a # ttPool t\<rparr>" "removedBy p = None"
    have "lookupKey h (t\<lparr>ttPool := a # ttPool t\<rparr>) = lookupKey h t" by simp
    then have "owners h t' (ts[i := p]) x = owners h t ts x" for x
      using c [of x] q by (auto simp: owners_def)
    then show ?thesis
      using o1 pool q rem' [of "length (ttEntries t)"] rem [OF _ nth_mem [OF i], of a] by (simp add: ownedOK_owners)
  qed
qed

section \<open>Size\<close>

definition rolling :: "tphase \<Rightarrow> bool" where
  "rolling p \<longleftrightarrow> (\<exists>k. p = RollingBack k)"

lemma tstep_size_other:
  assumes "tstep h lim e t p = Some (t', p')" "\<And>k. p \<noteq> Reserving k" "\<And>k. p \<noteq> RollingBack k" "\<And>k. p \<noteq> Allocating k"
    "\<And>k a b. p \<noteq> Decrementing k a b" "\<And>k a b. p \<noteq> Shrinking k a b"
  shows "lookupKey h t' = lookupKey h t \<and> ttSize t' = ttSize t \<and> ttMax t' = ttMax t
    \<and> (ttMax t > 0 \<longrightarrow> counted p' = counted p) \<and> \<not> rolling p'
    \<and> ((\<exists>k. p' = Reserving k) \<longrightarrow> ttMax t > 0)"
  using assms
  by (cases p; cases e)
    (simp_all add: takeToken_quiet rolling_def Let_def split: if_splits option.splits, auto simp: takeToken_quiet)

text \<open>How the number of keys and the counter move.\<close>

definition sizeCounts :: "hashKey \<Rightarrow> throttleTable \<Rightarrow> tphase list \<Rightarrow> bool" where
  "sizeCounts h t ts \<longleftrightarrow>
     finite (keys h t)
     \<and> (ttMax t > 0 \<longrightarrow>
          ttSize t = int (card (keys h t) + countIf counted ts)
          \<and> ttSize t - int (countIf rolling ts) \<le> ttMax t)"

lemma sizeOK_iff:
  "sizeOK h t ts \<longleftrightarrow> sizeCounts h t ts
     \<and> (\<forall>k. (Reserving k \<in> set ts \<or> RollingBack k \<in> set ts) \<longrightarrow> ttMax t > 0)"
  unfolding sizeOK_def sizeCounts_def rolling_def by simp

lemma keys_update:
  "lookupKey h t' = (lookupKey h t)(k := v) \<Longrightarrow>
     keys h t' = (case v of None \<Rightarrow> keys h t - {k} | Some a \<Rightarrow> insert k (keys h t))"
  by (auto simp: keys_def split: option.splits)

lemma sizeCounts_move:
  assumes OK: "perIPOK h lim t ts" and i: "i < length ts" and s: "tstep h lim e t (ts ! i) = Some (t', p)"
  shows "sizeCounts h t' (ts[i := p]) \<and> ttMax t' = ttMax t"
proof -
  have M: "mapOK h t ts" and S: "sizeCounts h t ts" using OK by (simp_all add: perIPOK_def sizeOK_iff)
  have S': "(\<exists>k. ts ! i = Reserving k \<or> ts ! i = RollingBack k) \<Longrightarrow> ttMax t > 0"
    using OK nth_mem [OF i] unfolding perIPOK_def sizeOK_iff by metis
  note c = countIf_update [OF i, of counted p] countIf_update [OF i, of rolling p]
  consider (res) k where "ts ! i = Reserving k" | (roll) k where "ts ! i = RollingBack k"
    | (alloc) k where "ts ! i = Allocating k" | (dec) k a b where "ts ! i = Decrementing k a b"
    | (shr) k a b where "ts ! i = Shrinking k a b"
    | (other) "\<And>k. ts ! i \<noteq> Reserving k" "\<And>k. ts ! i \<noteq> RollingBack k" "\<And>k. ts ! i \<noteq> Allocating k"
        "\<And>k a b. ts ! i \<noteq> Decrementing k a b" "\<And>k a b. ts ! i \<noteq> Shrinking k a b"
    by (cases "ts ! i") auto
  then show ?thesis
  proof cases
    case res
    have k: "keys h (t\<lparr>ttSize := n\<rparr>) = keys h t" for n by (simp add: keys_def)
    show ?thesis using s S S' c res k by (cases e) (auto simp: sizeCounts_def rolling_def split: if_splits)
  next
    case roll
    have k: "keys h (t\<lparr>ttSize := n\<rparr>) = keys h t" for n by (simp add: keys_def)
    show ?thesis using s S S' c roll k by (cases e) (auto simp: sizeCounts_def rolling_def split: if_splits)
  next
    case alloc
    have none: "k \<notin> keys h t" using mapOK_D(5) [OF M nth_mem [OF i]] alloc by (simp add: keys_def)
    have "\<exists>a. lookupKey h t' = (lookupKey h t)(k \<mapsto> a) \<and> ttSize t' = ttSize t \<and> ttMax t' = ttMax t \<and> p = UnlockGot k a"
      using tstep_allocating [OF s [unfolded alloc] kinds_apply(1) [OF OK i]] by auto
    then obtain a where a: "lookupKey h t' = (lookupKey h t)(k \<mapsto> a)" "ttSize t' = ttSize t" "ttMax t' = ttMax t"
        "p = UnlockGot k a" by blast
    show ?thesis
      using S c alloc none a(2-4) keys_update [OF a(1)]
      by (cases "ttMax t > 0") (simp_all add: sizeCounts_def rolling_def)
  next
    case dec
    have ka: "lookupKey h t k = Some a" using mapOK_D(1) [OF M nth_mem [OF i], of a] dec by simp
    then have "k \<in> keys h t" by (simp add: keys_def)
    moreover have "finite (keys h t)" using S by (simp add: sizeCounts_def)
    ultimately have cd: "card (keys h t) = Suc (card (keys h t - {k}))" using card.remove [of "keys h t" k] by blast
    from tstep_decrementing [OF s [unfolded dec] mapOK_D(2) [OF M ka]] show ?thesis
    proof (elim disjE conjE)
      assume d: "p = DecUnlocking k a b False" "t' = setEntry a (\<lambda>e. e\<lparr>teRefs := teRefs e - 1\<rparr>) t"
      then have "keys h t' = keys h t" by (simp add: keys_def)
      then show ?thesis using S c dec d by (cases "ttMax t > 0") (simp_all add: sizeCounts_def rolling_def)
    next
      assume d: "p = DecUnlocking k a b True" "t' = setKey h k None (setEntry a (\<lambda>e. e\<lparr>teRefs := teRefs e - 1\<rparr>) t)"
      then have "keys h t' = keys h t - {k}" using keys_update [of h t' t k None] by simp
      then show ?thesis using S c dec d cd by (cases "ttMax t > 0") (simp_all add: sizeCounts_def rolling_def)
    qed
  next
    case shr
    have k: "keys h (t\<lparr>ttSize := n\<rparr>) = keys h t" for n by (simp add: keys_def)
    show ?thesis using s S c shr k by (cases e) (auto simp: sizeCounts_def rolling_def split: if_splits)
  next
    case other
    note o = tstep_size_other [OF s other]
    then have "keys h t' = keys h t" by (simp add: keys_def)
    moreover have "\<not> rolling (ts ! i)" using other(2) by (simp add: rolling_def)
    ultimately show ?thesis using S c o by (auto simp: sizeCounts_def split: if_splits)
  qed
qed

lemma sizeOK_move:
  assumes OK: "perIPOK h lim t ts" and i: "i < length ts" and s: "tstep h lim e t (ts ! i) = Some (t', p)"
  shows "sizeOK h t' (ts[i := p])"
proof -
  have old: "(\<forall>k. (Reserving k \<in> set ts \<or> RollingBack k \<in> set ts) \<longrightarrow> ttMax t > 0)"
    using OK by (simp add: perIPOK_def sizeOK_iff)
  have new: "ttMax t > 0" if "p = Reserving k \<or> p = RollingBack k" for k
    using that s old nth_mem [OF i] by (cases "ts ! i"; cases e) (auto simp: Let_def split: if_splits option.splits prod.splits)
  have mem: "q \<in> set (ts[i := p]) \<Longrightarrow> q = p \<or> q \<in> set ts" for q by (rule updated_thread)
  show ?thesis
    unfolding sizeOK_iff using sizeCounts_move [OF OK i s] old new mem by metis
qed

section \<open>All interleavings\<close>

theorem perIP_invariant:
  "perIP h lim maxSize t ts \<Longrightarrow> perIPOK h lim t ts \<and> ttMax t = maxSize \<and> lim > 0"
proof (induction rule: perIP.induct)
  case (built t)
  then have t: "t = newThrottleTable maxSize" and l: "lim > 0"
    by (auto simp: throttlePerIPCapped_def split: if_splits)
  have "lookupKey h t k = None" for k by (simp add: t lookupKey_def newThrottleTable_def)
  then show ?case
    using l by (simp add: perIPOK_def lockOK_def entriesOK_def refsOK_def mapOK_def refsMapped_def mappedOK_def
        absentOK_def ownedOK_def sizeOK_def keys_def t newThrottleTable_def)
next
  case (arrive t ts k)
  then have OK: "perIPOK h lim t ts" by blast
  have "lockOK h t (ts @ [Locking k])" "entriesOK lim t (ts @ [Locking k])" "refsOK t (ts @ [Locking k])"
    "ownedOK h t (ts @ [Locking k])" "sizeOK h t (ts @ [Locking k])"
    using OK by (auto simp: perIPOK_def lockOK_def lockedBy_def entriesOK_def refsOK_def ownedOK_def sizeOK_def)
  moreover have "mapOK h t (ts @ [Locking k])"
    using OK unfolding perIPOK_def mapOK_def refsMapped_def mappedOK_def absentOK_def by force
  ultimately show ?case using arrive.IH by (simp add: perIPOK_def)
next
  case (move t ts i e t' p)
  then have OK: "perIPOK h lim t ts" by blast
  have "lockOK h t' (ts[i := p])"
    using lockOK_move [OF _ move.hyps(2,3)] OK by (simp add: perIPOK_def)
  then show ?case
    using OK move.IH entriesOK_move [OF OK move.hyps(2,3)] refsOK_move [OF OK move.hyps(2,3)]
      mapOK_move [OF OK move.hyps(2,3)] ownedOK_move [OF OK move.hyps(2,3)] sizeOK_move [OF OK move.hyps(2,3)]
      sizeCounts_move [OF OK move.hyps(2,3)]
    by (simp add: perIPOK_def)
qed

section \<open>What the invariant gives\<close>

text \<open>Requests that run with one key hold tokens of one channel, of which there are \<open>lim\<close>.\<close>

lemma running_bounded:
  assumes "perIPOK h lim t ts"
  shows "int (countIf (\<lambda>p. tokenOf p \<noteq> None \<and> keyOf p = k) ts) \<le> max 0 lim"
proof (cases "\<exists>p \<in> set ts. tokenOf p \<noteq> None \<and> keyOf p = k")
  case True
  have M: "mapOK h t ts" and E: "entriesOK lim t ts" using assms by (simp_all add: perIPOK_def)
  have tr: "tokenOf q = Some a \<Longrightarrow> refersTo q = Some a" for q a by (cases q) auto
  obtain p a where p: "p \<in> set ts" "tokenOf p = Some a" "keyOf p = k" using True by auto
  have ka: "lookupKey h t k = Some a" using mapOK_D(1) [OF M p(1) tr [OF p(2)]] p(3) by simp
  have "q \<in> set ts \<Longrightarrow> tokenOf q \<noteq> None \<and> keyOf q = k \<Longrightarrow> tokenOf q = Some a" for q
    using mapOK_D(1) [OF M _ tr] ka by fastforce
  then have "countIf (\<lambda>p. tokenOf p \<noteq> None \<and> keyOf p = k) ts \<le> countIf (\<lambda>p. tokenOf p = Some a) ts"
    by (induction ts) auto
  moreover have "teTokens (ttEntries t ! a) + countIf (\<lambda>p. tokenOf p = Some a) ts = nat lim"
    using E mapOK_D(2) [OF M ka] by (auto simp: entriesOK_def)
  ultimately show ?thesis by linarith
next
  case False
  then have "countIf (\<lambda>p. tokenOf p \<noteq> None \<and> keyOf p = k) ts = 0" by (simp add: countIf_zero)
  then show ?thesis by simp
qed

lemma table_bounded:
  assumes "perIPOK h lim t ts" "ttMax t > 0"
  shows "int (card (keys h t)) \<le> ttMax t" "finite (keys h t)"
proof -
  have s: "sizeOK h t ts" using assms(1) by (simp add: perIPOK_def)
  have "countIf (\<lambda>p. \<exists>k. p = RollingBack k) ts \<le> countIf counted ts" by (rule countIf_mono) auto
  then show "int (card (keys h t)) \<le> ttMax t" using s assms(2) by (auto simp: sizeOK_def)
  show "finite (keys h t)" using s by (simp add: sizeOK_def)
qed

text \<open>A request refused because the table is full was refused when every slot was taken.\<close>

definition atRest :: "tphase \<Rightarrow> bool" where
  "atRest p \<longleftrightarrow> (\<exists>k. p = Served k \<or> p = Refused k)"

lemma empty_at_rest:
  assumes "perIPOK h lim t ts" "\<forall>p \<in> set ts. atRest p"
  shows "keys h t = {}" "ttMax t > 0 \<Longrightarrow> ttSize t = 0" "\<not> ttLocked t sh"
    "\<forall>a < length (ttEntries t). teTokens (ttEntries t ! a) = teCap (ttEntries t ! a) \<and> teRefs (ttEntries t ! a) = 0"
proof -
  have r: "p \<in> set ts \<Longrightarrow> refersTo p = None \<and> tokenOf p = None \<and> \<not> counted p \<and> \<not> locks p" for p
    using assms(2) by (auto simp: atRest_def)
  have M: "mapOK h t ts" using assms(1) by (simp add: perIPOK_def)
  show k: "keys h t = {}"
    using mapOK_D(3) [OF M] r by (fastforce simp: keys_def)
  have "countIf counted ts = 0" using r by (simp add: countIf_zero)
  then show "ttMax t > 0 \<Longrightarrow> ttSize t = 0" using assms(1) k by (simp add: perIPOK_def sizeOK_def)
  have "countIf (lockedBy h sh) ts = 0" using r by (simp add: countIf_zero lockedBy_def)
  moreover have "countIf (lockedBy h sh) ts = (if ttLocked t sh then 1 else 0)"
    using assms(1) by (simp add: perIPOK_def lockOK_def)
  ultimately show "\<not> ttLocked t sh" by (cases "ttLocked t sh") simp_all
  have "countIf (\<lambda>p. tokenOf p = Some a) ts = 0" "countIf (\<lambda>p. refersTo p = Some a) ts = 0" for a
    using r by (auto simp: countIf_zero)
  then show "\<forall>a < length (ttEntries t). teTokens (ttEntries t ! a) = teCap (ttEntries t ! a) \<and> teRefs (ttEntries t ! a) = 0"
    using assms(1) by (simp add: perIPOK_def entriesOK_def refsOK_def)
qed

end
