(* ===== verification/MiddlewareBase.thy ===== *)
theory MiddlewareBase
  imports Handlers
begin

text \<open>
  What the middleware package uses of the standard library: header names and values, trimming and
  splitting of strings, context values, and \<open>strconv.QuoteToASCII\<close>.
\<close>

section \<open>Bytes and strings\<close>

abbreviation quoteMark :: char where
  "quoteMark \<equiv> char_of (34 :: nat)"

abbreviation backslash :: char where
  "backslash \<equiv> char_of (92 :: nat)"

definition carriageReturn :: char where
  "carriageReturn = char_of (13 :: nat)"

definition lineFeed :: char where
  "lineFeed = char_of (10 :: nat)"

definition lowerByte :: "char \<Rightarrow> char" where
  "lowerByte c = (if 65 \<le> byteOf c \<and> byteOf c \<le> 90 then char_of (byteOf c + 32) else c)"

definition upperByte :: "char \<Rightarrow> char" where
  "upperByte c = (if 97 \<le> byteOf c \<and> byteOf c \<le> 122 then char_of (byteOf c - 32) else c)"

text \<open>
  \<open>strings.EqualFold\<close> against a constant without the letters k and s: no rune outside ASCII
  folds to any other letter, so it is the comparison of the lower-case bytes.
\<close>

definition equalFold :: "string \<Rightarrow> string \<Rightarrow> bool" where
  "equalFold s t \<longleftrightarrow> map lowerByte s = map lowerByte t"

text \<open>
  \<open>strings.TrimSpace\<close>: the white space of Unicode as byte sequences. A sequence is removed from
  the left if the string starts with it and from the right if it ends with it.
\<close>

definition bytes :: "nat list \<Rightarrow> string" where
  "bytes ns = map char_of ns"

definition spaces :: "string list" where
  "spaces = map bytes
     ([[9], [10], [11], [12], [13], [32], [194, 133], [194, 160], [225, 154, 128],
       [226, 128, 168], [226, 128, 169], [226, 128, 175], [226, 129, 159], [227, 128, 128]]
      @ map (\<lambda>n. [226, 128, n]) [128 ..< 139])"

definition leadingSpace :: "string \<Rightarrow> nat" where
  "leadingSpace s = (case List.find (hasPrefix s) spaces of None \<Rightarrow> 0 | Some sp \<Rightarrow> length sp)"

definition trailingSpace :: "string \<Rightarrow> nat" where
  "trailingSpace s = (case List.find (hasSuffix s) spaces of None \<Rightarrow> 0 | Some sp \<Rightarrow> length sp)"

fun trimLeft :: "string \<Rightarrow> string" where
  "trimLeft [] = []"
| "trimLeft (c # s) = (case leadingSpace (c # s) of 0 \<Rightarrow> c # s | Suc n \<Rightarrow> trimLeft (drop n s))"

function trimRightSpace :: "string \<Rightarrow> string" where
  "trimRightSpace s =
     (if s = [] \<or> trailingSpace s = 0 then s
      else trimRightSpace (take (length s - trailingSpace s) s))"
  by pat_completeness auto
termination by (relation "measure length") auto

definition trimSpace :: "string \<Rightarrow> string" where
  "trimSpace s = trimRightSpace (trimLeft s)"

text \<open>The parts of \<open>strings.Split(s, sep)\<close> for a byte, which the loops over \<open>strings.Cut\<close> walk.\<close>

fun splitByte :: "char \<Rightarrow> string \<Rightarrow> string list" where
  "splitByte c [] = [[]]"
| "splitByte c (x # s) =
     (if x = c then [] # splitByte c s
      else case splitByte c s of [] \<Rightarrow> [[x]] | p # ps \<Rightarrow> (x # p) # ps)"

lemma splitByte_ne: "splitByte c s \<noteq> []"
  by (induction s) (auto split: list.splits)

lemma splitByte_cut:
  "splitByte c s = (case cutByte s c of (a, b, z) \<Rightarrow> if z then a # splitByte c b else [a])"
  by (induction s) (auto split: prod.splits list.splits)

section \<open>Headers\<close>

definition tokenByte :: "char \<Rightarrow> bool" where
  "tokenByte c \<longleftrightarrow>
     48 \<le> byteOf c \<and> byteOf c \<le> 57 \<or> 65 \<le> byteOf c \<and> byteOf c \<le> 90 \<or> 97 \<le> byteOf c \<and> byteOf c \<le> 122
     \<or> c \<in> set (bytes [33, 35, 36, 37, 38, 39, 42, 43, 45, 46, 94, 95, 96, 124, 126])"

fun canonLoop :: "bool \<Rightarrow> string \<Rightarrow> string" where
  "canonLoop upper [] = []"
| "canonLoop upper (c # s) =
     (let c' = (if upper then upperByte c else lowerByte c) in c' # canonLoop (c' = CHR ''-'') s)"

text \<open>\<open>http.CanonicalHeaderKey\<close>: a name with a byte that no header name has stays as it is.\<close>

definition canonicalHeaderKey :: "string \<Rightarrow> string" where
  "canonicalHeaderKey s = (if list_all tokenByte s then canonLoop True s else s)"

text \<open>\<open>Header.Get\<close>, \<open>Set\<close>, \<open>Add\<close> and \<open>Del\<close>; a header present with no value reads as empty.\<close>

definition headerGet :: "headers \<Rightarrow> string \<Rightarrow> string" where
  "headerGet h key = (case h (canonicalHeaderKey key) of Some (v # vs) \<Rightarrow> v | _ \<Rightarrow> [])"

definition headerSet :: "string \<Rightarrow> string \<Rightarrow> 'w rw \<Rightarrow> 'w rw" where
  "headerSet key v w = setHeader (canonicalHeaderKey key) [v] w"

definition headerAdd :: "string \<Rightarrow> string \<Rightarrow> 'w rw \<Rightarrow> 'w rw" where
  "headerAdd key v w =
     setHeader (canonicalHeaderKey key)
       ((case wHeader w (canonicalHeaderKey key) of None \<Rightarrow> [] | Some vs \<Rightarrow> vs) @ [v]) w"

definition headerDel :: "string \<Rightarrow> 'w rw \<Rightarrow> 'w rw" where
  "headerDel key w = delHeader (canonicalHeaderKey key) w"

section \<open>Context values\<close>

text \<open>\<open>ctx.Value(key)\<close> for a key that is not one of the router's own.\<close>

fun contextValue :: "ctxKey \<Rightarrow> ctx \<Rightarrow> ctxValue option" where
  "contextValue key Background = None"
| "contextValue key (RequestCtx1 c pat p) = contextValue key c"
| "contextValue key (RequestCtx2 c pat p q) = contextValue key c"
| "contextValue key (RequestCtx c ps pat) = contextValue key c"
| "contextValue key (MountPrefixCtx c pre) = contextValue key c"
| "contextValue key (RedirectCtx c t k) = contextValue key c"
| "contextValue key (ValueCtx c k v) = (if k = key then Some v else contextValue key c)"
| "contextValue key (TimerCtx c d) = contextValue key c"

section \<open>Quoting for logs\<close>

text \<open>
  \<open>utf8.DecodeRuneInString\<close>: the rune and its width; an invalid sequence is the replacement
  character with width 1.
\<close>

definition runeError :: nat where
  "runeError = 65533"

definition decodeRune :: "string \<Rightarrow> nat \<times> nat" where
  "decodeRune s =
     (case s of
        [] \<Rightarrow> (runeError, 0)
      | c # s1 \<Rightarrow>
          let b = byteOf c; cont = (\<lambda>x. byteOf x mod 64) in
          if b < 128 then (b, 1)
          else if 194 \<le> b \<and> b \<le> 223 then
            (case s1 of
               c1 # _ \<Rightarrow> if contByte c1 then ((b mod 32) * 64 + cont c1, 2) else (runeError, 1)
             | _ \<Rightarrow> (runeError, 1))
          else if 224 \<le> b \<and> b \<le> 239 then
            (case s1 of
               c1 # c2 # _ \<Rightarrow>
                 if utf8Second b c1 \<and> contByte c2
                 then ((b mod 16) * 4096 + cont c1 * 64 + cont c2, 3) else (runeError, 1)
             | _ \<Rightarrow> (runeError, 1))
          else if 240 \<le> b \<and> b \<le> 244 then
            (case s1 of
               c1 # c2 # c3 # _ \<Rightarrow>
                 if utf8Second b c1 \<and> contByte c2 \<and> contByte c3
                 then ((b mod 8) * 262144 + cont c1 * 4096 + cont c2 * 64 + cont c3, 4) else (runeError, 1)
             | _ \<Rightarrow> (runeError, 1))
          else (runeError, 1))"

fun hexPad :: "nat \<Rightarrow> nat \<Rightarrow> string" where
  "hexPad 0 n = []"
| "hexPad (Suc k) n = hexPad k (n div 16) @ [lowerHex (n mod 16)]"

text \<open>\<open>appendEscapedRune\<close> with the double quote and \<open>ASCIIonly\<close>.\<close>

definition escapeRune :: "nat \<Rightarrow> string" where
  "escapeRune r =
     (if r = 34 \<or> r = 92 then [backslash, char_of r]
      else if 32 \<le> r \<and> r < 127 then [char_of r]
      else if r = 7 then [backslash, CHR ''a'']
      else if r = 8 then [backslash, CHR ''b'']
      else if r = 12 then [backslash, CHR ''f'']
      else if r = 10 then [backslash, CHR ''n'']
      else if r = 13 then [backslash, CHR ''r'']
      else if r = 9 then [backslash, CHR ''t'']
      else if r = 11 then [backslash, CHR ''v'']
      else if r < 32 \<or> r = 127 then [backslash, CHR ''x''] @ hexPad 2 r
      else if r < 65536 then [backslash, CHR ''u''] @ hexPad 4 r
      else [backslash, CHR ''U''] @ hexPad 8 r)"

lemma decodeRune_width: "s \<noteq> [] \<Longrightarrow> 1 \<le> snd (decodeRune s) \<and> snd (decodeRune s) \<le> length s"
  by (auto simp: decodeRune_def Let_def split: list.splits)

function quoteBody :: "string \<Rightarrow> string" where
  "quoteBody [] = []"
| "quoteBody (c # s) =
     (let (r, width) = decodeRune (c # s) in
      if width = 1 \<and> r = runeError
      then [backslash, CHR ''x''] @ hexPad 2 (byteOf c) @ quoteBody s
      else escapeRune r @ quoteBody (drop width (c # s)))"
  by pat_completeness auto
termination
proof (relation "measure length")
  fix c s x r width
  assume "x = decodeRune (c # s)" "(r, width) = x"
  then show "(drop width (c # s), c # s) \<in> measure length"
    using decodeRune_width [of "c # s"] by (metis One_nat_def diff_less in_measure length_drop length_greater_0_conv
        less_le_trans list.distinct(1) snd_conv zero_less_Suc)
qed auto

definition quoteToASCII :: "string \<Rightarrow> string" where
  "quoteToASCII s = [quoteMark] @ quoteBody s @ [quoteMark]"

end
