(* ===== verification/ClientAddr.thy ===== *)
theory ClientAddr
  imports MiddlewareBase
begin

text \<open>
  \<open>RealIP\<close> (middleware/real_ip.go) and the default key of \<open>ThrottlePerIP\<close> (middleware/throttle.go),
  with what they use of net/netip and net: parsing and printing of addresses, prefixes, and
  \<open>net.SplitHostPort\<close>.
\<close>

section \<open>Addresses\<close>

text \<open>An address is its bytes, four or sixteen, and for IPv6 a zone.\<close>

datatype ipAddr = V4 "nat list" | V6 "nat list" string

definition addrBytes :: "ipAddr \<Rightarrow> nat list" where
  "addrBytes a = (case a of V4 bs \<Rightarrow> bs | V6 bs z \<Rightarrow> bs)"

definition addrZone :: "ipAddr \<Rightarrow> string" where
  "addrZone a = (case a of V4 bs \<Rightarrow> [] | V6 bs z \<Rightarrow> z)"

definition withZone :: "string \<Rightarrow> ipAddr \<Rightarrow> ipAddr" where
  "withZone z a = (case a of V4 bs \<Rightarrow> V4 bs | V6 bs z' \<Rightarrow> V6 bs z)"

definition isDigit :: "char \<Rightarrow> bool" where
  "isDigit c \<longleftrightarrow> 48 \<le> byteOf c \<and> byteOf c \<le> 57"

text \<open>
  \<open>parseIPv4Fields\<close>: \<open>prev\<close> says whether the last byte was a dot (or there was none), \<open>octets\<close> are
  those before.
\<close>

fun ipv4Loop :: "string \<Rightarrow> bool \<Rightarrow> nat \<Rightarrow> nat \<Rightarrow> nat list \<Rightarrow> nat list option" where
  "ipv4Loop [] prev val digLen octets = (if length octets < 3 then None else Some (octets @ [val]))"
| "ipv4Loop (c # s) prev val digLen octets =
     (if isDigit c then
        (if digLen = 1 \<and> val = 0 then None
         else let val' = val * 10 + (byteOf c - 48) in
           if val' > 255 then None else ipv4Loop s False val' (digLen + 1) octets)
      else if c = CHR ''.'' then
        (if prev \<or> s = [] then None
         else if length octets = 3 then None
         else ipv4Loop s True 0 0 (octets @ [val]))
      else None)"

definition parseIPv4Fields :: "string \<Rightarrow> nat list option" where
  "parseIPv4Fields s = ipv4Loop s True 0 0 []"

definition hexVal :: "char \<Rightarrow> nat option" where
  "hexVal c =
     (let b = byteOf c in
      if 48 \<le> b \<and> b \<le> 57 then Some (b - 48)
      else if 97 \<le> b \<and> b \<le> 102 then Some (b - 87)
      else if 65 \<le> b \<and> b \<le> 70 then Some (b - 55)
      else None)"

text \<open>The digits of one group: their number, their value and the rest, or an overlong group.\<close>

fun hexGroup :: "string \<Rightarrow> nat \<Rightarrow> nat \<Rightarrow> (nat \<times> nat \<times> string) option" where
  "hexGroup [] off acc = Some (off, acc, [])"
| "hexGroup (c # s) off acc =
     (case hexVal c of
        None \<Rightarrow> Some (off, acc, c # s)
      | Some v \<Rightarrow>
          let acc' = acc * 16 + v in
          if off > 3 then None else if acc' > 65535 then None else hexGroup s (off + 1) acc')"

lemma hexGroup_rest: "hexGroup s off acc = Some (n, v, rest) \<Longrightarrow> length rest + n = length s + off \<and> off \<le> n"
  by (induction s arbitrary: off acc) (fastforce split: option.splits if_splits simp: Let_def)+

text \<open>
  The loop over the groups: the bytes so far and the position of the ellipsis. The result is the
  bytes, the ellipsis and what was not read.
\<close>

function ipv6Loop :: "string \<Rightarrow> nat list \<Rightarrow> nat option \<Rightarrow> (nat list \<times> nat option \<times> string) option" where
  "ipv6Loop s ip ellipsis =
     (if length ip \<ge> 16 then Some (ip, ellipsis, s)
      else case hexGroup s 0 0 of
        None \<Rightarrow> None
      | Some (off, acc, rest) \<Rightarrow>
          if off = 0 then None
          else if rest \<noteq> [] \<and> hd rest = CHR ''.'' then
            (if ellipsis = None \<and> length ip \<noteq> 12 then None
             else if length ip + 4 > 16 then None
             else map_option (\<lambda>fs. (ip @ fs, ellipsis, [])) (parseIPv4Fields s))
          else
            let ip' = ip @ [acc div 256, acc mod 256] in
            (case rest of
               [] \<Rightarrow> Some (ip', ellipsis, [])
             | c # rest1 \<Rightarrow>
                 if c \<noteq> CHR '':'' then None
                 else (case rest1 of
                   [] \<Rightarrow> None
                 | d # rest2 \<Rightarrow>
                     if d = CHR '':'' then
                       (if ellipsis \<noteq> None then None
                        else if rest2 = [] then Some (ip', Some (length ip'), [])
                        else ipv6Loop rest2 ip' (Some (length ip')))
                     else ipv6Loop rest1 ip' ellipsis)))"
  by pat_completeness auto
termination by (relation "measure (\<lambda>(s, ip, e). length s)") (auto dest!: hexGroup_rest)

declare ipv6Loop.simps [simp del]

definition expandEllipsis :: "nat list \<Rightarrow> nat option \<Rightarrow> nat list option" where
  "expandEllipsis ip ellipsis =
     (if length ip < 16 then
        (case ellipsis of
           None \<Rightarrow> None
         | Some e \<Rightarrow> Some (take e ip @ replicate (16 - length ip) 0 @ drop e ip))
      else if ellipsis \<noteq> None then None
      else Some ip)"

definition parseIPv6 :: "string \<Rightarrow> ipAddr option" where
  "parseIPv6 input =
     (let (s, zone, z) = cutByte input (CHR ''%'') in
      if z \<and> zone = [] then None
      else if hasPrefix s ''::'' \<and> length s = 2 then Some (V6 (replicate 16 0) zone)
      else
        let (s1, e0) = (if hasPrefix s ''::'' then (drop 2 s, Some 0) else (s, None)) in
        (case ipv6Loop s1 [] e0 of
           None \<Rightarrow> None
         | Some (ip, ellipsis, rest) \<Rightarrow>
             if rest \<noteq> [] then None
             else map_option (\<lambda>bs. V6 bs zone) (expandEllipsis ip ellipsis)))"

definition parseAddr :: "string \<Rightarrow> ipAddr option" where
  "parseAddr s =
     (case findIdx (\<lambda>c. c = CHR ''.'' \<or> c = CHR '':'' \<or> c = CHR ''%'') s of
        None \<Rightarrow> None
      | Some i \<Rightarrow>
          if s ! i = CHR ''.'' then map_option V4 (parseIPv4Fields s)
          else if s ! i = CHR '':'' then parseIPv6 s
          else None)"

section \<open>Printing\<close>

definition string4 :: "nat list \<Rightarrow> string" where
  "string4 bs = joinStr ''.'' (map decimal bs)"

definition hex16 :: "nat \<Rightarrow> string" where
  "hex16 n = formatHex n"

definition groupAt :: "nat list \<Rightarrow> nat \<Rightarrow> nat" where
  "groupAt bs i = bs ! (2 * i) * 256 + bs ! (2 * i + 1)"

fun zeroEnd :: "nat \<Rightarrow> nat list \<Rightarrow> nat \<Rightarrow> nat" where
  "zeroEnd 0 bs j = j"
| "zeroEnd (Suc n) bs j = (if j < 8 \<and> groupAt bs j = 0 then zeroEnd n bs (j + 1) else j)"

text \<open>The longest run of at least two zero groups, the first of equally long ones.\<close>

fun zeroRun :: "nat list \<Rightarrow> nat list \<Rightarrow> (nat \<times> nat) option \<Rightarrow> (nat \<times> nat) option" where
  "zeroRun bs [] best = best"
| "zeroRun bs (i # ks) best =
     (let j = zeroEnd 8 bs i; l = j - i in
      zeroRun bs ks (if l \<ge> 2 \<and> l > (case best of None \<Rightarrow> 0 | Some (a, b) \<Rightarrow> b - a) then Some (i, j) else best))"

fun groups6 :: "nat list \<Rightarrow> (nat \<times> nat) option \<Rightarrow> nat \<Rightarrow> nat \<Rightarrow> string" where
  "groups6 bs run 0 i = []"
| "groups6 bs run (Suc n) i =
     (if i \<ge> 8 then []
      else case run of
        Some (a, b) \<Rightarrow>
          if i = a then ''::'' @ (if b \<ge> 8 then [] else hex16 (groupAt bs b) @ groups6 bs run n (b + 1))
          else (if i > 0 then '':'' else []) @ hex16 (groupAt bs i) @ groups6 bs run n (i + 1)
      | None \<Rightarrow> (if i > 0 then '':'' else []) @ hex16 (groupAt bs i) @ groups6 bs run n (i + 1))"

definition is4In6 :: "nat list \<Rightarrow> bool" where
  "is4In6 bs \<longleftrightarrow> take 12 bs = replicate 10 0 @ [255, 255]"

definition zoneSuffix :: "string \<Rightarrow> string" where
  "zoneSuffix z = (if z = [] then [] else CHR ''%'' # z)"

definition addrString :: "ipAddr \<Rightarrow> string" where
  "addrString a =
     (case a of
        V4 bs \<Rightarrow> string4 bs
      | V6 bs z \<Rightarrow>
          (if is4In6 bs then ''::ffff:'' @ string4 (drop 12 bs)
           else groups6 bs (zeroRun bs [0 ..< 8] None) 8 0) @ zoneSuffix z)"

section \<open>Prefixes\<close>

text \<open>The bits of an invalid prefix are None.\<close>

record ipPrefix =
  pfAddr :: ipAddr
  pfBits :: "nat option"

definition bytesNat :: "nat list \<Rightarrow> nat" where
  "bytesNat bs = foldl (\<lambda>n b. n * 256 + b) 0 bs"

definition prefixContains :: "ipPrefix \<Rightarrow> ipAddr \<Rightarrow> bool" where
  "prefixContains p a =
     (case pfBits p of
        None \<Rightarrow> False
      | Some n \<Rightarrow>
          addrZone a = [] \<and> length (addrBytes (pfAddr p)) = length (addrBytes a)
          \<and> (let host = 8 * length (addrBytes a) - n in
              bytesNat (addrBytes a) div 2 ^ host = bytesNat (addrBytes (pfAddr p)) div 2 ^ host))"

section \<open>Host and port\<close>

definition splitHostPort :: "string \<Rightarrow> (string \<times> string) option" where
  "splitHostPort hp =
     (case lastIndexByte hp (CHR '':'') of
        None \<Rightarrow> None
      | Some i \<Rightarrow>
          let bracketed = (hp ! 0 = CHR ''['') in
          (case (if bracketed
                 then (case indexByte hp (CHR '']'') of
                         None \<Rightarrow> None
                       | Some e \<Rightarrow> if e + 1 = i then Some (drop 1 (take e hp), 1, e + 1) else None)
                 else if CHR '':'' \<in> set (take i hp) then None
                 else Some (take i hp, 0, 0)) of
             None \<Rightarrow> None
           | Some (host, j, k) \<Rightarrow>
               if CHR ''['' \<in> set (drop j hp) then None
               else if CHR '']'' \<in> set (drop k hp) then None
               else Some (host, drop (i + 1) hp)))"

text \<open>\<open>host, _, _ := net.SplitHostPort(s)\<close>.\<close>

definition hostOf :: "string \<Rightarrow> string" where
  "hostOf s = (case splitHostPort s of None \<Rightarrow> [] | Some (h, p) \<Rightarrow> h)"

section \<open>RealIP\<close>

definition trustedBy :: "ipPrefix option list \<Rightarrow> ipAddr \<Rightarrow> bool" where
  "trustedBy cidrs a = list_ex (\<lambda>p. case p of None \<Rightarrow> False | Some q \<Rightarrow> prefixContains q a) cidrs"

definition maxXFFHops :: nat where
  "maxXFFHops = 30"

text \<open>The scan for the \<open>maxXFFHops\<close>-th comma from the end; \<open>n\<close> bytes are left to scan.\<close>

fun hopStart :: "string \<Rightarrow> nat \<Rightarrow> nat \<Rightarrow> nat" where
  "hopStart xff 0 commas = 0"
| "hopStart xff (Suc i) commas =
     (if xff ! i = CHR '','' then
        (if commas + 1 = maxXFFHops then i + 1 else hopStart xff i (commas + 1))
      else hopStart xff i commas)"

function leftmostLoop :: "string \<Rightarrow> ipAddr option" where
  "leftmostLoop rest =
     (let (part, tail, again) = cutByte rest (CHR '','') in
      case parseAddr (trimSpace part) of
        Some a \<Rightarrow> Some a
      | None \<Rightarrow> if \<not> again then None else leftmostLoop tail)"
  by pat_completeness auto
termination
proof (relation "measure length")
  fix rest x part y tl again
  assume "x = cutByte rest (CHR '','')" "(part, y) = x" "(tl, again) = y" "\<not> \<not> again"
  then have "cutByte rest (CHR '','') = (part, tl, True)" by simp
  then have "rest = part @ CHR '','' # tl" by (simp add: cutByte_found)
  then show "(tl, rest) \<in> measure length" by simp
qed simp

declare leftmostLoop.simps [simp del]

lemma lastIndexByte_less: "lastIndexByte s c = Some i \<Longrightarrow> i < length s"
  by (induction s arbitrary: i) (auto split: option.splits if_splits)

text \<open>The walk from the right over \<open>xff[:end]\<close>, with \<open>lastValid\<close>.\<close>

function rightLoop :: "ipPrefix option list \<Rightarrow> string \<Rightarrow> ipAddr option \<Rightarrow> ipAddr option" where
  "rightLoop cidrs xff lastValid =
     (let i = lastIndexByte xff (CHR '','');
          part = (case i of None \<Rightarrow> xff | Some k \<Rightarrow> drop (k + 1) xff);
          addr = parseAddr (trimSpace part)
      in case addr of
        Some a \<Rightarrow>
          if \<not> trustedBy cidrs a then Some a
          else (case i of None \<Rightarrow> Some a | Some k \<Rightarrow> rightLoop cidrs (take k xff) (Some a))
      | None \<Rightarrow> (case i of None \<Rightarrow> lastValid | Some k \<Rightarrow> rightLoop cidrs (take k xff) lastValid))"
  by pat_completeness auto
termination by (relation "measure (\<lambda>(c, xff, l). length xff)") (auto dest: lastIndexByte_less [OF sym])

declare rightLoop.simps [simp del]

definition selectXFFRightmost :: "string \<Rightarrow> ipPrefix option list \<Rightarrow> ipAddr option" where
  "selectXFFRightmost xff cidrs =
     (let xff1 = drop (hopStart xff (length xff) 0) xff in
      if cidrs = [] then leftmostLoop xff1 else rightLoop cidrs xff1 None)"

definition realIPAddr :: "ipPrefix option list \<Rightarrow> request \<Rightarrow> string" where
  "realIPAddr cidrs r =
     (let xff = headerGet (rHeader r) ''X-Forwarded-For'' in
      if xff \<noteq> [] then
        (case selectXFFRightmost xff cidrs of
           Some a \<Rightarrow> addrString (withZone [] a) | None \<Rightarrow> rRemoteAddr r)
      else let xri = headerGet (rHeader r) ''X-Real-IP'' in
        if xri \<noteq> [] then
          (case parseAddr (trimSpace xri) of
             Some a \<Rightarrow> addrString (withZone [] a) | None \<Rightarrow> rRemoteAddr r)
        else rRemoteAddr r)"

definition peerTrusted :: "ipPrefix option list \<Rightarrow> request \<Rightarrow> bool" where
  "peerTrusted cidrs r \<longleftrightarrow>
     cidrs = [] \<or> (case parseAddr (hostOf (rRemoteAddr r)) of None \<Rightarrow> False | Some a \<Rightarrow> trustedBy cidrs a)"

definition realIP :: "ipPrefix option list \<Rightarrow> 'w middleware" where
  "realIP cidrs next r w =
     (if peerTrusted cidrs r then next (r\<lparr>rRemoteAddr := realIPAddr cidrs r\<rparr>) w else next r w)"

section \<open>The key of ThrottlePerIP\<close>

definition throttleKey :: "(request \<Rightarrow> string) option \<Rightarrow> request \<Rightarrow> string" where
  "throttleKey keyFn r = (case keyFn of Some f \<Rightarrow> f r | None \<Rightarrow> hostOf (rRemoteAddr r))"

section \<open>Lemmas\<close>

text \<open>Splitting at the last separator, and appending to a split string.\<close>

lemma lastIndexByte_split:
  "lastIndexByte s c = Some i \<Longrightarrow> s = take i s @ c # drop (Suc i) s \<and> c \<notin> set (drop (Suc i) s)"
proof (induction s arbitrary: i)
  case (Cons x s)
  have "c \<notin> set s" if "lastIndexByte s c = None" using that by (induction s) (auto split: option.splits if_splits)
  then show ?case using Cons by (auto split: option.splits if_splits)
qed simp

lemma lastIndexByte_none: "lastIndexByte s c = None \<longleftrightarrow> c \<notin> set s"
  by (induction s) (auto split: option.splits)

lemma splitByte_none: "c \<notin> set s \<Longrightarrow> splitByte c s = [s]"
  by (induction s) auto

lemma splitByte_snoc:
  "splitByte c (s @ [x]) =
     (if x = c then splitByte c s @ [[]] else butlast (splitByte c s) @ [last (splitByte c s) @ [x]])"
proof (induction s)
  case (Cons y s)
  show ?case using Cons splitByte_ne[of c s] by (auto split: list.splits if_splits)
qed simp

lemma splitByte_append:
  assumes "c \<notin> set t" shows "splitByte c (s @ c # t) = splitByte c s @ [t]"
  using assms
proof (induction t rule: rev_induct)
  case Nil
  then show ?case by (simp add: splitByte_snoc)
next
  case (snoc x t)
  then show ?case using splitByte_snoc[of c "s @ c # t" x] by auto
qed

lemma splitByte_last:
  "splitByte c s =
     (case lastIndexByte s c of None \<Rightarrow> [s] | Some i \<Rightarrow> splitByte c (take i s) @ [drop (Suc i) s])"
proof (cases "lastIndexByte s c")
  case None
  then have "c \<notin> set s" by (simp add: lastIndexByte_none)
  then show ?thesis by (simp add: None splitByte_none)
next
  case (Some i)
  then show ?thesis using lastIndexByte_split[OF Some] splitByte_append[of c "drop (Suc i) s" "take i s"] by simp
qed

lemma drop_snoc_last: "k < length P \<Longrightarrow> drop k (butlast P @ [last P @ [c]]) = butlast (drop k P) @ [last (drop k P) @ [c]]"
  by (auto simp: butlast_conv_take drop_take)

lemma hopStart_le: "hopStart xff i n \<le> i"
  by (induction i arbitrary: n) (auto intro: le_SucI)

lemma hopStart_split:
  assumes "i \<le> length xff" and "n < maxXFFHops"
  shows "splitByte (CHR '','') (drop (hopStart xff i n) (take i xff))
       = (let P = splitByte (CHR '','') (take i xff) in drop (length P - (maxXFFHops - n)) P)"
  using assms
proof (induction i arbitrary: n)
  case (Suc i)
  let ?c = "xff ! i" and ?P = "splitByte (CHR '','') (take i xff)"
  have take: "take (Suc i) xff = take i xff @ [?c]" using Suc.prems(1) by (simp add: take_Suc_conv_app_nth)
  have ne: "?P \<noteq> []" by (rule splitByte_ne)
  show ?case
  proof (cases "?c = CHR '',''")
    case True
    show ?thesis
    proof (cases "n + 1 = maxXFFHops")
      case True': True
      then have "maxXFFHops - n = 1" by simp
      then show ?thesis using True True' Suc.prems(1) by (simp add: take splitByte_snoc Let_def)
    next
      case False
      let ?k = "hopStart xff i (n + 1)"
      have "?k \<le> i" by (rule hopStart_le)
      moreover have "splitByte (CHR '','') (drop ?k (take i xff)) = drop (length ?P - (maxXFFHops - (n + 1))) ?P"
        using Suc.IH[of "n + 1"] Suc.prems False by (simp add: Let_def)
      moreover have "length ?P - (maxXFFHops - (n + 1)) = Suc (length ?P) - (maxXFFHops - n)"
        using Suc.prems(2) by linarith
      moreover have "Suc (length ?P) - (maxXFFHops - n) \<le> length ?P" using Suc.prems(2) by linarith
      ultimately show ?thesis using True False Suc.prems(1) by (simp add: take splitByte_snoc Let_def)
    qed
  next
    case False
    let ?k = "hopStart xff i n"
    let ?m = "length ?P - (maxXFFHops - n)"
    have "drop ?k (take (Suc i) xff) = drop ?k (take i xff) @ [?c]"
      using hopStart_le[of xff i n] Suc.prems(1) by (simp add: take)
    moreover have "?m < length ?P" using Suc.prems(2) ne by (intro diff_less) auto
    moreover have "splitByte (CHR '','') (drop ?k (take i xff)) = drop ?m ?P"
      using Suc.IH[OF _ Suc.prems(2)] Suc.prems(1) by (simp add: Let_def)
    moreover have "length (splitByte (CHR '','') (take (Suc i) xff)) = length ?P"
      using False ne by (simp add: take splitByte_snoc)
    ultimately show ?thesis
      using False by (simp only: take splitByte_snoc Let_def drop_snoc_last hopStart.simps if_False)
  qed
qed (simp add: Let_def)

text \<open>The addresses among the entries of a header, and among its last \<open>maxXFFHops\<close> entries.\<close>

definition entryAddrs :: "string list \<Rightarrow> ipAddr list" where
  "entryAddrs ps = List.map_filter (\<lambda>p. parseAddr (trimSpace p)) ps"

definition hopAddrs :: "string \<Rightarrow> ipAddr list" where
  "hopAddrs xff = (let ps = splitByte (CHR '','') xff in entryAddrs (drop (length ps - maxXFFHops) ps))"

definition firstOf :: "'a option \<Rightarrow> 'a list \<Rightarrow> 'a option" where
  "firstOf d xs = (case xs of [] \<Rightarrow> d | x # _ \<Rightarrow> Some x)"

lemma entryAddrs_append [simp]: "entryAddrs (ps @ qs) = entryAddrs ps @ entryAddrs qs"
  by (simp add: entryAddrs_def List.map_filter_def)

lemma entryAddrs_Cons:
  "entryAddrs (p # ps) = (case parseAddr (trimSpace p) of None \<Rightarrow> entryAddrs ps | Some a \<Rightarrow> a # entryAddrs ps)"
  by (simp add: entryAddrs_def List.map_filter_def split: option.splits)

lemma entryAddrs_Nil [simp]: "entryAddrs [] = []"
  by (simp add: entryAddrs_def List.map_filter_def)

lemma leftmostLoop_first: "leftmostLoop s = firstOf None (entryAddrs (splitByte (CHR '','') s))"
proof (induction s rule: leftmostLoop.induct)
  case (1 s)
  obtain part tail again where c: "cutByte s (CHR '','') = (part, tail, again)" by (metis surj_pair)
  show ?case
    using 1[OF c[symmetric] refl refl]
    by (subst leftmostLoop.simps, subst splitByte_cut)
      (simp add: c entryAddrs_Cons firstOf_def split: option.splits)
qed

text \<open>The search from the right, with the leftmost valid address as the last resort.\<close>

lemma rightLoop_find:
  "rightLoop cidrs s lastValid =
     (let as = entryAddrs (splitByte (CHR '','') s) in
      case List.find (\<lambda>a. \<not> trustedBy cidrs a) (rev as) of Some a \<Rightarrow> Some a | None \<Rightarrow> firstOf lastValid as)"
proof (induction cidrs s lastValid rule: rightLoop.induct)
  case (1 cidrs s lastValid)
  show ?case
  proof (cases "lastIndexByte s (CHR '','')")
    case None
    then show ?thesis
      by (subst rightLoop.simps, subst splitByte_last)
        (auto simp: entryAddrs_Cons firstOf_def Let_def split: option.splits)
  next
    case (Some k)
    let ?part = "drop (k + 1) s"
    show ?thesis
    proof (cases "parseAddr (trimSpace ?part)")
      case None
      have "rightLoop cidrs s lastValid = rightLoop cidrs (take k s) lastValid"
        using Some None by (subst rightLoop.simps) (simp add: Let_def)
      moreover have "entryAddrs (splitByte (CHR '','') s) = entryAddrs (splitByte (CHR '','') (take k s))"
        using Some None by (subst splitByte_last) (simp add: entryAddrs_Cons)
      ultimately show ?thesis using 1(1)[OF refl refl refl, of k] Some None by simp
    next
      case (Some a)
      note k = \<open>lastIndexByte s (CHR '','') = Some k\<close>
      have as: "entryAddrs (splitByte (CHR '','') s) = entryAddrs (splitByte (CHR '','') (take k s)) @ [a]"
        using k Some by (subst splitByte_last) (simp add: entryAddrs_Cons)
      show ?thesis
      proof (cases "trustedBy cidrs a")
        case False
        then show ?thesis using k Some as by (subst rightLoop.simps) (simp add: Let_def)
      next
        case True
        then have "rightLoop cidrs s lastValid = rightLoop cidrs (take k s) (Some a)"
          using k Some by (subst rightLoop.simps) (simp add: Let_def)
        then show ?thesis
          using 1(2)[OF refl refl refl, of a k] k Some True as
          by (auto simp: Let_def firstOf_def split: option.splits list.splits)
      qed
    qed
  qed
qed

lemma selectXFFRightmost_hops:
  "selectXFFRightmost xff cidrs =
     (let as = hopAddrs xff in
      if cidrs = [] then firstOf None as
      else case List.find (\<lambda>a. \<not> trustedBy cidrs a) (rev as) of Some a \<Rightarrow> Some a | None \<Rightarrow> firstOf None as)"
proof -
  have "entryAddrs (splitByte (CHR '','') (drop (hopStart xff (length xff) 0) xff)) = hopAddrs xff"
    using hopStart_split[of "length xff" xff 0] by (simp add: hopAddrs_def Let_def maxXFFHops_def)
  then show ?thesis
    by (simp add: selectXFFRightmost_def leftmostLoop_first rightLoop_find Let_def)
qed

text \<open>The text of an address has no port, and \<open>SplitHostPort\<close> refuses it.\<close>

lemma splitHostPort_colons:
  assumes "count_list s (CHR '':'') \<noteq> 1" and "hd s \<noteq> CHR ''[''" and "s \<noteq> []"
  shows "splitHostPort s = None"
proof (cases "lastIndexByte s (CHR '':'')")
  case (Some i)
  note sp = lastIndexByte_split[OF Some]
  have "count_list s (CHR '':'') = count_list (take i s) (CHR '':'') + 1"
    using sp by (metis count_list_append count_list.simps(2) count_notin add.commute add_0)
  then have "CHR '':'' \<in> set (take i s)" using assms(1) by (metis add_0 count_notin)
  then show ?thesis using Some assms(2,3) by (simp add: splitHostPort_def hd_conv_nth)
qed (simp add: splitHostPort_def)

lemma decimal_chars: "set (decimal n) \<subseteq> {c. isDigit c}"
proof (induction n rule: decimal.induct)
  case (1 n)
  have "isDigit (digitChar (n mod 10))" for n :: nat by (simp add: isDigit_def digitChar_def byteOf_def)
  from this[of n] this[of "n div 1"] show ?case
    using 1 by (subst decimal.simps) (auto simp: isDigit_def digitChar_def byteOf_def)
qed

lemma decimal_ne: "decimal n \<noteq> []"
  by (subst decimal.simps) simp

lemma formatHex_chars: "set (formatHex n) \<subseteq> set ''0123456789abcdef''"
proof (induction n rule: formatHex.induct)
  case (1 n)
  have l: "m < 16 \<Longrightarrow> lowerHex m \<in> set ''0123456789abcdef''" for m
    unfolding lowerHex_def by (rule nth_mem) simp
  show ?case
  proof (cases "n < 16")
    case True
    then show ?thesis using l[of n] by (subst formatHex.simps) simp
  next
    case False
    then show ?thesis using 1 l[of "n mod 16"] by (subst formatHex.simps) simp
  qed
qed

lemma zeroRun_start: "zeroRun bs ks best = Some (a, b) \<Longrightarrow> a \<in> set ks \<or> best = Some (a, b)"
  by (induction ks arbitrary: best) (auto simp: Let_def split: if_splits)

lemma groups6_run:
  "i \<le> a \<Longrightarrow> a < 8 \<Longrightarrow> a < n + i \<Longrightarrow> 2 \<le> count_list (groups6 bs (Some (a, b)) n i) (CHR '':'')"
proof (induction n arbitrary: i)
  case (Suc n)
  have "i \<noteq> a \<Longrightarrow> 2 \<le> count_list (groups6 bs (Some (a, b)) n (Suc i)) (CHR '':'')"
    using Suc.IH[of "Suc i"] Suc.prems by simp
  then show ?case using Suc.prems by (cases "i = a") auto
qed simp

lemma groups6_none: "count_list (groups6 bs None 8 0) (CHR '':'') \<ge> 2"
  by (simp add: eval_nat_numeral)

definition addrChars :: "char set" where
  "addrChars = insert (CHR '':'') (set ''0123456789abcdef'')"

lemma hex16_chars: "set (hex16 n) \<subseteq> addrChars"
  unfolding hex16_def addrChars_def by (rule subset_insertI2[OF formatHex_chars])

lemma colon_char: "CHR '':'' \<in> addrChars"
  by (simp add: addrChars_def)

lemma groups6_chars: "set (groups6 bs run n i) \<subseteq> addrChars"
proof (induction n arbitrary: i)
  case (Suc n)
  show ?case
  proof (cases run)
    case None
    then show ?thesis using Suc[of "i + 1"] hex16_chars colon_char by auto
  next
    case (Some ab)
    obtain a b where ab: "ab = (a, b)" by fastforce
    show ?thesis
      using Suc[of "i + 1"] Suc[of "b + 1"] hex16_chars[of "groupAt bs i"] hex16_chars[of "groupAt bs b"] colon_char Some ab
      by auto
  qed
qed simp

lemma string4_chars: "set (string4 bs) \<subseteq> insert (CHR ''.'') {c. isDigit c}"
proof -
  have "set (joinStr ''.'' ss) \<subseteq> insert (CHR ''.'') (\<Union> (set ` set ss))" for ss
    by (induction "''.''::string" ss rule: joinStr.induct) auto
  then show ?thesis using decimal_chars by (fastforce simp: string4_def)
qed

lemma isDigit_not: "\<not> isDigit (CHR '':'')" "\<not> isDigit (CHR ''['')"
  by (simp_all add: isDigit_def byteOf_def)

lemma string4_ne: "bs \<noteq> [] \<Longrightarrow> string4 bs \<noteq> []"
  by (cases bs rule: remdups_adj.cases) (auto simp: string4_def decimal_ne)

lemma addrString_colons:
  assumes "addrBytes a \<noteq> []"
  shows "count_list (addrString (withZone [] a)) (CHR '':'') \<noteq> 1 \<and> addrString (withZone [] a) \<noteq> []
    \<and> hd (addrString (withZone [] a)) \<noteq> CHR ''[''"
proof (cases a)
  case (V4 bs)
  have "bs \<noteq> []" using assms V4 by (simp add: addrBytes_def)
  then have "string4 bs \<noteq> []" by (rule string4_ne)
  moreover have "CHR '':'' \<notin> set (string4 bs)" "CHR ''['' \<notin> set (string4 bs)"
    using string4_chars[of bs] isDigit_not by auto
  ultimately show ?thesis
    using V4 by (auto simp: addrString_def withZone_def count_notin dest: hd_in_set)
next
  case (V6 bs z)
  let ?run = "zeroRun bs [0 ..< 8] None"
  let ?g = "groups6 bs ?run 8 0"
  have two: "2 \<le> count_list ?g (CHR '':'')"
  proof (cases ?run)
    case (Some ab)
    then obtain a b where ab: "?run = Some (a, b)" by (cases ab) auto
    then have "a < 8" using zeroRun_start[OF ab] by auto
    then show ?thesis unfolding ab by (intro groups6_run) auto
  qed (use groups6_none in simp)
  then have "?g \<noteq> []" by auto
  moreover have "CHR ''['' \<notin> set ?g" using groups6_chars[of bs ?run 8 0] by (auto simp: addrChars_def)
  ultimately show ?thesis
    using V6 two by (auto simp: addrString_def withZone_def zoneSuffix_def dest: hd_in_set)
qed

text \<open>What is parsed has four or sixteen bytes.\<close>

definition addrOK :: "ipAddr \<Rightarrow> bool" where
  "addrOK a \<longleftrightarrow>
     (case a of V4 bs \<Rightarrow> length bs = 4 \<and> (\<forall>b\<in>set bs. b < 256)
              | V6 bs z \<Rightarrow> length bs = 16 \<and> (\<forall>b\<in>set bs. b < 256))"

lemma ipv4Loop_OK:
  "ipv4Loop s prev val n octets = Some bs \<Longrightarrow> length octets \<le> 3 \<Longrightarrow> \<forall>b\<in>set octets. b < 256 \<Longrightarrow> val < 256 \<Longrightarrow>
   length bs = 4 \<and> (\<forall>b\<in>set bs. b < 256)"
  by (induction s prev val n octets rule: ipv4Loop.induct) (auto simp: Let_def split: if_splits)

lemma parseIPv4Fields_OK: "parseIPv4Fields s = Some bs \<Longrightarrow> length bs = 4 \<and> (\<forall>b\<in>set bs. b < 256)"
  unfolding parseIPv4Fields_def by (rule ipv4Loop_OK) auto

lemma hexGroup_bound: "hexGroup s off acc = Some (n, v, rest) \<Longrightarrow> acc \<le> 65535 \<Longrightarrow> v \<le> 65535"
  by (induction s arbitrary: off acc) (auto simp: Let_def split: option.splits if_splits)

definition partialOK :: "nat list \<Rightarrow> nat option \<Rightarrow> bool" where
  "partialOK ip e \<longleftrightarrow> length ip \<le> 16 \<and> even (length ip) \<and> (\<forall>b\<in>set ip. b < 256)
     \<and> (case e of None \<Rightarrow> True | Some k \<Rightarrow> k \<le> length ip)"

lemma partialOK_group:
  "partialOK ip e \<Longrightarrow> length ip < 16 \<Longrightarrow> acc \<le> 65535 \<Longrightarrow> partialOK (ip @ [acc div 256, acc mod 256]) e"
  by (auto simp: partialOK_def split: option.splits)

lemma ipv6Loop_OK:
  "ipv6Loop s ip e = Some (ip', e', rest) \<Longrightarrow> partialOK ip e \<Longrightarrow> partialOK ip' e'"
proof (induction s ip e arbitrary: ip' e' rest rule: ipv6Loop.induct)
  case (1 s ip e)
  show ?case
  proof (cases "length ip \<ge> 16")
    case True
    then show ?thesis using 1(3,4) by (subst (asm) ipv6Loop.simps) simp
  next
    case False
    then obtain off acc r where h: "hexGroup s 0 0 = Some (off, acc, r)"
      using 1(3) by (subst (asm) ipv6Loop.simps) (auto split: option.splits)
    let ?ip = "ip @ [acc div 256, acc mod 256]"
    have grp: "partialOK ?ip e" using partialOK_group[OF 1(4)] False hexGroup_bound[OF h] by simp
    have here: "partialOK ?ip (Some (length ?ip))" using grp by (simp add: partialOK_def)
    have run: "(if off = 0 then None
          else if r \<noteq> [] \<and> hd r = CHR ''.'' then
            (if e = None \<and> length ip \<noteq> 12 then None
             else if length ip + 4 > 16 then None
             else map_option (\<lambda>fs. (ip @ fs, e, [])) (parseIPv4Fields s))
          else
            (case r of
               [] \<Rightarrow> Some (?ip, e, [])
             | c # rest1 \<Rightarrow>
                 if c \<noteq> CHR '':'' then None
                 else (case rest1 of
                   [] \<Rightarrow> None
                 | d # rest2 \<Rightarrow>
                     if d = CHR '':'' then
                       (if e \<noteq> None then None
                        else if rest2 = [] then Some (?ip, Some (length ?ip), [])
                        else ipv6Loop rest2 ?ip (Some (length ?ip)))
                     else ipv6Loop rest1 ?ip e))) = Some (ip', e', rest)"
      using 1(3) by (subst (asm) ipv6Loop.simps) (simp only: False h option.case prod.case if_False Let_def)
    consider (v4) fs where "parseIPv4Fields s = Some fs" "ip' = ip @ fs" "e' = e" "length ip + 4 \<le> 16"
      | (stop) "ip' = ?ip" "e' = e \<or> e' = Some (length ?ip)"
      | (ell) c d rest2 where "r = c # d # rest2" "d = CHR '':''" "e = None" "rest2 \<noteq> []" "off \<noteq> 0" "c = CHR '':''"
          "ipv6Loop rest2 ?ip (Some (length ?ip)) = Some (ip', e', rest)"
      | (go) c d rest2 where "r = c # d # rest2" "d \<noteq> CHR '':''" "off \<noteq> 0" "c = CHR '':''"
          "ipv6Loop (d # rest2) ?ip e = Some (ip', e', rest)"
      using run by (auto split: if_splits list.splits)
    then show ?thesis
    proof cases
      case v4
      then show ?thesis using parseIPv4Fields_OK[of s fs] 1(4) by (auto simp: partialOK_def split: option.splits)
    next
      case stop
      then show ?thesis using grp here by auto
    next
      case ell
      show ?thesis
        by (rule 1(1)[OF False h refl refl _ _ refl ell(1) _ refl ell(2) _ ell(4) ell(7) here]) (use ell in auto)
    next
      case go
      show ?thesis
        by (rule 1(2)[OF False h refl refl _ _ refl go(1) _ refl go(2) go(5) grp]) (use go in auto)
    qed
  qed
qed

lemma expandEllipsis_OK:
  "partialOK ip e \<Longrightarrow> expandEllipsis ip e = Some bs \<Longrightarrow> length bs = 16 \<and> (\<forall>b\<in>set bs. b < 256)"
  by (fastforce simp: partialOK_def expandEllipsis_def split: if_splits option.splits dest: in_set_takeD in_set_dropD)

lemma parseIPv6_OK: "parseIPv6 s = Some a \<Longrightarrow> addrOK a"
  by (auto simp: parseIPv6_def addrOK_def Let_def split: prod.splits if_splits option.splits
      dest!: ipv6Loop_OK expandEllipsis_OK)
    (auto simp: partialOK_def)

lemma parseAddr_OK: "parseAddr s = Some a \<Longrightarrow> addrOK a"
  using parseIPv6_OK by (auto simp: parseAddr_def addrOK_def dest: parseIPv4Fields_OK split: option.splits if_splits)

text \<open>A selected address is that of an entry.\<close>

lemma selectXFFRightmost_entry:
  assumes "selectXFFRightmost xff cidrs = Some a"
  shows "\<exists>p\<in>set (drop (length (splitByte (CHR '','') xff) - maxXFFHops) (splitByte (CHR '','') xff)).
    parseAddr (trimSpace p) = Some a"
proof -
  have "b \<in> set xs" if "List.find P xs = Some b" for b :: ipAddr and P xs
    using that by (auto simp: find_Some_iff)
  from this[of _ "rev xs" for xs] have "a \<in> set (hopAddrs xff)"
    using assms by (auto simp: selectXFFRightmost_hops Let_def firstOf_def split: if_splits option.splits list.splits)
  then show ?thesis by (auto simp: hopAddrs_def entryAddrs_def Let_def List.map_filter_def)
qed

end
