(* ===== verification/ThrottleProperties.thy ===== *)
theory ThrottleProperties
  imports Throttle ThrottleTableSafe ClientAddr
begin

text \<open>
  The properties of the throttling middleware, of client addresses, and of the two together, with
  concrete instances.
\<close>

section \<open>The global limit\<close>

text \<open>
  C24. Throttling bounds the handlers that run. In every interleaving of any number of requests, with
  handlers that end or panic and timers that expire at any time, at most as many handlers run as the
  limit says and at most as many requests wait as the backlog says; the counter of permits is exact,
  and when all requests are answered nothing is held.
\<close>

theorem throttle_limit:
  assumes "throttling lim backlog s ts"
  shows "int (countIf (\<lambda>ph. ph = InHandler) ts) \<le> lim \<and> countIf waits ts \<le> nat backlog
    \<and> inUse s = int (countIf holds ts)
    \<and> ((\<forall>ph\<in>set ts. ph = Done \<or> ph = Rejected) \<longrightarrow> inUse s = 0 \<and> queueLen s = 0)"
proof -
  note OK = throttling_OK[OF assms]
  then have acc: "accounted s ts" "limit s = lim" "queueCap s = nat backlog" by (simp_all add: semOK_def)
  have "countIf (\<lambda>ph. ph = InHandler) ts \<le> countIf holds ts" by (rule countIf_mono) auto
  moreover have "countIf holds ts = 0 \<and> countIf waits ts = 0" if "\<forall>ph\<in>set ts. ph = Done \<or> ph = Rejected"
    using that by (auto simp: countIf_zero)
  ultimately show ?thesis using acc by (auto simp: accounted_def)
qed

definition oneBusy :: throttleSem where
  "oneBusy = (newThrottleSem 1 1)\<lparr>inUse := 1, queueLen := 1\<rparr>"

text \<open>One request in its handler and a second one that waits for the only permit.\<close>

lemma throttling_example: "throttling 1 1 oneBusy [InHandler, Selecting]"
proof -
  let ?s = "newThrottleSem 1 1" and ?b = "(newThrottleSem 1 1)\<lparr>inUse := 1\<rparr>"
  have "throttling 1 1 ?s []" by (rule throttling.built) (simp add: throttleBacklog_def)
  then have "throttling 1 1 ?s [Arrived]" using throttling.arrive by fastforce
  then have "throttling 1 1 ?s [FastLoaded 0]"
    using throttling.move[of 1 1 ?s "[Arrived]" 0 Throttle.Go ?s "FastLoaded 0"] by (simp add: newThrottleSem_def)
  then have "throttling 1 1 ?b [InHandler]"
    using throttling.move[of 1 1 ?s "[FastLoaded 0]" 0 Throttle.Go ?b InHandler] by (simp add: newThrottleSem_def)
  then have "throttling 1 1 ?b [InHandler, Arrived]" using throttling.arrive by fastforce
  then have "throttling 1 1 ?b [InHandler, Enqueueing]"
    using throttling.move[of 1 1 ?b "[InHandler, Arrived]" 1 Throttle.Go ?b Enqueueing] by (simp add: newThrottleSem_def)
  then have "throttling 1 1 oneBusy [InHandler, Trying False]"
    using throttling.move[of 1 1 ?b "[InHandler, Enqueueing]" 1 Throttle.Go oneBusy "Trying False"]
    by (simp add: newThrottleSem_def oneBusy_def)
  then show ?thesis
    using throttling.move[of 1 1 oneBusy "[InHandler, Trying False]" 1 Throttle.Go oneBusy Selecting]
    by (simp add: newThrottleSem_def oneBusy_def)
qed

theorem throttle_limit_witness:
  "inUse oneBusy = int (countIf holds [InHandler, Selecting]) \<and> countIf waits [InHandler, Selecting] \<le> nat 1"
  using throttle_limit[OF throttling_example] by blast

text \<open>
  C25. Throttling settles and leaves no permit idle. Without new requests, ending handlers and timers
  every run of the other operations ends, however the compare-and-swap loops interfere; and in a state
  where none of them is left, a request that still waits does so because the handlers that run are as
  many as the limit: no wake-up is lost.
\<close>

theorem throttle_settles:
  assumes "throttling lim backlog s ts"
  shows "wf {(y, x). internal x y}
    \<and> ((\<forall>y. \<not> internal (s, ts) y) \<longrightarrow> Selecting \<in> set ts \<longrightarrow> int (countIf (\<lambda>ph. ph = InHandler) ts) = lim)"
  using settles settled_busy[of s ts] throttling_OK[OF assms] by simp

theorem throttle_settles_witness:
  "wf {(y, x). internal x y} \<and> int (countIf (\<lambda>ph. ph = InHandler) [InHandler, Selecting]) = 1"
proof -
  have "\<not> internal (oneBusy, [InHandler, Selecting]) y" for y
    by (auto elim!: internal.cases simp: less_Suc_eq numeral_2_eq_2 nth_Cons' oneBusy_def newThrottleSem_def)
  then show ?thesis using throttle_settles[OF throttling_example] by simp
qed

section \<open>The limit per client\<close>

text \<open>
  C26. The limits per client. In every interleaving at most as many handlers run for one key as the
  limit says, the table holds at most as many keys as its cap says, and when all requests are answered
  it is empty, no shard is locked, the size is zero and every entry ever made has all its tokens.
\<close>

theorem per_ip_limits:
  assumes "perIP h lim maxSize t ts"
  shows "int (countIf (\<lambda>p. \<exists>a. p = Inside k a) ts) \<le> lim
    \<and> (maxSize > 0 \<longrightarrow> finite (keys h t) \<and> int (card (keys h t)) \<le> maxSize)
    \<and> ((\<forall>p\<in>set ts. atRest p) \<longrightarrow>
        keys h t = {} \<and> (\<forall>sh. \<not> ttLocked t sh) \<and> (maxSize > 0 \<longrightarrow> ttSize t = 0)
        \<and> (\<forall>a<length (ttEntries t). teTokens (ttEntries t ! a) = nat lim \<and> teRefs (ttEntries t ! a) = 0))"
proof -
  have inv: "perIPOK h lim t ts" "ttMax t = maxSize" "lim > 0" using perIP_invariant[OF assms] by blast+
  have "countIf (\<lambda>p. \<exists>a. p = Inside k a) ts \<le> countIf (\<lambda>p. tokenOf p \<noteq> None \<and> keyOf p = k) ts"
    by (rule countIf_mono) auto
  then have run: "int (countIf (\<lambda>p. \<exists>a. p = Inside k a) ts) \<le> lim"
    using running_bounded[OF inv(1), of k] inv(3) by linarith
  have cap: "teCap (ttEntries t ! a) = nat lim" if "a < length (ttEntries t)" for a
    using inv(1) that unfolding perIPOK_def entriesOK_def by (metis nat_int)
  have rest: "keys h t = {} \<and> (\<forall>sh. \<not> ttLocked t sh) \<and> (maxSize > 0 \<longrightarrow> ttSize t = 0)
      \<and> (\<forall>a<length (ttEntries t). teTokens (ttEntries t ! a) = nat lim \<and> teRefs (ttEntries t ! a) = 0)"
    if r: "\<forall>p\<in>set ts. atRest p"
    using empty_at_rest[OF inv(1) r] inv(2) cap by metis
  show ?thesis using run table_bounded[OF inv(1)] inv(2) rest by blast
qed

definition zeroHashKey :: hashKey where
  "zeroHashKey k = 0"

text \<open>A request on its own, from the lock of its shard to its handler.\<close>

lemma shard_zero: "shardFor zeroHashKey k = 0"
  by (simp add: shardFor_def zeroHashKey_def)

fun soloRun :: "nat \<Rightarrow> throttleTable \<times> tphase \<Rightarrow> (throttleTable \<times> tphase) option" where
  "soloRun 0 x = Some x"
| "soloRun (Suc n) (t, p) =
     (case tstep zeroHashKey 1 ThrottleTable.Go t p of None \<Rightarrow> None | Some y \<Rightarrow> soloRun n y)"

lemma soloRun_perIP:
  "perIP zeroHashKey 1 m t [p] \<Longrightarrow> soloRun n (t, p) = Some (t', p') \<Longrightarrow> perIP zeroHashKey 1 m t' [p']"
proof (induction n arbitrary: t p)
  case (Suc n)
  then show ?case
    using perIP.move[OF Suc.prems(1), of 0 ThrottleTable.Go] by (auto split: option.splits)
qed simp

theorem per_ip_limits_witness:
  "\<exists>t. perIP zeroHashKey 1 5 t [Inside ''a'' 0] \<and> card (keys zeroHashKey t) = 1
     \<and> int (countIf (\<lambda>p. \<exists>a. p = Inside ''a'' a) [Inside ''a'' 0]) \<le> 1"
proof -
  let ?t = "newThrottleTable 5"
  let ?s = "?t\<lparr>ttShards := (\<lambda>i. Map.empty)(0 := [''a'' \<mapsto> 0]), ttSize := 1,
      ttEntries := [\<lparr>teTokens = 0, teCap = 1, teRefs = 1\<rparr>]\<rparr>"
  have "perIP zeroHashKey 1 5 ?t []" by (rule perIP.built) (simp add: throttlePerIPCapped_def)
  then have "perIP zeroHashKey 1 5 ?t [Locking ''a'']" using perIP.arrive by fastforce
  moreover have "soloRun (Suc (Suc (Suc (Suc (Suc (Suc 0)))))) (?t, Locking ''a'') = Some (?s, Inside ''a'' 0)"
    by (simp add: newThrottleTable_def shard_zero setLocked_def lookupKey_def
        allocate_def freshEntry_def setKey_def takeToken_def setEntry_def fun_upd_idem_iff Let_def)
  ultimately have "perIP zeroHashKey 1 5 ?s [Inside ''a'' 0]" using soloRun_perIP by blast
  moreover have "keys zeroHashKey ?s = {''a''}" by (auto simp: keys_def lookupKey_def shard_zero)
  ultimately show ?thesis using per_ip_limits[of zeroHashKey 1 5 ?s _ "''a''"] by (intro exI[of _ ?s]) simp
qed

section \<open>Client addresses\<close>

text \<open>
  Selected addresses are well typed. Whatever the header holds, an address that RealIP selects is
  the value of one of its last 30 comma-separated entries, and it is an IPv4 address of four bytes or an
  IPv6 address of sixteen, also with an ellipsis, an embedded IPv4 address or a zone.
\<close>

theorem selected_addresses:
  assumes "selectXFFRightmost xff cidrs = Some a"
  shows "(case a of V4 bs \<Rightarrow> length bs = 4 \<and> (\<forall>b\<in>set bs. b < 256)
                 | V6 bs z \<Rightarrow> length bs = 16 \<and> (\<forall>b\<in>set bs. b < 256))
    \<and> (\<exists>p\<in>set (drop (length (splitByte (CHR '','') xff) - 30) (splitByte (CHR '','') xff)). parseAddr (trimSpace p) = Some a)"
proof -
  obtain p where p: "p \<in> set (drop (length (splitByte (CHR '','') xff) - 30) (splitByte (CHR '','') xff))"
    "parseAddr (trimSpace p) = Some a"
    using selectXFFRightmost_entry[OF assms] unfolding maxXFFHops_def by blast
  then show ?thesis using parseAddr_OK[OF p(2)] by (auto simp: addrOK_def split: ipAddr.splits)
qed

lemma loop_example: "ipv6Loop ''fe80::192.0.2.1'' [] None = Some ([254, 128, 192, 0, 2, 1], Some 2, [])"
  by (simp add: ipv6Loop.simps hexVal_def byteOf_def parseIPv4Fields_def isDigit_def)

lemma parse_example:
  "parseAddr ''fe80::192.0.2.1%eth0'' = Some (V6 [254, 128, 0, 0, 0, 0, 0, 0, 0, 0, 0, 0, 192, 0, 2, 1] ''eth0'')"
  by (simp add: parseAddr_def parseIPv6_def hasPrefix_def loop_example expandEllipsis_def numeral_eq_Suc)

theorem selected_addresses_witness:
  "case the (selectXFFRightmost '' fe80::192.0.2.1%eth0'' []) of
     V4 bs \<Rightarrow> False | V6 bs z \<Rightarrow> length bs = 16 \<and> list_all (\<lambda>b. b < 256) bs \<and> z = ''eth0''"
proof -
  have "trimSpace '' fe80::192.0.2.1%eth0'' = ''fe80::192.0.2.1%eth0''" by code_simp
  then have sel: "selectXFFRightmost '' fe80::192.0.2.1%eth0'' []
      = Some (V6 [254, 128, 0, 0, 0, 0, 0, 0, 0, 0, 0, 0, 192, 0, 2, 1] ''eth0'')"
    by (simp add: selectXFFRightmost_hops hopAddrs_def entryAddrs_Cons parse_example firstOf_def maxXFFHops_def)
  then show ?thesis using selected_addresses[OF sel] by simp
qed

text \<open>
  C27. The forwarding chain is read from the right. The two scans of \<open>selectXFFRightmost\<close> that never
  split the header compute this: of the valid addresses among the last 30 comma-separated entries, with
  a trust list the rightmost one outside all trusted prefixes, the leftmost one if all are inside, and
  without a trust list the leftmost one. A peer that is not trusted changes nothing.
\<close>

theorem forwarded_address:
  "selectXFFRightmost xff cidrs =
     (let ps = splitByte (CHR '','') xff;
          as = List.map_filter (\<lambda>p. parseAddr (trimSpace p)) (drop (length ps - 30) ps);
          leftmost = (if as = [] then None else Some (hd as))
      in if cidrs = [] then leftmost
         else case List.find (\<lambda>a. \<not> trustedBy cidrs a) (rev as) of Some a \<Rightarrow> Some a | None \<Rightarrow> leftmost)
   \<and> (peerTrusted cidrs r \<or> realIP cidrs next' r w = next' r w)"
proof -
  have first: "firstOf None as = (if as = [] then None else Some (hd as))" for as :: "ipAddr list"
    by (simp add: firstOf_def split: list.splits)
  show ?thesis
    unfolding selectXFFRightmost_hops hopAddrs_def entryAddrs_def maxXFFHops_def Let_def realIP_def first by simp
qed

text \<open>
  C28. Behind RealIP the default throttling key is empty. The address that RealIP writes into
  \<open>RemoteAddr\<close> has no port, so \<open>SplitHostPort\<close> refuses it and the default key function of \<open>ThrottlePerIP\<close>
  returns the empty key for every client whose address was taken from a header: all of them share one
  entry of the table, and the limit per client is a limit for all.
\<close>

theorem throttle_key_behind_real_ip:
  assumes "headerGet (rHeader r) ''X-Forwarded-For'' \<noteq> []"
    and "selectXFFRightmost (headerGet (rHeader r) ''X-Forwarded-For'') cidrs = Some a"
  shows "throttleKey None (r\<lparr>rRemoteAddr := realIPAddr cidrs r\<rparr>) = []"
proof -
  obtain p where "parseAddr (trimSpace p) = Some a" using selectXFFRightmost_entry[OF assms(2)] by blast
  then have "addrOK a" by (rule parseAddr_OK)
  then have "addrBytes a \<noteq> []" by (auto simp: addrOK_def addrBytes_def split: ipAddr.splits)
  then have "splitHostPort (addrString (withZone [] a)) = None"
    using addrString_colons splitHostPort_colons by blast
  then show ?thesis using assms by (simp add: throttleKey_def hostOf_def realIPAddr_def Let_def)
qed

definition forwardedRequest :: "string \<Rightarrow> request" where
  "forwardedRequest xff =
     \<lparr>rMethod = ''GET'', rURL = \<lparr>uPath = ''/'', uRawPath = [], uRawQuery = []\<rparr>,
      rHeader = [''X-Forwarded-For'' \<mapsto> [xff]], rCtx = None, rRemoteAddr = ''10.0.0.1:4711'', rHost = []\<rparr>"

theorem throttle_key_behind_real_ip_witness:
  "throttleKey None (forwardedRequest ''203.0.113.9'') = ''10.0.0.1''
   \<and> throttleKey None ((forwardedRequest ''203.0.113.9'')\<lparr>rRemoteAddr := realIPAddr [] (forwardedRequest ''203.0.113.9'')\<rparr>) = []"
proof -
  have "headerGet (rHeader (forwardedRequest ''203.0.113.9'')) ''X-Forwarded-For'' \<noteq> []" by code_simp
  moreover have "selectXFFRightmost (headerGet (rHeader (forwardedRequest ''203.0.113.9'')) ''X-Forwarded-For'') []
      = Some (V4 [203, 0, 113, 9])" by code_simp
  ultimately have "throttleKey None ((forwardedRequest ''203.0.113.9'')\<lparr>rRemoteAddr := realIPAddr [] (forwardedRequest ''203.0.113.9'')\<rparr>) = []"
    by (rule throttle_key_behind_real_ip)
  moreover have "throttleKey None (forwardedRequest ''203.0.113.9'') = ''10.0.0.1''" by code_simp
  ultimately show ?thesis by simp
qed

end
