(* ===== verification/Credentials.thy ===== *)
theory Credentials
  imports MiddlewareBase
begin

text \<open>
  Authentication by credentials the middleware holds itself: \<open>BasicAuth\<close>
  (middleware/basic_auth.go), \<open>APIKey\<close> (middleware/api_key.go) and \<open>extractBearerToken\<close>
  (middleware/jwt_auth.go). SHA-256 is a parameter: any function on strings.
\<close>

section \<open>Base64\<close>

text \<open>
  \<open>base64.StdEncoding\<close> and \<open>base64.RawURLEncoding\<close>: line breaks are skipped, the last quantum
  of the padded form ends in one or two padding bytes, and the unused bits of it are not checked.
\<close>

definition b64Value :: "bool \<Rightarrow> char \<Rightarrow> nat option" where
  "b64Value urlSafe c =
     (let b = byteOf c in
      if 65 \<le> b \<and> b \<le> 90 then Some (b - 65)
      else if 97 \<le> b \<and> b \<le> 122 then Some (b - 71)
      else if 48 \<le> b \<and> b \<le> 57 then Some (b + 4)
      else if b = (if urlSafe then 45 else 43) then Some 62
      else if b = (if urlSafe then 95 else 47) then Some 63
      else None)"

definition quantum :: "nat list \<Rightarrow> string" where
  "quantum vs =
     (case vs of
        [a, b] \<Rightarrow> bytes [a * 4 + b div 16]
      | [a, b, c] \<Rightarrow> bytes [a * 4 + b div 16, (b mod 16) * 16 + c div 4]
      | [a, b, c, d] \<Rightarrow> bytes [a * 4 + b div 16, (b mod 16) * 16 + c div 4, (c mod 4) * 64 + d]
      | _ \<Rightarrow> [])"

fun sextets :: "(char \<Rightarrow> nat option) \<Rightarrow> string \<Rightarrow> nat list option" where
  "sextets val [] = Some []"
| "sextets val (c # s) =
     (case (val c, sextets val s) of (Some v, Some vs) \<Rightarrow> Some (v # vs) | _ \<Rightarrow> None)"

fun b64Loop :: "bool \<Rightarrow> string \<Rightarrow> string option" where
  "b64Loop urlSafe (a # b # c # d # rest) =
     (if \<not> urlSafe \<and> rest = [] \<and> d = CHR ''=''
      then map_option quantum
             (sextets (b64Value urlSafe) (if c = CHR ''='' then [a, b] else [a, b, c]))
      else case (sextets (b64Value urlSafe) [a, b, c, d], b64Loop urlSafe rest) of
        (Some vs, Some out) \<Rightarrow> Some (quantum vs @ out)
      | _ \<Rightarrow> None)"
| "b64Loop urlSafe [] = Some []"
| "b64Loop urlSafe [a] = None"
| "b64Loop urlSafe rest = (if urlSafe then map_option quantum (sextets (b64Value urlSafe) rest) else None)"

definition b64Decode :: "bool \<Rightarrow> string \<Rightarrow> string option" where
  "b64Decode urlSafe s = b64Loop urlSafe (filter (\<lambda>c. c \<noteq> carriageReturn \<and> c \<noteq> lineFeed) s)"

section \<open>BasicAuth\<close>

text \<open>\<open>r.BasicAuth()\<close>.\<close>

definition requestBasicAuth :: "request \<Rightarrow> string \<times> string \<times> bool" where
  "requestBasicAuth r =
     (let auth = headerGet (rHeader r) ''Authorization'' in
      if length auth < 6 \<or> \<not> equalFold (take 6 auth) ''Basic '' then ([], [], False)
      else case b64Decode False (drop 6 auth) of
        None \<Rightarrow> ([], [], False)
      | Some cs \<Rightarrow> (case cutByte cs (CHR '':'') of (u, p, True) \<Rightarrow> (u, p, True) | _ \<Rightarrow> ([], [], False)))"

type_synonym hash = "string \<Rightarrow> string"

record basicAuthEntry =
  userHash :: string
  passHash :: string

definition sanitiseRealm :: "string \<Rightarrow> string" where
  "sanitiseRealm realm =
     concat (map (\<lambda>c. if c = quoteMark then [backslash, quoteMark]
                      else if c = carriageReturn \<or> c = lineFeed then [] else [c]) realm)"

text \<open>\<open>subtle.ConstantTimeCompare\<close> and \<open>ConstantTimeCopy\<close> on arrays of the same length.\<close>

definition constantTimeCompare :: "string \<Rightarrow> string \<Rightarrow> nat" where
  "constantTimeCompare x y = (if x = y then 1 else 0)"

definition constantTimeCopy :: "nat \<Rightarrow> string \<Rightarrow> string \<Rightarrow> string" where
  "constantTimeCopy v x y = (if v = 1 then y else x)"

definition zeroHash :: string where
  "zeroHash = replicate 32 (char_of (0 :: nat))"

fun scanEntries :: "string \<Rightarrow> basicAuthEntry list \<Rightarrow> string \<Rightarrow> nat \<Rightarrow> string \<times> nat" where
  "scanEntries uh [] selected anyMatch = (selected, anyMatch)"
| "scanEntries uh (e # es) selected anyMatch =
     (let userMatch = constantTimeCompare (userHash e) uh
      in scanEntries uh es (constantTimeCopy userMatch selected (passHash e)) (or anyMatch userMatch))"

text \<open>\<open>creds\<close> lists the map in the order of its iteration, which Go leaves open.\<close>

definition authEntries :: "hash \<Rightarrow> (string \<times> string) list \<Rightarrow> basicAuthEntry list" where
  "authEntries sha creds = map (\<lambda>(user, pass). \<lparr>userHash = sha user, passHash = sha pass\<rparr>) creds"

definition basicAuthorised :: "hash \<Rightarrow> (string \<times> string) list \<Rightarrow> request \<Rightarrow> bool" where
  "basicAuthorised sha creds r =
     (let (user, pass, given) = requestBasicAuth r;
          (selected0, anyMatch) = scanEntries (sha user) (authEntries sha creds) zeroHash 0;
          selected = constantTimeCopy (1 - anyMatch) selected0
                       (sha ''muxmaster:dummy-password-for-constant-time'')
      in given \<and> anyMatch = 1 \<and> constantTimeCompare (sha pass) selected = 1)"

definition unauthorized :: "string \<Rightarrow> 'w rw \<Rightarrow> 'w served" where
  "unauthorized challenge w =
     ok (httpError (statusText 401) 401 (headerSet ''WWW-Authenticate'' challenge w))"

definition basicChallenge :: "string \<Rightarrow> string" where
  "basicChallenge realm = ''Basic realm='' @ [quoteMark] @ sanitiseRealm realm @ [quoteMark]"

definition basicAuth :: "hash \<Rightarrow> string \<Rightarrow> (string \<times> string) list option \<Rightarrow> goPanic + 'w middleware" where
  "basicAuth sha realm creds =
     (case creds of
        None \<Rightarrow> Inl (BadConfig ''middleware: BasicAuth requires non-nil credentials map'')
      | Some cs \<Rightarrow>
          Inr (\<lambda>next r w. if basicAuthorised sha cs r then next r w
                           else unauthorized (basicChallenge realm) w))"

section \<open>APIKey\<close>

record apiKeyOptions =
  apiKeys :: "(string \<times> string) list"
  apiHeader :: string
  apiExtract :: "(request \<Rightarrow> string) option"

definition apiKeyExtract :: "apiKeyOptions \<Rightarrow> request \<Rightarrow> string" where
  "apiKeyExtract opts =
     (case apiExtract opts of
        Some f \<Rightarrow> f
      | None \<Rightarrow> (\<lambda>r. headerGet (rHeader r) (if apiHeader opts = [] then ''X-API-Key'' else apiHeader opts)))"

text \<open>The map of hashes; a later key of the iteration replaces an earlier one with its hash.\<close>

definition hashedKeys :: "hash \<Rightarrow> (string \<times> string) list \<Rightarrow> string \<Rightarrow> string option" where
  "hashedKeys sha keys = fold (\<lambda>(k, i) m. m(sha k \<mapsto> i)) keys Map.empty"

definition apiChallenge :: string where
  "apiChallenge = ''ApiKey realm='' @ [quoteMark] @ ''api'' @ [quoteMark]"

definition apiKey :: "hash \<Rightarrow> apiKeyOptions \<Rightarrow> goPanic + 'w middleware" where
  "apiKey sha opts =
     (if apiKeys opts = []
      then Inl (BadConfig ''middleware: APIKey requires at least one key in opts.Keys'')
      else Inr (\<lambda>next r w.
        let raw = apiKeyExtract opts r in
        if raw = [] then unauthorized apiChallenge w
        else case hashedKeys sha (apiKeys opts) (sha raw) of
          None \<Rightarrow> unauthorized (apiChallenge @ '', error='' @ [quoteMark] @ ''invalid_key'' @ [quoteMark]) w
        | Some i \<Rightarrow>
            next (withContext r (ValueCtx (requestContext r) APIKeyKey (TextVal i)))
              (headerDel ''WWW-Authenticate'' (headerSet ''WWW-Authenticate'' apiChallenge w))))"

definition getAPIKeyIdentity :: "ctx \<Rightarrow> string \<times> bool" where
  "getAPIKeyIdentity c =
     (case contextValue APIKeyKey c of Some (TextVal i) \<Rightarrow> (i, True) | _ \<Rightarrow> ([], False))"

section \<open>Bearer tokens\<close>

definition extractBearerToken :: "request \<Rightarrow> string" where
  "extractBearerToken r =
     (let auth = headerGet (rHeader r) ''Authorization'' in
      if length auth < 8 \<or> auth ! 6 \<noteq> CHR '' '' \<or> \<not> equalFold (take 6 auth) ''bearer'' then []
      else drop 7 auth)"

section \<open>Lemmas\<close>

lemma scan_or: "or (n :: nat) (if b then 1 else 0) = (if b then or n 1 else n)"
  by simp

text \<open>
  The scan without branches selects the last entry whose hash is that of the user, if any.
\<close>

lemma scanEntries_last:
  assumes "anyMatch \<le> 1"
  shows "scanEntries uh es selected anyMatch =
     (case filter (\<lambda>e. userHash e = uh) es of
        [] \<Rightarrow> (selected, anyMatch)
      | ms \<Rightarrow> (passHash (last ms), 1))"
  using assms
proof (induction es arbitrary: selected anyMatch)
  case (Cons e es)
  have o: "or anyMatch (1 :: nat) = 1" "or anyMatch (0 :: nat) = anyMatch"
    using Cons.prems by (auto simp: le_Suc_eq)
  show ?case
    using Cons.IH [of 1 "passHash e"] Cons.IH [OF Cons.prems, of selected] Cons.prems o
    by (cases "userHash e = uh")
      (simp_all add: constantTimeCompare_def constantTimeCopy_def split: list.splits)
qed simp

text \<open>No two different strings of the set collide.\<close>

lemma basicAuthorised_iff:
  assumes "distinct (map fst creds)" "requestBasicAuth r = (user, pass, given)"
    and "inj_on sha (insert user (insert pass (fst ` set creds \<union> snd ` set creds)))"
  shows "basicAuthorised sha creds r \<longleftrightarrow> given \<and> map_of creds user = Some pass"
proof -
  let ?A = "insert user (insert pass (fst ` set creds \<union> snd ` set creds))"
  have u: "sha u = sha user \<longleftrightarrow> u = user" if "(u, p) \<in> set creds" for u p
    by (rule inj_on_eq_iff [OF assms(3)]) (use that in force)+
  have m: "filter (\<lambda>e. userHash e = sha user) (authEntries sha creds)
      = authEntries sha (filter (\<lambda>c. fst c = user) creds)"
  proof -
    have "filter (\<lambda>x. sha (fst x) = sha user) creds = filter (\<lambda>c. fst c = user) creds"
      by (rule filter_cong) (use u in \<open>auto split: prod.splits\<close>)
    then show ?thesis by (simp add: authEntries_def filter_map o_def case_prod_beta)
  qed
  have scan: "scanEntries (sha user) (authEntries sha creds) zeroHash 0 =
      (case map_of creds user of None \<Rightarrow> (zeroHash, 0) | Some p \<Rightarrow> (sha p, 1))"
  proof (cases "map_of creds user")
    case None
    then have "filter (\<lambda>c. fst c = user) creds = []"
      by (auto simp: map_of_eq_None_iff filter_empty_conv)
    then show ?thesis using None by (simp add: scanEntries_last m) (simp add: authEntries_def)
  next
    case (Some p)
    then have "(user, p) \<in> set creds" by (rule map_of_SomeD)
    then have "filter (\<lambda>c. fst c = user) creds = [(user, p)]"
      using assms(1)
    proof (induction creds)
      case (Cons c cs)
      have "filter (\<lambda>c. fst c = user) cs = []" if "fst c = user"
        using Cons.prems(2) that unfolding filter_empty_conv by (metis distinct.simps(2) imageI list.set_map list.simps(9))
      then show ?case using Cons by (cases c) (auto simp: image_iff)
    qed simp
    then show ?thesis using Some by (simp add: scanEntries_last m) (simp add: authEntries_def)
  qed
  show ?thesis
  proof (cases "map_of creds user")
    case (Some p)
    then have "p \<in> snd ` set creds" using map_of_SomeD by force
    then have "sha pass = sha p \<longleftrightarrow> pass = p" by (intro inj_on_eq_iff [OF assms(3)]) auto
    then show ?thesis
      using Some scan assms(2)
      by (auto simp: basicAuthorised_def constantTimeCompare_def constantTimeCopy_def Let_def)
  qed (use scan assms(2) in \<open>auto simp: basicAuthorised_def Let_def\<close>)
qed

lemma hashedKeys_iff:
  assumes "distinct (map fst keys)" "inj_on sha (insert raw (fst ` set keys))"
  shows "hashedKeys sha keys (sha raw) = map_of keys raw"
proof -
  have "fold (\<lambda>(k, i) m. m(sha k \<mapsto> i)) keys m (sha raw)
      = (case map_of keys raw of Some i \<Rightarrow> Some i | None \<Rightarrow> m (sha raw))" for m
    using assms
  proof (induction keys arbitrary: m)
    case (Cons c cs)
    obtain k i where c: "c = (k, i)" by fastforce
    have "inj_on sha (insert raw (fst ` set cs))" using Cons.prems(2) by (rule inj_on_subset) auto
    moreover have "sha raw = sha k \<longleftrightarrow> raw = k" by (rule inj_on_eq_iff [OF Cons.prems(2)]) (simp_all add: c)
    moreover have "map_of cs k = None" using Cons.prems(1) c by (simp add: map_of_eq_None_iff)
    ultimately show ?case using Cons.IH Cons.prems(1) c by (auto split: option.splits)
  qed simp
  from this [of Map.empty] show ?thesis by (simp add: hashedKeys_def split: option.splits)
qed

text \<open>The realm cannot break the header into lines.\<close>

lemma sanitiseRealm_oneLine:
  "carriageReturn \<notin> set (sanitiseRealm realm) \<and> lineFeed \<notin> set (sanitiseRealm realm)"
  by (auto simp: sanitiseRealm_def carriageReturn_def lineFeed_def split: if_splits)

end
