(* ===== verification/JWT.thy ===== *)
theory JWT
  imports Credentials "HOL-Library.Word"
begin

text \<open>
  \<open>JWTAuth\<close> (middleware/jwt_auth.go). The primitives of the crypto packages and the JSON decoding of
  the two segments are parameters; everything around them is concrete: the segments of the token,
  base64, the memo of the last accepted header, the order of the checks and the arithmetic of times.
\<close>

section \<open>Times\<close>

text \<open>
  Package time counts seconds from the year 1 in an int64: \<open>time.Unix\<close> wraps, \<open>Add\<close> saturates. Here
  a time is the number of nanoseconds since 1970.
\<close>

definition unixToInternal :: int where
  "unixToInternal = 62135596800"

definition wrap64 :: "int \<Rightarrow> int" where
  "wrap64 i = sint (word_of_int i :: 64 word)"

definition second :: int where
  "second = 1000000000"

definition timeUnix :: "int \<Rightarrow> int" where
  "timeUnix s = (wrap64 (s + unixToInternal) - unixToInternal) * second"

definition timeAdd :: "int \<Rightarrow> int \<Rightarrow> int" where
  "timeAdd t d =
     (let s = (t + d) div second + unixToInternal; ns = (t + d) mod second in
      if s > 2 ^ 63 - 1 then (2 ^ 63 - 1 - unixToInternal) * second + ns
      else if s < - (2 ^ 63) then (- (2 ^ 63 - 1) - unixToInternal) * second + ns
      else t + d)"

text \<open>A number of seconds that is absent, and so 0, stays the zero time.\<close>

definition timeField :: "int \<Rightarrow> int option" where
  "timeField s = (if s \<noteq> 0 \<and> timeUnix s \<noteq> - unixToInternal * second then Some (timeUnix s) else None)"

section \<open>Options, keys and primitives\<close>

datatype curve = P256 | P384 | P521 | OtherCurve

text \<open>The dynamic type of \<open>opts.PublicKey\<close>, with the key material as a string.\<close>

datatype publicKey = NoPublicKey | RSAKey string | ECDSAKey curve string

record jwtOptions =
  joSecret :: "string option"
  joPublicKey :: publicKey
  joAlgorithms :: "string list"
  joIssuers :: "string list"
  joAudiences :: "string list"
  joClockSkew :: int
  joRequireExpiry :: bool

datatype hashName = SHA256 | SHA384 | SHA512

record cryptoPrims =
  hmacOf :: "hashName \<Rightarrow> string \<Rightarrow> string \<Rightarrow> string"
  digestOf :: "hashName \<Rightarrow> string \<Rightarrow> string"
  rsaVerify :: "string \<Rightarrow> hashName \<Rightarrow> string \<Rightarrow> string \<Rightarrow> bool"
  ecdsaVerify :: "string \<Rightarrow> string \<Rightarrow> nat \<Rightarrow> nat \<Rightarrow> bool"

section \<open>The HMAC pool\<close>

text \<open>
  An HMAC object is its hash, its key and what has been written to it; the pool hands out any
  object that was put back, or a new one.
\<close>

record hmacObj =
  hoHash :: hashName
  hoKey :: string
  hoWritten :: string

definition hmacVerify :: "cryptoPrims \<Rightarrow> hmacObj \<Rightarrow> string \<Rightarrow> string \<Rightarrow> bool \<times> hmacObj" where
  "hmacVerify prims h msg sig =
     (let h1 = h\<lparr>hoWritten := []\<rparr>;
          h2 = h1\<lparr>hoWritten := hoWritten h1 @ msg\<rparr>;
          mac = hmacOf prims (hoHash h2) (hoKey h2) (hoWritten h2)
      in (mac = sig, h2))"

section \<open>Construction\<close>

definition checkECDSA :: "string \<Rightarrow> curve \<Rightarrow> string \<Rightarrow> jwtOptions \<Rightarrow> goPanic option" where
  "checkECDSA alg c cname opts =
     (case joPublicKey opts of
        ECDSAKey c' k \<Rightarrow>
          if c' \<noteq> c
          then Some (BadConfig (''middleware: JWTAuth '' @ alg @ '' requires a '' @ cname @ '' public key (RFC 7518 ''
                 @ bytes [194, 167] @ ''3.4)''))
          else None
      | _ \<Rightarrow> Some (BadConfig (''middleware: JWTAuth '' @ alg @ '' requires opts.PublicKey to be *ecdsa.PublicKey'')))"

definition hmacHash :: "string \<Rightarrow> hashName option" where
  "hmacHash alg =
     (if alg = ''HS256'' then Some SHA256 else if alg = ''HS384'' then Some SHA384
      else if alg = ''HS512'' then Some SHA512 else None)"

definition checkAlg :: "jwtOptions \<Rightarrow> string \<Rightarrow> goPanic option" where
  "checkAlg opts alg =
     (if alg \<in> {''HS256'', ''HS384'', ''HS512''} then
        (if joSecret opts = None
         then Some (BadConfig (''middleware: JWTAuth '' @ alg @ '' requires opts.Secret'')) else None)
      else if alg \<in> {''RS256'', ''RS384'', ''RS512''} then
        (case joPublicKey opts of
           RSAKey k \<Rightarrow> None
         | _ \<Rightarrow> Some (BadConfig (''middleware: JWTAuth '' @ alg @ '' requires opts.PublicKey to be *rsa.PublicKey'')))
      else if alg = ''ES256'' then checkECDSA alg P256 ''P-256'' opts
      else if alg = ''ES384'' then checkECDSA alg P384 ''P-384'' opts
      else if alg = ''ES512'' then checkECDSA alg P521 ''P-521'' opts
      else Some (BadConfig (''middleware: JWTAuth unsupported algorithm: '' @ alg)))"

fun checkAlgs :: "jwtOptions \<Rightarrow> string list \<Rightarrow> goPanic option" where
  "checkAlgs opts [] = None"
| "checkAlgs opts (alg # algs) =
     (case checkAlg opts alg of Some e \<Rightarrow> Some e | None \<Rightarrow> checkAlgs opts algs)"

text \<open>The two warnings of the construction; their texts are left out.\<close>

datatype jwtWarning = MixedFamilies "string list" | ExpiryNotRequired

definition jwtWarnings :: "jwtOptions \<Rightarrow> jwtWarning list" where
  "jwtWarnings opts =
     (let fam = (\<lambda>p. if list_ex (\<lambda>alg. hasPrefix alg p) (joAlgorithms opts) then 1 else 0 :: nat)
      in (if fam ''HS'' + fam ''RS'' + fam ''ES'' > 1 then [MixedFamilies (joAlgorithms opts)] else [])
         @ (if \<not> joRequireExpiry opts then [ExpiryNotRequired] else []))"

definition jwtCheck :: "jwtOptions \<Rightarrow> goPanic option" where
  "jwtCheck opts =
     (if joAlgorithms opts = []
      then Some (BadConfig ''middleware: JWTAuth requires at least one algorithm in opts.Algorithms'')
      else checkAlgs opts (joAlgorithms opts))"

section \<open>Signatures\<close>

text \<open>\<open>big.Int.SetBytes\<close>.\<close>

definition bigEndian :: "string \<Rightarrow> nat" where
  "bigEndian s = foldl (\<lambda>n c. n * 256 + byteOf c) 0 s"

definition verifyECDSAJWT :: "cryptoPrims \<Rightarrow> string \<Rightarrow> string \<Rightarrow> string \<Rightarrow> nat \<Rightarrow> bool" where
  "verifyECDSAJWT prims pub digest sig keySize =
     (if length sig \<noteq> 2 * keySize then False
      else ecdsaVerify prims pub digest (bigEndian (take keySize sig)) (bigEndian (drop keySize sig)))"

text \<open>
  \<open>verifyFn\<close>; the assertions on the type of the key panic on another type. \<open>stale\<close> is what was
  written to the object that the pool hands out.
\<close>

definition verifyRSA :: "cryptoPrims \<Rightarrow> jwtOptions \<Rightarrow> hashName \<Rightarrow> string \<Rightarrow> string \<Rightarrow> goPanic + bool" where
  "verifyRSA prims opts h msg sig =
     (case joPublicKey opts of
        RSAKey k \<Rightarrow> Inr (rsaVerify prims k h (digestOf prims h msg) sig)
      | _ \<Rightarrow> Inl TypeAssertion)"

definition verifyECDSA :: "cryptoPrims \<Rightarrow> jwtOptions \<Rightarrow> hashName \<Rightarrow> nat \<Rightarrow> string \<Rightarrow> string \<Rightarrow> goPanic + bool" where
  "verifyECDSA prims opts h keySize msg sig =
     (case joPublicKey opts of
        ECDSAKey c k \<Rightarrow> Inr (verifyECDSAJWT prims k (digestOf prims h msg) sig keySize)
      | _ \<Rightarrow> Inl TypeAssertion)"

definition verifyFn :: "cryptoPrims \<Rightarrow> jwtOptions \<Rightarrow> string \<Rightarrow> string \<Rightarrow> string \<Rightarrow> string \<Rightarrow> goPanic + bool" where
  "verifyFn prims opts stale alg msg sig =
     (case (if alg \<in> set (joAlgorithms opts) then hmacHash alg else None) of
        Some h \<Rightarrow>
          Inr (fst (hmacVerify prims \<lparr>hoHash = h, hoKey = the (joSecret opts), hoWritten = stale\<rparr> msg sig))
      | None \<Rightarrow>
          if alg = ''RS256'' then verifyRSA prims opts SHA256 msg sig
          else if alg = ''RS384'' then verifyRSA prims opts SHA384 msg sig
          else if alg = ''RS512'' then verifyRSA prims opts SHA512 msg sig
          else if alg = ''ES256'' then verifyECDSA prims opts SHA256 32 msg sig
          else if alg = ''ES384'' then verifyECDSA prims opts SHA384 48 msg sig
          else if alg = ''ES512'' then verifyECDSA prims opts SHA512 66 msg sig
          else Inr False)"

section \<open>Segments\<close>

record rawJWTHeader =
  rhAlg :: string
  rhCrit :: "string list"

record rawJWTPayload =
  rpSub :: string
  rpIss :: string
  rpAud :: "string list"
  rpExp :: int
  rpNbf :: int
  rpIat :: int

text \<open>
  \<open>json.Unmarshal\<close> into the two structures, into a string and into a list of strings; the payload's
  decoder calls \<open>UnmarshalJSON\<close> on the bytes of \<open>aud\<close>.
\<close>

record jsonPrims =
  jsonString :: "string \<Rightarrow> string option"
  jsonStrings :: "string \<Rightarrow> string list option"
  jsonHeader :: "string \<Rightarrow> rawJWTHeader option"
  jsonPayload :: "(string \<Rightarrow> string list option) \<Rightarrow> string \<Rightarrow> rawJWTPayload option"

definition audUnmarshal :: "jsonPrims \<Rightarrow> string \<Rightarrow> string list option" where
  "audUnmarshal js data =
     (if length data > 0 \<and> data ! 0 = quoteMark then map_option (\<lambda>s. [s]) (jsonString js data)
      else jsonStrings js data)"

record jwtHeaderMemo =
  hmB64 :: string
  hmAlg :: string

definition decodeJWTHeader :: "jsonPrims \<Rightarrow> string \<Rightarrow> string list \<Rightarrow> jwtHeaderMemo option \<Rightarrow>
    string option \<times> jwtHeaderMemo option" where
  "decodeJWTHeader js headerB64 allowedAlgs memo =
     (if (case memo of Some m \<Rightarrow> hmB64 m = headerB64 | None \<Rightarrow> False) then (map_option hmAlg memo, memo)
      else case b64Decode True headerB64 of
        None \<Rightarrow> (None, memo)
      | Some headerBytes \<Rightarrow>
          (case jsonHeader js headerBytes of
             None \<Rightarrow> (None, memo)
           | Some hdr \<Rightarrow>
               if rhAlg hdr \<notin> set allowedAlgs then (None, memo)
               else if length (rhCrit hdr) > 0 then (None, memo)
               else (Some (rhAlg hdr), Some \<lparr>hmB64 = headerB64, hmAlg = rhAlg hdr\<rparr>)))"

datatype jwtError = JWTInvalid | JWTExpired | JWTNotYetValid

text \<open>The checks on the decoded payload, in their order.\<close>

definition checkPayload :: "jwtOptions \<Rightarrow> int \<Rightarrow> rawJWTPayload \<Rightarrow> jwtError option" where
  "checkPayload opts now raw =
     (if rpExp raw < 0 \<or> rpNbf raw < 0 \<or> rpIat raw < 0 then Some JWTInvalid
      else if joRequireExpiry opts \<and> rpExp raw = 0 then Some JWTInvalid
      else if rpExp raw \<noteq> 0 \<and> now > timeAdd (timeUnix (rpExp raw)) (joClockSkew opts) then Some JWTExpired
      else if rpNbf raw \<noteq> 0 \<and> timeAdd now (joClockSkew opts) < timeUnix (rpNbf raw) then Some JWTNotYetValid
      else if joIssuers opts \<noteq> [] \<and> rpIss raw \<notin> set (joIssuers opts) then Some JWTInvalid
      else if joAudiences opts \<noteq> [] \<and> \<not> list_ex (\<lambda>a. a \<in> set (joAudiences opts)) (rpAud raw) then Some JWTInvalid
      else None)"

definition claimsOf :: "rawJWTPayload \<Rightarrow> string \<Rightarrow> jwtClaims" where
  "claimsOf raw payload =
     \<lparr>clSubject = rpSub raw, clIssuer = rpIss raw, clAudience = rpAud raw,
      clExpiresAt = timeField (rpExp raw), clIssuedAt = timeField (rpIat raw),
      clNotBefore = timeField (rpNbf raw), clRawPayload = payload\<rparr>"

definition parseAndValidateJWT :: "cryptoPrims \<Rightarrow> jsonPrims \<Rightarrow> jwtOptions \<Rightarrow> int \<Rightarrow> string \<Rightarrow> string \<Rightarrow>
    jwtHeaderMemo option \<Rightarrow> (goPanic + (jwtError + jwtClaims)) \<times> jwtHeaderMemo option" where
  "parseAndValidateJWT prims js opts now stale token memo =
     (let (headerB64, rest, ok1) = cutByte token (CHR ''.'') in
      if \<not> ok1 then (Inr (Inl JWTInvalid), memo)
      else let (payloadB64, sigB64, ok2) = cutByte rest (CHR ''.'') in
      if \<not> ok2 then (Inr (Inl JWTInvalid), memo)
      else case decodeJWTHeader js headerB64 (joAlgorithms opts) memo of
        (None, memo1) \<Rightarrow> (Inr (Inl JWTInvalid), memo1)
      | (Some alg, memo1) \<Rightarrow>
          (case b64Decode True sigB64 of
             None \<Rightarrow> (Inr (Inl JWTInvalid), memo1)
           | Some sig \<Rightarrow>
               (case verifyFn prims opts stale alg (take (length headerB64 + 1 + length payloadB64) token) sig of
                  Inl e \<Rightarrow> (Inl e, memo1)
                | Inr False \<Rightarrow> (Inr (Inl JWTInvalid), memo1)
                | Inr True \<Rightarrow>
                    (case b64Decode True payloadB64 of
                       None \<Rightarrow> (Inr (Inl JWTInvalid), memo1)
                     | Some payload \<Rightarrow>
                         (case jsonPayload js (audUnmarshal js) payload of
                            None \<Rightarrow> (Inr (Inl JWTInvalid), memo1)
                          | Some raw \<Rightarrow>
                              (case checkPayload opts now raw of
                                 Some e \<Rightarrow> (Inr (Inl e), memo1)
                               | None \<Rightarrow> (Inr (Inr (claimsOf raw payload)), memo1)))))))"

section \<open>The handler\<close>

definition bearerChallenge :: string where
  "bearerChallenge = ''Bearer realm='' @ [quoteMark] @ ''api'' @ [quoteMark]"

definition invalidToken :: string where
  "invalidToken = bearerChallenge @ '', error='' @ [quoteMark] @ ''invalid_token'' @ [quoteMark]"

text \<open>
  One request: \<open>memo\<close> is what the load of the atomic pointer returns, and the result says what it
  holds afterwards.
\<close>

definition jwtServe :: "cryptoPrims \<Rightarrow> jsonPrims \<Rightarrow> jwtOptions \<Rightarrow> int \<Rightarrow> string \<Rightarrow> jwtHeaderMemo option \<Rightarrow>
    'w serve \<Rightarrow> request \<Rightarrow> 'w rw \<Rightarrow> 'w served \<times> jwtHeaderMemo option" where
  "jwtServe prims js opts now stale memo next r w =
     (let token = extractBearerToken r in
      if token = [] then (unauthorized bearerChallenge w, memo)
      else case parseAndValidateJWT prims js opts now stale token memo of
        (Inl e, memo1) \<Rightarrow> ((w, Some e), memo1)
      | (Inr (Inl err), memo1) \<Rightarrow> (unauthorized invalidToken w, memo1)
      | (Inr (Inr claims), memo1) \<Rightarrow>
          (next (withContext r (ValueCtx (requestContext r) JWTKey (ClaimsVal claims))) w, memo1))"

definition getJWTClaims :: "ctx \<Rightarrow> jwtClaims option" where
  "getJWTClaims c = (case contextValue JWTKey c of Some (ClaimsVal cl) \<Rightarrow> Some cl | _ \<Rightarrow> None)"

section \<open>Lemmas\<close>

text \<open>What the object held before does not matter.\<close>

lemma hmacVerify_fresh: "fst (hmacVerify prims h msg sig) \<longleftrightarrow> hmacOf prims (hoHash h) (hoKey h) msg = sig"
  by (simp add: hmacVerify_def Let_def)

text \<open>
  The memo is transparent: \<open>headerAlg\<close> decodes without it, and a memo that was stored by such a
  decoding never answers differently.
\<close>

definition headerAlg :: "jsonPrims \<Rightarrow> string list \<Rightarrow> string \<Rightarrow> string option" where
  "headerAlg js algs b64 =
     (case b64Decode True b64 of
        None \<Rightarrow> None
      | Some bs \<Rightarrow>
          (case jsonHeader js bs of
             None \<Rightarrow> None
           | Some hdr \<Rightarrow> if rhAlg hdr \<in> set algs \<and> rhCrit hdr = [] then Some (rhAlg hdr) else None))"

definition memoOK :: "jsonPrims \<Rightarrow> string list \<Rightarrow> jwtHeaderMemo option \<Rightarrow> bool" where
  "memoOK js algs memo \<longleftrightarrow> (case memo of None \<Rightarrow> True | Some m \<Rightarrow> headerAlg js algs (hmB64 m) = Some (hmAlg m))"

lemma decodeJWTHeader_pure:
  assumes "memoOK js algs memo"
  shows "fst (decodeJWTHeader js b64 algs memo) = headerAlg js algs b64"
    and "memoOK js algs (snd (decodeJWTHeader js b64 algs memo))"
  using assms unfolding decodeJWTHeader_def memoOK_def
  by (auto simp: headerAlg_def split: option.splits)

lemma headerAlg_allowed: "headerAlg js algs b64 = Some alg \<Longrightarrow> alg \<in> set algs"
  by (auto simp: headerAlg_def split: option.splits if_splits)

text \<open>The signature that each algorithm asks for.\<close>

definition rsaHash :: "string \<Rightarrow> hashName option" where
  "rsaHash alg =
     (if alg = ''RS256'' then Some SHA256 else if alg = ''RS384'' then Some SHA384
      else if alg = ''RS512'' then Some SHA512 else None)"

definition ecdsaSuite :: "string \<Rightarrow> (curve \<times> hashName \<times> nat) option" where
  "ecdsaSuite alg =
     (if alg = ''ES256'' then Some (P256, SHA256, 32) else if alg = ''ES384'' then Some (P384, SHA384, 48)
      else if alg = ''ES512'' then Some (P521, SHA512, 66) else None)"

definition signatureValid :: "cryptoPrims \<Rightarrow> jwtOptions \<Rightarrow> string \<Rightarrow> string \<Rightarrow> string \<Rightarrow> bool" where
  "signatureValid prims opts alg msg sig \<longleftrightarrow>
     (case hmacHash alg of
        Some h \<Rightarrow> (case joSecret opts of Some k \<Rightarrow> hmacOf prims h k msg = sig | None \<Rightarrow> False)
      | None \<Rightarrow>
          (case rsaHash alg of
             Some h \<Rightarrow>
               (case joPublicKey opts of RSAKey k \<Rightarrow> rsaVerify prims k h (digestOf prims h msg) sig | _ \<Rightarrow> False)
           | None \<Rightarrow>
               (case ecdsaSuite alg of
                  Some (c, h, n) \<Rightarrow>
                    (case joPublicKey opts of
                       ECDSAKey c' k \<Rightarrow> c' = c \<and> length sig = 2 * n
                         \<and> ecdsaVerify prims k (digestOf prims h msg) (bigEndian (take n sig)) (bigEndian (drop n sig))
                     | _ \<Rightarrow> False)
                | None \<Rightarrow> False)))"

lemma checkAlgs_None: "checkAlgs opts algs = None \<longleftrightarrow> (\<forall>alg\<in>set algs. checkAlg opts alg = None)"
  by (induction algs) (auto split: option.splits)

lemma verifyFn_signature:
  assumes "jwtCheck opts = None" and "alg \<in> set (joAlgorithms opts)"
  shows "verifyFn prims opts stale alg msg sig = Inr (signatureValid prims opts alg msg sig)"
proof -
  have "checkAlg opts alg = None" using assms by (simp add: jwtCheck_def checkAlgs_None split: if_splits)
  then consider h where "hmacHash alg = Some h" "joSecret opts \<noteq> None"
    | "hmacHash alg = None" "alg \<in> {''RS256'', ''RS384'', ''RS512''}" "checkAlg opts alg = None"
    | "hmacHash alg = None" "alg \<in> {''ES256'', ''ES384'', ''ES512''}" "checkAlg opts alg = None"
    by (auto simp: checkAlg_def hmacHash_def split: if_splits)
  then show ?thesis
  proof cases
    case (1 h)
    then show ?thesis using assms(2) by (auto simp: verifyFn_def signatureValid_def hmacVerify_fresh)
  next
    case 2
    then obtain k where "joPublicKey opts = RSAKey k" by (auto simp: checkAlg_def split: publicKey.splits)
    then show ?thesis using 2(1,2) by (auto simp: verifyFn_def signatureValid_def verifyRSA_def rsaHash_def)
  next
    case 3
    then obtain c k where "joPublicKey opts = ECDSAKey c k" "ecdsaSuite alg \<noteq> None" "fst (the (ecdsaSuite alg)) = c"
      by (auto simp: checkAlg_def checkECDSA_def ecdsaSuite_def split: publicKey.splits if_splits)
    then show ?thesis using 3(1,2)
      by (auto simp: verifyFn_def signatureValid_def verifyECDSA_def verifyECDSAJWT_def rsaHash_def ecdsaSuite_def)
  qed
qed

text \<open>Three segments, or more if the last one holds further dots.\<close>

lemma cutByte_iff: "cutByte s c = (a, b, True) \<longleftrightarrow> s = a @ c # b \<and> c \<notin> set a"
proof
  assume "s = a @ c # b \<and> c \<notin> set a"
  moreover have "c \<notin> set a \<Longrightarrow> cutByte (a @ c # b) c = (a, b, True)" by (induction a) auto
  ultimately show "cutByte s c = (a, b, True)" by simp
qed (rule cutByte_found)

lemma cut_token:
  "token = h @ [c] @ p @ [c] @ s \<and> c \<notin> set h \<and> c \<notin> set p
   \<longleftrightarrow> (\<exists>rest. cutByte token c = (h, rest, True) \<and> cutByte rest c = (p, s, True))"
  by (auto simp: cutByte_iff)

text \<open>
  The outcome of the whole function, with the memo gone: the segments, the header, the signature over
  the first two segments as they stand in the token, then the payload and its checks.
\<close>

definition jwtAccepts :: "cryptoPrims \<Rightarrow> jsonPrims \<Rightarrow> jwtOptions \<Rightarrow> int \<Rightarrow> string \<Rightarrow> jwtClaims \<Rightarrow> bool" where
  "jwtAccepts prims js opts now token claims \<longleftrightarrow>
     (\<exists>h p s alg sig payload raw.
        token = h @ ''.'' @ p @ ''.'' @ s \<and> CHR ''.'' \<notin> set h \<and> CHR ''.'' \<notin> set p
        \<and> headerAlg js (joAlgorithms opts) h = Some alg
        \<and> b64Decode True s = Some sig \<and> signatureValid prims opts alg (h @ ''.'' @ p) sig
        \<and> b64Decode True p = Some payload \<and> jsonPayload js (audUnmarshal js) payload = Some raw
        \<and> checkPayload opts now raw = None \<and> claims = claimsOf raw payload)"

lemma parseAndValidateJWT_memo:
  assumes "memoOK js (joAlgorithms opts) memo"
  shows "memoOK js (joAlgorithms opts) (snd (parseAndValidateJWT prims js opts now stale token memo))"
proof -
  have "memoOK js (joAlgorithms opts) m" if "decodeJWTHeader js b (joAlgorithms opts) memo = (r, m)" for b r m
    using decodeJWTHeader_pure(2)[OF assms, of b] that by simp
  then show ?thesis
    using assms by (auto simp: parseAndValidateJWT_def Let_def split: prod.splits option.splits sum.splits bool.splits)
qed

lemma parseAndValidateJWT_iff:
  assumes chk: "jwtCheck opts = None" and memo: "memoOK js (joAlgorithms opts) memo"
  shows "\<exists>res. fst (parseAndValidateJWT prims js opts now stale token memo) = Inr res
    \<and> (\<forall>claims. res = Inr claims \<longleftrightarrow> jwtAccepts prims js opts now token claims)"
proof -
  obtain h rest o1 where c1: "cutByte token (CHR ''.'') = (h, rest, o1)" by (metis surj_pair)
  obtain p s o2 where c2: "cutByte rest (CHR ''.'') = (p, s, o2)" by (metis surj_pair)
  have seg: "(token = h' @ ''.'' @ p' @ ''.'' @ s' \<and> CHR ''.'' \<notin> set h' \<and> CHR ''.'' \<notin> set p')
      = (h' = h \<and> p' = p \<and> s' = s \<and> o1 \<and> o2)" for h' p' s'
    using cut_token[of token h' "CHR ''.''" p' s'] c1 c2 by auto
  have assoc: "(a \<and> b \<and> c \<and> d) = ((a \<and> b \<and> c) \<and> d)" for a b c d by simp
  have acc: "jwtAccepts prims js opts now token claims \<longleftrightarrow> o1 \<and> o2 \<and>
      (\<exists>alg sig payload raw. headerAlg js (joAlgorithms opts) h = Some alg
        \<and> b64Decode True s = Some sig \<and> signatureValid prims opts alg (h @ ''.'' @ p) sig
        \<and> b64Decode True p = Some payload \<and> jsonPayload js (audUnmarshal js) payload = Some raw
        \<and> checkPayload opts now raw = None \<and> claims = claimsOf raw payload)" for claims
    unfolding jwtAccepts_def assoc[of "token = _" _ _ _] seg by blast
  show ?thesis
  proof (cases "o1 \<and> o2")
    case False
    then show ?thesis using c1 c2 acc by (auto simp: parseAndValidateJWT_def)
  next
    case True
    then have tok: "take (length h + 1 + length p) token = h @ ''.'' @ p"
      using c1 c2 by (auto dest!: cutByte_found)
    obtain alg m where d: "decodeJWTHeader js h (joAlgorithms opts) memo = (alg, m)" by fastforce
    have alg: "alg = headerAlg js (joAlgorithms opts) h" using decodeJWTHeader_pure(1)[OF memo, of h] d by simp
    have ver: "verifyFn prims opts stale a msg sig = Inr (signatureValid prims opts a msg sig)"
      if "alg = Some a" for a msg sig
      using verifyFn_signature[OF chk] headerAlg_allowed that alg by metis
    show ?thesis
      using True c1 c2 d alg ver tok acc
      by (auto simp: parseAndValidateJWT_def split: option.splits bool.splits)
  qed
qed

text \<open>Within the range of the representation, times are numbers.\<close>

lemma wrap64_same: "- (2 ^ 63) \<le> i \<Longrightarrow> i < 2 ^ 63 \<Longrightarrow> wrap64 i = i"
  unfolding wrap64_def by (simp add: int_word_sint)

lemma timeUnix_same: "0 \<le> s \<Longrightarrow> s \<le> 2 ^ 62 \<Longrightarrow> timeUnix s = s * second"
  by (simp add: timeUnix_def wrap64_same unixToInternal_def)

lemma timeAdd_same:
  assumes "\<bar>t\<bar> \<le> 2 ^ 62 * second" and "\<bar>d\<bar> \<le> 2 ^ 62"
  shows "timeAdd t d = t + d"
proof -
  have "t + d \<le> (2 ^ 62 + 2 ^ 33) * second" "- ((2 ^ 62 + 2 ^ 33) * second) \<le> t + d"
    using assms by (simp_all add: second_def)
  then have "(t + d) div second \<le> 2 ^ 62 + 2 ^ 33" "- (2 ^ 62 + 2 ^ 33) \<le> (t + d) div second"
    using zdiv_mono1[of "t + d" "(2 ^ 62 + 2 ^ 33) * second" second]
      zdiv_mono1[of "- ((2 ^ 62 + 2 ^ 33) * second)" "t + d" second] by (simp_all add: second_def)
  then show ?thesis by (simp add: timeAdd_def Let_def unixToInternal_def)
qed

end
