(* ===== verification/TokenCache.thy ===== *)
theory TokenCache
  imports MiddlewareBase "HOL-Library.Multiset"
begin

text \<open>
  The cache of introspected tokens (middleware/oauth2.go, \<open>oauth2Cache\<close>): a map of entries with a
  binary heap ordered by expiry in which every entry knows its position, over
  \<open>container/heap\<close>. Every operation holds the cache's lock, so operations are functions of the
  state.
\<close>

section \<open>Entries, map and heap\<close>

text \<open>
  An entry is an object: a pointer to it is its index in the list of all that were allocated. The
  position of an entry that left the heap is -1, here None.
\<close>

record oauth2Entry =
  oeKey :: string
  oeResp :: introspectResponse
  oeExpiry :: int
  oeIdx :: "nat option"

record oauth2Cache =
  ocStore :: "oauth2Entry list"
  ocEntries :: "string \<Rightarrow> nat option"
  ocHeap :: "nat list"
  ocMaxSize :: int

definition newOAuth2Cache :: "int \<Rightarrow> oauth2Cache" where
  "newOAuth2Cache maxSize = \<lparr>ocStore = [], ocEntries = Map.empty, ocHeap = [], ocMaxSize = maxSize\<rparr>"

definition setIdx :: "nat \<Rightarrow> nat option \<Rightarrow> oauth2Cache \<Rightarrow> oauth2Cache" where
  "setIdx a i c = c\<lparr>ocStore := (ocStore c)[a := (ocStore c ! a)\<lparr>oeIdx := i\<rparr>]\<rparr>"

definition expiryAt :: "oauth2Cache \<Rightarrow> nat \<Rightarrow> int" where
  "expiryAt c i = oeExpiry (ocStore c ! (ocHeap c ! i))"

definition heapLess :: "oauth2Cache \<Rightarrow> nat \<Rightarrow> nat \<Rightarrow> bool" where
  "heapLess c i j \<longleftrightarrow> expiryAt c i < expiryAt c j"

definition heapSwap :: "nat \<Rightarrow> nat \<Rightarrow> oauth2Cache \<Rightarrow> oauth2Cache" where
  "heapSwap i j c =
     (let h = ocHeap c; h' = h[i := h ! j, j := h ! i]
      in setIdx (h' ! j) (Some j) (setIdx (h' ! i) (Some i) (c\<lparr>ocHeap := h'\<rparr>)))"

definition heapPushBack :: "nat \<Rightarrow> oauth2Cache \<Rightarrow> oauth2Cache" where
  "heapPushBack a c = setIdx a (Some (length (ocHeap c))) (c\<lparr>ocHeap := ocHeap c @ [a]\<rparr>)"

definition heapPopBack :: "oauth2Cache \<Rightarrow> nat \<times> oauth2Cache" where
  "heapPopBack c =
     (let a = last (ocHeap c) in (a, (setIdx a None c)\<lparr>ocHeap := butlast (ocHeap c)\<rparr>))"

section \<open>Package container/heap\<close>

function heapUp :: "nat \<Rightarrow> oauth2Cache \<Rightarrow> oauth2Cache" where
  "heapUp j c =
     (let i = (j - 1) div 2
      in if i = j \<or> \<not> heapLess c j i then c else heapUp i (heapSwap i j c))"
  by pat_completeness auto
termination by (relation "measure (\<lambda>(j, c). j)") (auto simp: less_mult_imp_div_less)

declare heapUp.simps [simp del]

function heapDown :: "nat \<Rightarrow> nat \<Rightarrow> oauth2Cache \<Rightarrow> oauth2Cache \<times> nat" where
  "heapDown i n c =
     (let j1 = 2 * i + 1
      in if j1 \<ge> n then (c, i)
         else let j = (if j1 + 1 < n \<and> heapLess c (j1 + 1) j1 then j1 + 1 else j1)
           in if \<not> heapLess c j i then (c, i) else heapDown j n (heapSwap i j c))"
  by pat_completeness auto
termination by (relation "measure (\<lambda>(i, n, c). n - i)") auto

declare heapDown.simps [simp del]

definition heapPush :: "nat \<Rightarrow> oauth2Cache \<Rightarrow> oauth2Cache" where
  "heapPush a c = (let c1 = heapPushBack a c in heapUp (length (ocHeap c1) - 1) c1)"

definition heapPop :: "oauth2Cache \<Rightarrow> nat \<times> oauth2Cache" where
  "heapPop c =
     (let n = length (ocHeap c) - 1 in heapPopBack (fst (heapDown 0 n (heapSwap 0 n c))))"

definition heapFix :: "nat \<Rightarrow> oauth2Cache \<Rightarrow> oauth2Cache" where
  "heapFix i c =
     (let (c1, i1) = heapDown i (length (ocHeap c)) c in if i1 > i then c1 else heapUp i c1)"

section \<open>The operations\<close>

definition cacheGet :: "int \<Rightarrow> string \<Rightarrow> oauth2Cache \<Rightarrow> introspectResponse option" where
  "cacheGet now key c =
     (case ocEntries c key of
        None \<Rightarrow> None
      | Some a \<Rightarrow> if now > oeExpiry (ocStore c ! a) then None else Some (oeResp (ocStore c ! a)))"

definition evictOneLocked :: "oauth2Cache \<Rightarrow> bool \<times> oauth2Cache" where
  "evictOneLocked c =
     (if length (ocHeap c) = 0 then (False, c)
      else let (victim, c1) = heapPop c
        in (True, c1\<lparr>ocEntries := (ocEntries c1)(oeKey (ocStore c1 ! victim) := None)\<rparr>))"

definition insertEntry :: "string \<Rightarrow> introspectResponse \<Rightarrow> int \<Rightarrow> oauth2Cache \<Rightarrow> oauth2Cache" where
  "insertEntry key resp expiry c =
     (let a = length (ocStore c);
          c1 = c\<lparr>ocStore := ocStore c @ [\<lparr>oeKey = key, oeResp = resp, oeExpiry = expiry, oeIdx = Some 0\<rparr>]\<rparr>;
          c2 = heapPush a c1
      in c2\<lparr>ocEntries := (ocEntries c2)(key \<mapsto> a)\<rparr>)"

text \<open>\<open>live\<close> is \<open>len(c.entries)\<close>.\<close>

definition cacheSet :: "string \<Rightarrow> introspectResponse \<Rightarrow> int \<Rightarrow> oauth2Cache \<Rightarrow> oauth2Cache" where
  "cacheSet key resp expiry c =
     (case ocEntries c key of
        Some a \<Rightarrow>
          let e = ocStore c ! a;
              c1 = c\<lparr>ocStore := (ocStore c)[a := e\<lparr>oeResp := resp, oeExpiry := expiry\<rparr>]\<rparr>
          in heapFix (case oeIdx e of Some i \<Rightarrow> i | None \<Rightarrow> 0) c1
      | None \<Rightarrow>
          if int (card (dom (ocEntries c))) \<ge> ocMaxSize c
          then (case evictOneLocked c of
                  (False, c1) \<Rightarrow> c1
                | (True, c1) \<Rightarrow> insertEntry key resp expiry c1)
          else insertEntry key resp expiry c)"

end
