(* ===== verification/HeapOrder.thy ===== *)
theory HeapOrder
  imports MuxPrelude "HOL-Library.Multiset"
begin

text \<open>
  The order of a binary heap kept in a list of integers, and the two ways in which it is broken at
  one position while \<open>container/heap\<close> repairs it: towards the root (\<open>upOK\<close>) and towards the leaves
  (\<open>fixOK\<close>). The lemmas say what one exchange of two elements does to each.
\<close>

definition parent :: "nat \<Rightarrow> nat" where
  "parent i = (i - 1) div 2"

definition exchange :: "nat \<Rightarrow> nat \<Rightarrow> 'a list \<Rightarrow> 'a list" where
  "exchange i j xs = xs[i := xs ! j, j := xs ! i]"

text \<open>All of the first \<open>n\<close> elements are at least their parents.\<close>

definition ordered :: "nat \<Rightarrow> int list \<Rightarrow> bool" where
  "ordered n xs \<longleftrightarrow> (\<forall>k<n. xs ! parent k \<le> xs ! k)"

text \<open>Only the element at \<open>j\<close> may be below its parent.\<close>

definition upOK :: "nat \<Rightarrow> int list \<Rightarrow> nat \<Rightarrow> bool" where
  "upOK n xs j \<longleftrightarrow> (\<forall>k<n. k \<noteq> j \<longrightarrow> xs ! parent k \<le> xs ! k)
     \<and> (\<forall>k<n. k \<noteq> 0 \<longrightarrow> parent k = j \<longrightarrow> xs ! parent j \<le> xs ! k)"

text \<open>The element at \<open>i\<close> may be below its parent or above its children.\<close>

definition fixOK :: "nat \<Rightarrow> int list \<Rightarrow> nat \<Rightarrow> bool" where
  "fixOK n xs i \<longleftrightarrow> (\<forall>k<n. k \<noteq> i \<longrightarrow> parent k \<noteq> i \<longrightarrow> xs ! parent k \<le> xs ! k)
     \<and> (\<forall>k<n. k \<noteq> 0 \<longrightarrow> k \<noteq> i \<longrightarrow> parent k = i \<longrightarrow> i \<noteq> 0 \<longrightarrow> xs ! parent i \<le> xs ! k)"

lemma parent_less [simp]: "0 < i \<Longrightarrow> parent i < i"
  by (auto simp: parent_def less_mult_imp_div_less)

lemma parent_0 [simp]: "parent 0 = 0"
  by (simp add: parent_def)

lemma parent_le [simp]: "parent i \<le> i"
  unfolding parent_def by linarith

lemma parent_iff: "0 < k \<Longrightarrow> parent k = i \<longleftrightarrow> k = 2 * i + 1 \<or> k = 2 * i + 2"
  by (auto simp: parent_def)

lemma parent_bound: "k < n \<Longrightarrow> parent k < n"
  by (rule le_less_trans[OF parent_le])

lemma length_exchange [simp]: "length (exchange i j xs) = length xs"
  by (simp add: exchange_def)

lemma nth_exchange:
  "i < length xs \<Longrightarrow> j < length xs \<Longrightarrow> k < length xs \<Longrightarrow>
   exchange i j xs ! k = (if k = j then xs ! i else if k = i then xs ! j else xs ! k)"
  by (simp add: exchange_def nth_list_update)

lemma mset_exchange [simp]: "i < length xs \<Longrightarrow> j < length xs \<Longrightarrow> mset (exchange i j xs) = mset xs"
  by (simp add: exchange_def mset_swap)

lemma set_exchange [simp]: "i < length xs \<Longrightarrow> j < length xs \<Longrightarrow> set (exchange i j xs) = set xs"
  by (metis mset_exchange set_mset_mset)

lemma distinct_exchange [simp]:
  "i < length xs \<Longrightarrow> j < length xs \<Longrightarrow> distinct (exchange i j xs) = distinct xs"
  by (metis mset_exchange mset_eq_imp_distinct_iff)

lemma map_exchange: "i < length xs \<Longrightarrow> j < length xs \<Longrightarrow> map f (exchange i j xs) = exchange i j (map f xs)"
  by (simp add: exchange_def map_update)

lemma ordered_root:
  assumes "ordered n xs" and "k < n"
  shows "xs ! 0 \<le> xs ! k"
  using assms(2)
proof (induction k rule: less_induct)
  case (less k)
  show ?case
  proof (cases "k = 0")
    case False
    then have "xs ! 0 \<le> xs ! parent k" using less by (meson le_less_trans neq0_conv parent_le parent_less)
    moreover have "xs ! parent k \<le> xs ! k" using assms(1) less(2) by (simp add: ordered_def)
    ultimately show ?thesis by simp
  qed simp
qed

lemma up_done: "upOK n xs j \<Longrightarrow> j = 0 \<or> xs ! parent j \<le> xs ! j \<Longrightarrow> ordered n xs"
  unfolding upOK_def ordered_def by (metis order_refl parent_0)

lemma up_step:
  assumes up: "upOK n xs j" and j: "0 < j" "j < n" and n: "n \<le> length xs" and lt: "xs ! j < xs ! parent j"
  shows "upOK n (exchange (parent j) j xs) (parent j)"
proof -
  let ?p = "parent j"
  have p: "?p < j" using j by simp
  have edge: "\<And>k. k < n \<Longrightarrow> k \<noteq> j \<Longrightarrow> xs ! parent k \<le> xs ! k"
    and below: "\<And>k. k < n \<Longrightarrow> k \<noteq> 0 \<Longrightarrow> parent k = j \<Longrightarrow> xs ! ?p \<le> xs ! k"
    using up by (auto simp: upOK_def)
  have nth: "exchange ?p j xs ! k = (if k = j then xs ! ?p else if k = ?p then xs ! j else xs ! k)"
    if "k < n" for k using that j n p by (intro nth_exchange) auto
  have pk: "parent k < n" if "k < n" for k using that parent_le[of k] by linarith
  have 1: "exchange ?p j xs ! parent k \<le> exchange ?p j xs ! k" if k: "k < n" "k \<noteq> ?p" for k
  proof (cases "k = j")
    case True
    then show ?thesis using lt nth[OF k(1)] nth[OF pk[OF k(1)]] p by simp
  next
    case kj: False
    consider "parent k = j" | "parent k = ?p" | "parent k \<noteq> j" "parent k \<noteq> ?p" by auto
    then show ?thesis
    proof cases
      case 1
      have "k \<noteq> 0" using 1 j by (metis parent_0 less_irrefl)
      with below[OF k(1) _ 1] show ?thesis using nth[OF k(1)] nth[OF pk[OF k(1)]] 1 kj k by simp
    next
      case 2
      then show ?thesis using edge[OF k(1) kj] lt nth[OF k(1)] nth[OF pk[OF k(1)]] kj k p by simp
    next
      case 3
      then show ?thesis using edge[OF k(1) kj] nth[OF k(1)] nth[OF pk[OF k(1)]] kj k by simp
    qed
  qed
  have 2: "exchange ?p j xs ! parent ?p \<le> exchange ?p j xs ! k" if k: "k < n" "k \<noteq> 0" "parent k = ?p" for k
  proof (cases "?p = 0")
    case True
    have "k \<noteq> ?p" using k True by simp
    then show ?thesis using 1[OF k(1)] k True by simp
  next
    case False
    have pp: "parent ?p < ?p" using False by simp
    have pn: "?p < n" using p j by linarith
    have a: "xs ! parent ?p \<le> xs ! ?p" using edge[OF pn] p by simp
    have b: "exchange ?p j xs ! parent ?p = xs ! parent ?p"
      using nth[OF pk[OF pn]] pp p by simp
    show ?thesis
    proof (cases "k = j")
      case True
      then show ?thesis using a b nth[OF k(1)] by simp
    next
      case kj: False
      have kp: "k \<noteq> ?p" using k(3) pp by auto
      show ?thesis using a b nth[OF k(1)] edge[OF k(1) kj] kj kp k(3) by simp
    qed
  qed
  show ?thesis using 1 2 by (auto simp: upOK_def)
qed

lemma fix_done:
  assumes fx: "fixOK n xs i" and kids: "\<And>k. k < n \<Longrightarrow> k \<noteq> 0 \<Longrightarrow> parent k = i \<Longrightarrow> xs ! i \<le> xs ! k"
  shows "upOK n xs i"
proof -
  have "xs ! parent k \<le> xs ! k" if k: "k < n" "k \<noteq> i" for k
    using fx kids[OF k(1)] k by (cases "k = 0"; cases "parent k = i") (auto simp: fixOK_def)
  moreover have "xs ! parent i \<le> xs ! k" if k: "k < n" "k \<noteq> 0" "parent k = i" for k
  proof (cases "i = 0 \<or> k = i")
    case True
    then show ?thesis using kids[OF k] k by auto
  next
    case False
    then show ?thesis using fx k by (auto simp: fixOK_def)
  qed
  ultimately show ?thesis by (auto simp: upOK_def)
qed

text \<open>The smaller child changes places with its parent.\<close>

lemma down_step:
  assumes fx: "fixOK n xs i" and c: "c < n" "c \<noteq> 0" "parent c = i" and n: "n \<le> length xs"
    and lt: "xs ! c < xs ! i"
    and least: "\<And>k. k < n \<Longrightarrow> k \<noteq> 0 \<Longrightarrow> parent k = i \<Longrightarrow> xs ! c \<le> xs ! k"
  shows "fixOK n (exchange i c xs) c" and "exchange i c xs ! parent c \<le> exchange i c xs ! c"
    and "ordered n (exchange i c xs) \<or> (\<exists>k<n. k \<noteq> 0 \<and> parent k = c)"
proof -
  let ?ys = "exchange i c xs"
  have ic: "i < c" using c by auto
  have nth: "?ys ! k = (if k = c then xs ! i else if k = i then xs ! c else xs ! k)" if "k < n" for k
    using that c n ic by (intro nth_exchange) auto
  have pk: "parent k < n" if "k < n" for k using that parent_le[of k] by linarith
  show top: "?ys ! parent c \<le> ?ys ! c"
    using c ic lt nth[of c] nth[of i] by simp
  have edge: "?ys ! parent k \<le> ?ys ! k" if k: "k < n" "parent k \<noteq> c" for k
  proof (cases "k = 0")
    case False
    show ?thesis
    proof (cases "k = c")
      case True
      then show ?thesis using top by simp
    next
      case kc: False
      show ?thesis
      proof (cases "parent k = i")
        case True
        have "k \<noteq> i" using True False parent_less[of k] by auto
        then show ?thesis using least[OF k(1) False True] nth[OF k(1)] nth[OF pk[OF k(1)]] kc True ic by simp
      next
        case pki: False
        show ?thesis
        proof (cases "k = i")
          case True
          have "i \<noteq> 0" using True False by simp
          moreover have "c \<noteq> i" using ic by simp
          ultimately have "xs ! parent i \<le> xs ! c" using fx c by (auto simp: fixOK_def)
          then show ?thesis using True nth[OF k(1)] nth[OF pk[OF k(1)]] k pki kc by simp
        next
          case ki: False
          then have "xs ! parent k \<le> xs ! k" using fx k pki by (auto simp: fixOK_def)
          then show ?thesis using nth[OF k(1)] nth[OF pk[OF k(1)]] k pki kc ki by simp
        qed
      qed
    qed
  qed simp
  have "?ys ! parent c \<le> ?ys ! k" if k: "k < n" "k \<noteq> 0" "parent k = c" for k
  proof -
    have "k \<noteq> c" using k parent_less[of k] by auto
    have "k \<noteq> i" using k(2,3) ic parent_less[of k] by auto
    then have "xs ! c \<le> xs ! k" using fx k ic \<open>k \<noteq> c\<close> c(3) unfolding fixOK_def by (metis order_less_irrefl)
    then show ?thesis using nth[OF k(1)] nth[of i] c ic \<open>k \<noteq> c\<close> \<open>k \<noteq> i\<close> by simp
  qed
  then show "fixOK n ?ys c" using edge by (auto simp: fixOK_def)
  show "ordered n ?ys \<or> (\<exists>k<n. k \<noteq> 0 \<and> parent k = c)"
    using edge c(2) by (metis ordered_def parent_0)
qed

text \<open>An element that was put in place of another breaks the order only there.\<close>

lemma ordered_update:
  assumes "ordered n xs" and "i < n" and "n \<le> length xs"
  shows "fixOK n (xs[i := x]) i"
proof -
  have e: "\<And>k. k < n \<Longrightarrow> xs ! parent k \<le> xs ! k" using assms(1) by (simp add: ordered_def)
  have "xs[i := x] ! parent k \<le> xs[i := x] ! k" if k: "k < n" "k \<noteq> i" "parent k \<noteq> i" for k
    using e[OF k(1)] k by simp
  moreover have "xs[i := x] ! parent i \<le> xs[i := x] ! k"
    if k: "k < n" "k \<noteq> 0" "k \<noteq> i" "parent k = i" "i \<noteq> 0" for k
  proof -
    have "parent i \<noteq> i" using k(5) by (metis neq0_conv parent_less less_irrefl)
    then show ?thesis using e[OF k(1)] e[OF assms(2)] k by simp
  qed
  ultimately show ?thesis by (auto simp: fixOK_def)
qed

lemma ordered_snoc: "ordered n xs \<Longrightarrow> n = length xs \<Longrightarrow> upOK (Suc n) (xs @ [x]) n"
  unfolding ordered_def upOK_def
  by (auto simp: nth_append less_Suc_eq parent_bound dest: parent_bound)

end
