(* ===== verification/TokenCacheSafe.thy ===== *)
theory TokenCacheSafe
  imports TokenCache HeapOrder
begin

text \<open>
  The operations of \<open>container/heap\<close> on the token cache, seen on the list of expiries: they keep
  the positions the entries record, permute the heap and restore its order. From this follow the
  invariant of the cache and what \<open>set\<close> does to the map from keys to responses and expiries.
\<close>

section \<open>Positions and contents\<close>

definition expiries :: "oauth2Cache \<Rightarrow> int list" where
  "expiries c = map (\<lambda>a. oeExpiry (ocStore c ! a)) (ocHeap c)"

definition positionsOK :: "oauth2Cache \<Rightarrow> bool" where
  "positionsOK c \<longleftrightarrow> distinct (ocHeap c) \<and> set (ocHeap c) \<subseteq> {..<length (ocStore c)}
     \<and> (\<forall>i<length (ocHeap c). oeIdx (ocStore c ! (ocHeap c ! i)) = Some i)"

text \<open>Nothing but positions and the arrangement of the heap differs.\<close>

definition payload :: "oauth2Entry \<Rightarrow> string \<times> introspectResponse \<times> int" where
  "payload e = (oeKey e, oeResp e, oeExpiry e)"

definition rearranged :: "oauth2Cache \<Rightarrow> oauth2Cache \<Rightarrow> bool" where
  "rearranged c c' \<longleftrightarrow> map payload (ocStore c') = map payload (ocStore c) \<and> mset (ocHeap c') = mset (ocHeap c)
     \<and> ocEntries c' = ocEntries c \<and> ocMaxSize c' = ocMaxSize c"

lemma rearranged_refl [simp]: "rearranged c c"
  by (simp add: rearranged_def)

lemma rearranged_trans: "rearranged a b \<Longrightarrow> rearranged b c \<Longrightarrow> rearranged a c"
  by (simp add: rearranged_def)

lemma rearrangedD:
  assumes "rearranged c c'"
  shows "length (ocStore c') = length (ocStore c)" and "length (ocHeap c') = length (ocHeap c)"
    and "set (ocHeap c') = set (ocHeap c)" and "ocEntries c' = ocEntries c" and "ocMaxSize c' = ocMaxSize c"
    and "\<And>a. a < length (ocStore c) \<Longrightarrow> payload (ocStore c' ! a) = payload (ocStore c ! a)"
proof -
  from assms have m: "map payload (ocStore c') = map payload (ocStore c)" and h: "mset (ocHeap c') = mset (ocHeap c)"
    by (simp_all add: rearranged_def)
  show l: "length (ocStore c') = length (ocStore c)" using m by (metis length_map)
  show "length (ocHeap c') = length (ocHeap c)" using h by (metis size_mset)
  show "set (ocHeap c') = set (ocHeap c)" using h by (metis set_mset_mset)
  show "ocEntries c' = ocEntries c" "ocMaxSize c' = ocMaxSize c" using assms by (simp_all add: rearranged_def)
  show "payload (ocStore c' ! a) = payload (ocStore c ! a)" if "a < length (ocStore c)" for a
    using m l that by (metis nth_map)
qed

lemma payload_setIdx: "map payload (ocStore (setIdx a i c)) = map payload (ocStore c)"
  by (cases "a < length (ocStore c)")
    (auto simp: setIdx_def payload_def map_update list_update_beyond intro!: nth_equalityI simp: nth_list_update)

lemma setIdx_sel [simp]:
  "ocHeap (setIdx a i c) = ocHeap c" "ocEntries (setIdx a i c) = ocEntries c"
  "ocMaxSize (setIdx a i c) = ocMaxSize c" "length (ocStore (setIdx a i c)) = length (ocStore c)"
  by (simp_all add: setIdx_def)

lemma expiryAt_expiries: "i < length (ocHeap c) \<Longrightarrow> expiryAt c i = expiries c ! i"
  by (simp add: expiryAt_def expiries_def)

lemma length_expiries [simp]: "length (expiries c) = length (ocHeap c)"
  by (simp add: expiries_def)

lemma heapSwap_heap: "ocHeap (heapSwap i j c) = exchange i j (ocHeap c)"
  by (simp add: heapSwap_def exchange_def Let_def)

lemma heapSwap_rearranged:
  "i < length (ocHeap c) \<Longrightarrow> j < length (ocHeap c) \<Longrightarrow> rearranged c (heapSwap i j c)"
  unfolding rearranged_def heapSwap_heap by (simp add: heapSwap_def Let_def payload_setIdx)

lemma heapSwap_expiries:
  assumes ij: "i < length (ocHeap c)" "j < length (ocHeap c)" and ok: "positionsOK c"
  shows "expiries (heapSwap i j c) = exchange i j (expiries c)"
proof -
  have "oeExpiry (ocStore (heapSwap i j c) ! a) = oeExpiry (ocStore c ! a)" if "a \<in> set (ocHeap c)" for a
    using rearrangedD(6)[OF heapSwap_rearranged[OF ij], of a] that ok
    by (auto simp: positionsOK_def payload_def)
  then show ?thesis unfolding expiries_def heapSwap_heap
    using ij by (simp add: map_exchange cong: map_cong)
qed

lemma heapSwap_positions:
  assumes ij: "i < length (ocHeap c)" "j < length (ocHeap c)" and ok: "positionsOK c"
  shows "positionsOK (heapSwap i j c)"
proof -
  let ?h = "exchange i j (ocHeap c)"
  have d: "distinct ?h" and s: "set ?h \<subseteq> {..<length (ocStore c)}" using ok ij by (auto simp: positionsOK_def)
  have "oeIdx (ocStore (heapSwap i j c) ! (?h ! k)) = Some k" if k: "k < length (ocHeap c)" for k
  proof -
    have hk: "?h ! k < length (ocStore c)" using s k by (auto simp: subset_iff)
    have eq: "?h ! k = ?h ! l \<longleftrightarrow> k = l" if "l < length (ocHeap c)" for l
      using d k that by (simp add: nth_eq_iff_index_eq)
    have h': "(ocHeap c)[i := ocHeap c ! j, j := ocHeap c ! i] = ?h" by (simp add: exchange_def)
    show ?thesis
      using hk eq[OF ij(1)] eq[OF ij(2)] ok k ij nth_exchange[OF ij k]
      by (auto simp: heapSwap_def Let_def setIdx_def h' nth_list_update positionsOK_def)
  qed
  then show ?thesis using d s heapSwap_rearranged[OF ij]
    by (auto simp: positionsOK_def heapSwap_heap rearrangedD)
qed

section \<open>Repairing the order\<close>

text \<open>What every rearrangement here establishes.\<close>

definition arranged :: "oauth2Cache \<Rightarrow> oauth2Cache \<Rightarrow> bool" where
  "arranged c c' \<longleftrightarrow> rearranged c c' \<and> positionsOK c'"

lemma heapSwap_arranged:
  "i < length (ocHeap c) \<Longrightarrow> j < length (ocHeap c) \<Longrightarrow> positionsOK c \<Longrightarrow> arranged c (heapSwap i j c)"
  by (simp add: arranged_def heapSwap_rearranged heapSwap_positions)

lemma arranged_trans: "arranged a b \<Longrightarrow> arranged b c \<Longrightarrow> arranged a c"
  by (auto simp: arranged_def intro: rearranged_trans)

lemma heapUp_ordered:
  assumes "upOK (length (ocHeap c)) (expiries c) j" and "positionsOK c" and "j < length (ocHeap c)"
  shows "arranged c (heapUp j c) \<and> ordered (length (ocHeap c)) (expiries (heapUp j c))"
  using assms
proof (induction j c rule: heapUp.induct)
  case (1 j c)
  let ?p = "(j - 1) div 2"
  have p: "?p = parent j" by (simp add: parent_def)
  show ?case
  proof (cases "?p = j \<or> \<not> heapLess c j ?p")
    case True
    have "j = 0 \<or> expiries c ! parent j \<le> expiries c ! j"
      using True 1(4) p parent_less[of j] parent_bound[OF 1(4)] by (auto simp: heapLess_def expiryAt_expiries)
    then show ?thesis using up_done[OF 1(2)] True 1(3)
      by (subst heapUp.simps, subst (2) heapUp.simps) (auto simp: Let_def arranged_def)
  next
    case False
    then have j: "0 < j" using p by (cases j) auto
    have pn: "?p < length (ocHeap c)" using 1(4) p parent_bound by simp
    let ?c = "heapSwap ?p j c"
    have sw: "arranged c ?c" using pn 1(3,4) by (simp add: heapSwap_arranged)
    then have len: "length (ocHeap ?c) = length (ocHeap c)" by (simp add: arranged_def rearrangedD)
    have "expiries c ! j < expiries c ! parent j"
      using False pn 1(4) p by (simp add: heapLess_def expiryAt_expiries)
    then have "upOK (length (ocHeap ?c)) (expiries ?c) ?p"
      using up_step[OF 1(2) j 1(4)] pn 1(3,4) len p by (simp add: heapSwap_expiries)
    then have "arranged ?c (heapUp ?p ?c) \<and> ordered (length (ocHeap ?c)) (expiries (heapUp ?p ?c))"
      using 1(1)[OF refl False] sw pn len by (simp add: arranged_def)
    moreover have "heapUp j c = heapUp ?p ?c" using False by (subst heapUp.simps) (simp add: Let_def)
    ultimately show ?thesis using arranged_trans[OF sw] len by simp
  qed
qed

text \<open>
  Towards the leaves, in the first \<open>n\<close> positions; if the element stays, only its edge to the parent
  may still be out of order.
\<close>

lemma heapDown_ordered:
  assumes "fixOK n (expiries c) i" and "positionsOK c" and "i < n" and "n \<le> length (ocHeap c)"
  shows "case heapDown i n c of (c', i') \<Rightarrow>
    arranged c c' \<and> i \<le> i' \<and> drop n (ocHeap c') = drop n (ocHeap c)
    \<and> (i' = i \<longrightarrow> c' = c \<and> upOK n (expiries c) i)
    \<and> (i' \<noteq> i \<or> expiries c ! parent i \<le> expiries c ! i \<longrightarrow> ordered n (expiries c'))"
  using assms
proof (induction i n c rule: heapDown.induct)
  case (1 i n c)
  note fx = 1(2) and pos = 1(3) and i = 1(4) and n = 1(5)
  have stop: ?case if kids: "\<And>k. k < n \<Longrightarrow> k \<noteq> 0 \<Longrightarrow> parent k = i \<Longrightarrow> expiries c ! i \<le> expiries c ! k"
    and here: "heapDown i n c = (c, i)"
  proof -
    have "upOK n (expiries c) i" using fx kids by (rule fix_done)
    then show ?thesis using up_done[of n "expiries c" i] pos here by (simp add: arranged_def)
  qed
  show ?case
  proof (cases "2 * i + 1 \<ge> n")
    case True
    show ?thesis
    proof (rule stop)
      show "heapDown i n c = (c, i)" using True by (subst heapDown.simps) (simp add: Let_def)
      show "expiries c ! i \<le> expiries c ! k" if "k < n" "k \<noteq> 0" "parent k = i" for k
        using that True by (simp add: parent_iff)
    qed
  next
    case False
    define j where "j = (if 2 * i + 1 + 1 < n \<and> heapLess c (2 * i + 1 + 1) (2 * i + 1) then 2 * i + 1 + 1 else 2 * i + 1)"
    have jn: "j < n" and j0: "j \<noteq> 0" and pj: "parent j = i" and ij: "i < j"
      using False by (auto simp: j_def parent_def)
    have least: "expiries c ! j \<le> expiries c ! k" if "k < n" "k \<noteq> 0" "parent k = i" for k
      using that n False by (auto simp: j_def parent_iff heapLess_def expiryAt_expiries)
    have run: "heapDown i n c = (if \<not> heapLess c j i then (c, i) else heapDown j n (heapSwap i j c))"
      using False by (subst heapDown.simps) (simp only: Let_def j_def if_False)
    show ?thesis
    proof (cases "heapLess c j i")
      case no: False
      show ?thesis
      proof (rule stop)
        show "heapDown i n c = (c, i)" using run no by simp
        show "expiries c ! i \<le> expiries c ! k" if "k < n" "k \<noteq> 0" "parent k = i" for k
          using least[OF that] no jn n i by (simp add: heapLess_def expiryAt_expiries)
      qed
    next
      case True
      let ?c = "heapSwap i j c"
      have lt: "expiries c ! j < expiries c ! i" using True jn n i by (simp add: heapLess_def expiryAt_expiries)
      have ilen: "i < length (ocHeap c)" and jlen: "j < length (ocHeap c)" using i jn n by auto
      have sw: "arranged c ?c" using ilen jlen pos by (rule heapSwap_arranged)
      have ex: "expiries ?c = exchange i j (expiries c)" using ilen jlen pos by (rule heapSwap_expiries)
      have len: "length (ocHeap ?c) = length (ocHeap c)" using sw by (simp add: arranged_def rearrangedD)
      have dr: "drop n (ocHeap ?c) = drop n (ocHeap c)" using i jn by (simp add: heapSwap_heap exchange_def)
      note ds = down_step[OF fx jn j0 pj _ lt least, unfolded length_expiries, OF n, folded ex]
      have ih: "case heapDown j n ?c of (c', i') \<Rightarrow>
          arranged ?c c' \<and> j \<le> i' \<and> drop n (ocHeap c') = drop n (ocHeap ?c)
          \<and> (i' = j \<longrightarrow> c' = ?c \<and> upOK n (expiries ?c) j)
          \<and> (i' \<noteq> j \<or> expiries ?c ! parent j \<le> expiries ?c ! j \<longrightarrow> ordered n (expiries c'))"
      proof (rule 1(1)[OF refl False j_def])
        show "\<not> \<not> heapLess c j i" using True by simp
        show "fixOK n (expiries ?c) j" by (rule ds(1))
        show "positionsOK ?c" using sw by (simp add: arranged_def)
        show "j < n" "n \<le> length (ocHeap ?c)" using jn n len by simp_all
      qed
      obtain c' i' where d: "heapDown j n ?c = (c', i')" by (cases "heapDown j n ?c") blast
      have r: "heapDown i n c = (c', i')" using run True d by (simp only: if_False not_True_eq_False)
      note ih' = ih[unfolded d prod.case]
      have "arranged c c'" using arranged_trans[OF sw] ih' by blast
      moreover have "ordered n (expiries c')" using ih' ds(2) by blast
      moreover have "drop n (ocHeap c') = drop n (ocHeap c)" and "i < i'" using ih' dr ij by auto
      ultimately show ?thesis unfolding r prod.case by simp
    qed
  qed
qed

text \<open>After the expiry of the entry at \<open>i\<close> has changed.\<close>

lemma heapFix_ordered:
  assumes "fixOK (length (ocHeap c)) (expiries c) i" and "positionsOK c" and i: "i < length (ocHeap c)"
  shows "arranged c (heapFix i c) \<and> ordered (length (ocHeap c)) (expiries (heapFix i c))"
proof -
  obtain c1 i1 where d: "heapDown i (length (ocHeap c)) c = (c1, i1)" by (cases "heapDown i (length (ocHeap c)) c") blast
  note dn = heapDown_ordered[OF assms order_refl, unfolded d prod.case]
  show ?thesis
  proof (cases "i1 > i")
    case True
    then show ?thesis using dn d by (simp add: heapFix_def)
  next
    case False
    then have "i1 = i" using dn by simp
    then have "c1 = c" and up: "upOK (length (ocHeap c)) (expiries c) i" using dn by blast+
    then show ?thesis using heapUp_ordered[OF up assms(2) i] False d by (simp add: heapFix_def)
  qed
qed

lemma heapPop_ordered:
  assumes ord: "ordered (length (ocHeap c)) (expiries c)" and pos: "positionsOK c" and ne: "ocHeap c \<noteq> []"
    and pop: "heapPop c = (a, c')"
  shows "a = ocHeap c ! 0" and "map payload (ocStore c') = map payload (ocStore c)"
    and "mset (ocHeap c') = mset (ocHeap c) - {#a#}" and "ocEntries c' = ocEntries c"
    and "ocMaxSize c' = ocMaxSize c" and "positionsOK c'" and "ordered (length (ocHeap c')) (expiries c')"
proof -
  define n where "n = length (ocHeap c) - 1"
  have n: "n < length (ocHeap c)" and len: "length (ocHeap c) = Suc n" using ne by (auto simp: n_def)
  let ?s = "heapSwap 0 n c"
  have sw: "arranged c ?s" using heapSwap_arranged[of 0 c n] n pos ne by simp
  have ex: "expiries ?s = exchange 0 n (expiries c)" using heapSwap_expiries[of 0 c n] n pos ne by simp
  have nth: "exchange 0 n (expiries c) ! k = expiries c ! k" if "k < n" "k \<noteq> 0" for k
    using that n by (subst nth_exchange) auto
  have fx: "fixOK n (expiries ?s) 0"
    unfolding fixOK_def using ord len by (auto simp: ex nth parent_bound ordered_def)
  obtain d j where d: "heapDown 0 n ?s = (d, j)" by (cases "heapDown 0 n ?s") blast
  have dn: "arranged ?s d \<and> drop n (ocHeap d) = drop n (ocHeap ?s) \<and> ordered n (expiries d)"
  proof (cases "n = 0")
    case True
    then show ?thesis using d sw by (subst (asm) heapDown.simps) (auto simp: arranged_def ordered_def)
  next
    case False
    have "n \<le> length (ocHeap ?s)" using n by (simp add: heapSwap_heap)
    moreover have "positionsOK ?s" using sw by (simp add: arranged_def)
    ultimately show ?thesis using heapDown_ordered[OF fx, unfolded d prod.case] False by simp
  qed
  then have ad: "arranged c d" and od: "ordered n (expiries d)" using sw by (auto intro: arranged_trans)
  have ld: "length (ocHeap d) = Suc n" using ad len rearrangedD(2)[of c d] by (simp add: arranged_def)
  have "drop n (ocHeap d) = [ocHeap c ! 0]"
    using dn n len by (simp add: heapSwap_heap exchange_def Cons_nth_drop_Suc[symmetric] nth_list_update)
  then have la: "last (ocHeap d) = ocHeap c ! 0" using ld by (metis last_drop last_ConsL lessI)
  have dne: "ocHeap d \<noteq> []" using ld by auto
  have res: "a = last (ocHeap d)" "c' = (setIdx a None d)\<lparr>ocHeap := butlast (ocHeap d)\<rparr>"
    using pop d len by (auto simp: heapPop_def heapPopBack_def Let_def)
  show a: "a = ocHeap c ! 0" using res la by simp
  show pl: "map payload (ocStore c') = map payload (ocStore c)"
    using ad res by (simp add: payload_setIdx arranged_def rearranged_def)
  have "mset (ocHeap d) = mset (butlast (ocHeap d) @ [a])" using dne res(1) by simp
  then have "mset (ocHeap c) = add_mset a (mset (butlast (ocHeap d)))" using ad by (simp add: arranged_def rearranged_def)
  then show "mset (ocHeap c') = mset (ocHeap c) - {#a#}" using res(2) by simp
  show "ocEntries c' = ocEntries c" "ocMaxSize c' = ocMaxSize c"
    using ad res by (simp_all add: arranged_def rearranged_def)
  have pd: "positionsOK d" using ad by (simp add: arranged_def)
  have nb: "butlast (ocHeap d) ! i = ocHeap d ! i" if "i < n" for i using that ld by (simp add: nth_butlast)
  have other: "ocHeap d ! i \<noteq> a" if "i < n" for i
    using that pd dne ld res(1) by (simp add: last_conv_nth nth_eq_iff_index_eq positionsOK_def)
  have keep: "ocStore c' ! (ocHeap d ! i) = ocStore d ! (ocHeap d ! i)" if "i < n" for i
    using other[OF that] res(2) by (simp add: setIdx_def)
  show "positionsOK c'"
    using pd res(2) ld keep nb by (auto simp: positionsOK_def distinct_butlast dest: in_set_butlastD)
  have "expiries c' = butlast (expiries d)"
    using res(2) ld keep nb by (auto simp: expiries_def nth_butlast intro!: nth_equalityI)
  then show "ordered (length (ocHeap c')) (expiries c')"
    using od ld res(2) by (auto simp: ordered_def nth_butlast parent_bound)
qed

section \<open>The cache as a bounded map\<close>

text \<open>
  The entries of the map are exactly those in the heap, under their own keys; \<open>view\<close> forgets the
  heap and the objects.
\<close>

definition linked :: "oauth2Cache \<Rightarrow> bool" where
  "linked c \<longleftrightarrow> positionsOK c
     \<and> (\<forall>k a. ocEntries c k = Some a \<longleftrightarrow> a \<in> set (ocHeap c) \<and> oeKey (ocStore c ! a) = k)"

definition cacheOK :: "oauth2Cache \<Rightarrow> bool" where
  "cacheOK c \<longleftrightarrow> linked c \<and> ordered (length (ocHeap c)) (expiries c)
     \<and> length (ocHeap c) \<le> nat (ocMaxSize c)"

definition view :: "oauth2Cache \<Rightarrow> string \<Rightarrow> (introspectResponse \<times> int) option" where
  "view c k = map_option (\<lambda>a. (oeResp (ocStore c ! a), oeExpiry (ocStore c ! a))) (ocEntries c k)"

text \<open>
  What \<open>set\<close> promises: a key that is there, or a map that is not full, is simply updated; a full map
  first loses one key whose expiry is least; a cache without room ignores the call.
\<close>

definition setSpec :: "int \<Rightarrow> string \<Rightarrow> introspectResponse \<Rightarrow> int \<Rightarrow> (string \<Rightarrow> (introspectResponse \<times> int) option) \<Rightarrow>
    (string \<Rightarrow> (introspectResponse \<times> int) option) \<Rightarrow> bool" where
  "setSpec maxSize key resp expiry m m' \<longleftrightarrow>
     (if key \<in> dom m \<or> int (card (dom m)) < maxSize then m' = m(key \<mapsto> (resp, expiry))
      else if dom m = {} then m' = m
      else \<exists>v\<in>dom m. (\<forall>k\<in>dom m. snd (the (m v)) \<le> snd (the (m k)))
                     \<and> m' = (m(v := None))(key \<mapsto> (resp, expiry)))"

lemma dom_view: "dom (view c) = dom (ocEntries c)"
  by (auto simp: view_def)

lemma card_view:
  assumes "linked c" shows "card (dom (ocEntries c)) = length (ocHeap c)"
proof -
  have "dom (ocEntries c) = (\<lambda>a. oeKey (ocStore c ! a)) ` set (ocHeap c)"
    using assms by (auto simp: linked_def)
  moreover have "inj_on (\<lambda>a. oeKey (ocStore c ! a)) (set (ocHeap c))"
    using assms by (auto simp: linked_def inj_on_def) (metis option.inject)
  ultimately show ?thesis using assms by (simp add: card_image linked_def positionsOK_def distinct_card)
qed

lemma arranged_linked:
  assumes "linked c" and ar: "arranged c c'" shows "linked c'" and "view c' = view c"
proof -
  have re: "rearranged c c'" and pos: "positionsOK c'" using ar by (simp_all add: arranged_def)
  have pl: "payload (ocStore c' ! a) = payload (ocStore c ! a)" if "a \<in> set (ocHeap c)" for a
    using rearrangedD(6)[OF re, of a] assms that by (auto simp: linked_def positionsOK_def)
  show "linked c'"
    unfolding linked_def using pos assms(1) pl rearrangedD(3,4)[OF re] by (auto simp: linked_def payload_def)
  show "view c' = view c"
    using assms(1) pl rearrangedD(4)[OF re]
    by (auto simp: view_def linked_def payload_def fun_eq_iff split: option.splits intro!: option.map_cong)
qed

text \<open>The branch of \<open>set\<close> for a key that is there.\<close>

lemma cacheSet_present:
  assumes ok: "cacheOK c" and key: "ocEntries c key = Some a"
  shows "cacheOK (cacheSet key resp expiry c)" and "view (cacheSet key resp expiry c) = (view c)(key \<mapsto> (resp, expiry))"
    and "ocMaxSize (cacheSet key resp expiry c) = ocMaxSize c"
proof -
  have li: "linked c" and pos: "positionsOK c" and ord: "ordered (length (ocHeap c)) (expiries c)"
    using ok by (simp_all add: cacheOK_def linked_def)
  have a: "a \<in> set (ocHeap c)" "oeKey (ocStore c ! a) = key" using key li by (auto simp: linked_def)
  then obtain i where i: "i < length (ocHeap c)" "ocHeap c ! i = a" by (metis in_set_conv_nth)
  have idx: "oeIdx (ocStore c ! a) = Some i" and as: "a < length (ocStore c)"
    using pos i a by (auto simp: positionsOK_def)
  let ?c = "c\<lparr>ocStore := (ocStore c)[a := (ocStore c ! a)\<lparr>oeResp := resp, oeExpiry := expiry\<rparr>]\<rparr>"
  have pos1: "positionsOK ?c" using pos as by (auto simp: positionsOK_def nth_list_update)
  have li1: "linked ?c" using li pos1 as by (auto simp: linked_def nth_list_update)
  have "expiries ?c = (expiries c)[i := expiry]"
  proof (rule nth_equalityI)
    show "expiries ?c ! k = (expiries c)[i := expiry] ! k" if "k < length (expiries ?c)" for k
      using that i pos as by (auto simp: expiries_def nth_list_update positionsOK_def nth_eq_iff_index_eq)
  qed simp
  then have fx: "fixOK (length (ocHeap ?c)) (expiries ?c) i"
    using ordered_update[OF ord i(1)] by simp
  have fixed: "arranged ?c (heapFix i ?c) \<and> ordered (length (ocHeap ?c)) (expiries (heapFix i ?c))"
    using heapFix_ordered[OF fx pos1] i by simp
  have run: "cacheSet key resp expiry c = heapFix i ?c" using key idx by (simp add: cacheSet_def Let_def)
  have re: "rearranged ?c (heapFix i ?c)" using fixed by (simp add: arranged_def)
  show "cacheOK (cacheSet key resp expiry c)" unfolding run cacheOK_def
    using fixed arranged_linked(1)[OF li1] ok rearrangedD(2,5)[OF re] by (simp add: cacheOK_def)
  show "ocMaxSize (cacheSet key resp expiry c) = ocMaxSize c" unfolding run using rearrangedD(5)[OF re] by simp
  have "view ?c = (view c)(key \<mapsto> (resp, expiry))"
  proof
    fix k
    have "ocEntries c k = Some a \<longleftrightarrow> k = key" using li key by (auto simp: linked_def)
    then show "view ?c k = ((view c)(key \<mapsto> (resp, expiry))) k"
      using as key by (auto simp: view_def nth_list_update split: option.splits intro!: option.map_cong0)
  qed
  then show "view (cacheSet key resp expiry c) = (view c)(key \<mapsto> (resp, expiry))"
    unfolding run using arranged_linked(2)[OF li1] fixed by simp
qed

text \<open>Inserting a key that is not there, where there is room.\<close>

lemma insertEntry_absent:
  assumes ok: "cacheOK c" and key: "ocEntries c key = None" and room: "int (length (ocHeap c)) < ocMaxSize c"
  shows "cacheOK (insertEntry key resp expiry c)" and "view (insertEntry key resp expiry c) = (view c)(key \<mapsto> (resp, expiry))"
    and "ocMaxSize (insertEntry key resp expiry c) = ocMaxSize c"
proof -
  have li: "linked c" and pos: "positionsOK c" and ord: "ordered (length (ocHeap c)) (expiries c)"
    using ok by (simp_all add: cacheOK_def linked_def)
  let ?a = "length (ocStore c)" and ?n = "length (ocHeap c)"
  let ?e = "\<lparr>oeKey = key, oeResp = resp, oeExpiry = expiry, oeIdx = Some ?n\<rparr>"
  let ?c = "c\<lparr>ocStore := ocStore c @ [?e], ocHeap := ocHeap c @ [?a]\<rparr>"
  have fresh: "a < ?a" if "a \<in> set (ocHeap c)" for a using that pos by (auto simp: positionsOK_def)
  have hn: "ocHeap c ! i < ?a" if "i < ?n" for i using fresh that by simp
  have pos1: "positionsOK ?c"
    using pos fresh hn by (auto simp: positionsOK_def nth_append less_Suc_eq)
  have "expiries ?c = expiries c @ [expiry]"
    using fresh by (auto simp: expiries_def nth_append)
  then have up: "upOK (length (ocHeap ?c)) (expiries ?c) ?n" using ordered_snoc[OF ord] by simp
  let ?d = "heapUp ?n ?c"
  have ar: "arranged ?c ?d" and od: "ordered (Suc ?n) (expiries ?d)"
    using heapUp_ordered[OF up pos1] by simp_all
  have re: "rearranged ?c ?d" and pd: "positionsOK ?d" using ar by (simp_all add: arranged_def)
  have push: "heapPushBack ?a (c\<lparr>ocStore := ocStore c @ [?e\<lparr>oeIdx := Some 0\<rparr>]\<rparr>) = ?c"
    by (cases c) (simp add: heapPushBack_def setIdx_def)
  have run: "insertEntry key resp expiry c = ?d\<lparr>ocEntries := (ocEntries c)(key \<mapsto> ?a)\<rparr>"
    using rearrangedD(4)[OF re] push by (simp add: insertEntry_def heapPush_def Let_def)
  have pl: "payload (ocStore ?d ! a) = payload ((ocStore c @ [?e]) ! a)" if "a < Suc ?a" for a
    using rearrangedD(6)[OF re] that by simp
  have old: "payload (ocStore ?d ! a) = payload (ocStore c ! a)" if "a \<in> set (ocHeap c)" for a
    using pl[of a] fresh[OF that] by (simp add: nth_append)
  have new: "payload (ocStore ?d ! ?a) = (key, resp, expiry)" using pl[of ?a] by (simp add: payload_def)
  have hp: "set (ocHeap ?d) = insert ?a (set (ocHeap c))" using rearrangedD(3)[OF re] by simp
  have nokey: "oeKey (ocStore c ! a) \<noteq> key" if "a \<in> set (ocHeap c)" for a
    using li key that by (metis linked_def option.distinct(1))
  have "linked (insertEntry key resp expiry c)"
    unfolding linked_def run using pd li old new hp nokey
    by (auto simp: positionsOK_def payload_def linked_def)
  then show "cacheOK (insertEntry key resp expiry c)"
    using od room rearrangedD(2,5)[OF re] by (simp add: cacheOK_def run expiries_def)
  show "ocMaxSize (insertEntry key resp expiry c) = ocMaxSize c" using run rearrangedD(5)[OF re] by simp
  show "view (insertEntry key resp expiry c) = (view c)(key \<mapsto> (resp, expiry))"
  proof
    fix k
    show "view (insertEntry key resp expiry c) k = ((view c)(key \<mapsto> (resp, expiry))) k"
      using new old li by (auto simp: run view_def payload_def linked_def split: option.splits intro!: option.map_cong0)
  qed
qed

text \<open>Evicting from a cache that is not empty.\<close>

lemma evictOneLocked_least:
  assumes ok: "cacheOK c" and ne: "ocHeap c \<noteq> []" and run: "evictOneLocked c = (b, c')"
  shows "b" and "cacheOK c'" and "ocMaxSize c' = ocMaxSize c" and "Suc (length (ocHeap c')) = length (ocHeap c)"
    and "\<exists>v\<in>dom (view c). (\<forall>k\<in>dom (view c). snd (the (view c v)) \<le> snd (the (view c k)))
           \<and> view c' = (view c)(v := None)"
proof -
  have li: "linked c" and pos: "positionsOK c" and ord: "ordered (length (ocHeap c)) (expiries c)"
    using ok by (simp_all add: cacheOK_def linked_def)
  obtain a d where pop: "heapPop c = (a, d)" by (cases "heapPop c") blast
  note P = heapPop_ordered[OF ord pos ne pop]
  have a: "a \<in> set (ocHeap c)" using P(1) ne by simp
  have pl: "payload (ocStore d ! k) = payload (ocStore c ! k)" if "k \<in> set (ocHeap c)" for k
    using P(2) that pos by (metis (no_types, lifting) length_map lessThan_iff nth_map positionsOK_def subsetD)
  let ?v = "oeKey (ocStore c ! a)"
  have c': "b" "c' = d\<lparr>ocEntries := (ocEntries c)(?v := None)\<rparr>"
    using run pop ne P(4) pl[OF a] by (auto simp: evictOneLocked_def payload_def split: if_splits)
  show "b" by (rule c'(1))
  show "ocMaxSize c' = ocMaxSize c" using c' P(5) by simp
  have sz: "Suc (size (mset (ocHeap d))) = size (mset (ocHeap c))"
    using P(3) a by (simp add: size_Diff_singleton) (metis Suc_pred length_pos_if_in_set)
  then show "Suc (length (ocHeap c')) = length (ocHeap c)" using c' by simp
  have dist: "distinct (ocHeap c)" using pos by (simp add: positionsOK_def)
  have hp: "set (ocHeap d) = set (ocHeap c) - {a}"
    using P(3) dist by (metis set_mset_mset mset_remove1 set_remove1_eq)
  have ent: "ocEntries c k = Some x \<longleftrightarrow> x \<in> set (ocHeap c) \<and> oeKey (ocStore c ! x) = k" for k x
    using li by (simp add: linked_def)
  have uniq: "x = a" if "x \<in> set (ocHeap c)" "oeKey (ocStore c ! x) = ?v" for x
    using ent[of ?v x] ent[of ?v a] that a by simp
  have "linked c'"
    unfolding linked_def c'(2) using P(6) ent hp pl uniq by (auto simp: positionsOK_def payload_def)
  then show "cacheOK c'" using P(7) ok sz c'(2) P(5) by (auto simp: cacheOK_def expiries_def)
  have vk: "view c (oeKey (ocStore c ! x)) = Some (oeResp (ocStore c ! x), oeExpiry (ocStore c ! x))"
    if "x \<in> set (ocHeap c)" for x using ent[of "oeKey (ocStore c ! x)" x] that by (simp add: view_def)
  have least: "oeExpiry (ocStore c ! a) \<le> oeExpiry (ocStore c ! x)" if x: "x \<in> set (ocHeap c)" for x
  proof -
    obtain i where i: "i < length (ocHeap c)" "ocHeap c ! i = x" using x by (metis in_set_conv_nth)
    show ?thesis using ordered_root[OF ord i(1)] i ne P(1) by (simp add: expiries_def)
  qed
  have "view c' = (view c)(?v := None)"
  proof
    fix k
    show "view c' k = ((view c)(?v := None)) k"
      using ent pl by (auto simp: c'(2) view_def payload_def split: option.splits intro!: option.map_cong)
  qed
  moreover have "snd (the (view c ?v)) \<le> snd (the (view c k))" if "k \<in> dom (view c)" for k
  proof -
    obtain x where "x \<in> set (ocHeap c)" "oeKey (ocStore c ! x) = k" using \<open>k \<in> dom (view c)\<close> ent by (auto simp: dom_view)
    then show ?thesis using vk least a by fastforce
  qed
  moreover have "?v \<in> dom (view c)" using vk[OF a] by auto
  ultimately show "\<exists>v\<in>dom (view c). (\<forall>k\<in>dom (view c). snd (the (view c v)) \<le> snd (the (view c k)))
           \<and> view c' = (view c)(v := None)" by blast
qed

theorem cacheSet_correct:
  assumes ok: "cacheOK c"
  shows "cacheOK (cacheSet key resp expiry c)"
    and "setSpec (ocMaxSize c) key resp expiry (view c) (view (cacheSet key resp expiry c))"
    and "ocMaxSize (cacheSet key resp expiry c) = ocMaxSize c"
proof -
  let ?c = "cacheSet key resp expiry c"
  have card: "card (dom (ocEntries c)) = length (ocHeap c)" using ok by (simp add: card_view cacheOK_def)
  have "cacheOK ?c \<and> setSpec (ocMaxSize c) key resp expiry (view c) (view ?c) \<and> ocMaxSize ?c = ocMaxSize c"
  proof (cases "ocEntries c key")
    case (Some a)
    then have "key \<in> dom (view c)" by (auto simp: dom_view)
    then show ?thesis using cacheSet_present[OF ok Some] by (simp add: setSpec_def)
  next
    case None
    then have nk: "key \<notin> dom (view c)" by (auto simp: dom_view)
    show ?thesis
    proof (cases "int (length (ocHeap c)) < ocMaxSize c")
      case True
      then show ?thesis
        using insertEntry_absent[OF ok None True] None nk card by (simp add: cacheSet_def setSpec_def dom_view)
    next
      case full: False
      obtain b d where ev: "evictOneLocked c = (b, d)" by (cases "evictOneLocked c") blast
      show ?thesis
      proof (cases "ocHeap c = []")
        case True
        have "dom (ocEntries c) = {}" using ok True by (auto simp: cacheOK_def linked_def)
        then show ?thesis
          using True None full card ok by (simp add: cacheSet_def setSpec_def dom_view evictOneLocked_def)
      next
        case False
        note E = evictOneLocked_least[OF ok False ev]
        obtain v where v: "v \<in> dom (view c)" "\<forall>k\<in>dom (view c). snd (the (view c v)) \<le> snd (the (view c k))"
          "view d = (view c)(v := None)" using E(5) by blast
        have dn: "ocEntries d key = None" using v(3) nk by (metis domIff dom_view fun_upd_apply)
        have "length (ocHeap c) \<le> nat (ocMaxSize c)" using ok by (simp add: cacheOK_def)
        then have "int (length (ocHeap d)) < ocMaxSize d" using E(3,4) by linarith
        note I = insertEntry_absent[OF E(2) dn this, of resp expiry]
        have run: "?c = insertEntry key resp expiry d" using None full card ev E(1) by (simp add: cacheSet_def)
        have "setSpec (ocMaxSize c) key resp expiry (view c) (view ?c)"
          unfolding setSpec_def run I(2) using nk full card v by (auto simp: dom_view)
        then show ?thesis using run I(1,3) E(3) by simp
      qed
    qed
  qed
  then show "cacheOK ?c" "setSpec (ocMaxSize c) key resp expiry (view c) (view ?c)" "ocMaxSize ?c = ocMaxSize c"
    by blast+
qed

section \<open>The contract of the cache\<close>

text \<open>
  What the handler relies on: a lookup gives what the abstract map holds and has not expired, and a
  store keeps the invariant and brings in nothing but its own entry. So a property of all entries
  holds of all answers, and stays when it holds of what is stored.
\<close>

locale token_store =
  fixes good :: "'c \<Rightarrow> bool"
    and abs :: "'c \<Rightarrow> string \<Rightarrow> ('r \<times> int) option"
    and put :: "string \<Rightarrow> 'r \<Rightarrow> int \<Rightarrow> 'c \<Rightarrow> 'c"
    and look :: "int \<Rightarrow> string \<Rightarrow> 'c \<Rightarrow> 'r option"
  assumes put_good: "good c \<Longrightarrow> good (put key r e c)"
    and put_origin: "good c \<Longrightarrow> abs (put key r e c) k = Some (s, d) \<Longrightarrow> k = key \<and> s = r \<and> d = e \<or> abs c k = Some (s, d)"
    and look_abs: "look now key c = Some r \<longleftrightarrow> (\<exists>e. abs c key = Some (r, e) \<and> now \<le> e)"
begin

lemma look_all:
  "\<forall>k r e. abs c k = Some (r, e) \<longrightarrow> P k r \<Longrightarrow> look now key c = Some r \<Longrightarrow> P key r"
  by (auto simp: look_abs)

lemma put_all:
  "good c \<Longrightarrow> \<forall>k r e. abs c k = Some (r, e) \<longrightarrow> P k r \<Longrightarrow> P key r \<Longrightarrow>
   good (put key r e c) \<and> (\<forall>k r' d. abs (put key r e c) k = Some (r', d) \<longrightarrow> P k r')"
  using put_good put_origin by blast

lemma look_fresh: "look now key c = Some r \<Longrightarrow> now' \<le> now \<Longrightarrow> look now' key c = Some r"
  by (auto simp: look_abs intro: order_trans)

end

interpretation tokens: token_store cacheOK view cacheSet cacheGet
proof
  show "cacheOK c \<Longrightarrow> cacheOK (cacheSet key r e c)" for c key r e by (rule cacheSet_correct(1))
  show "k = key \<and> s = r \<and> d = e \<or> view c k = Some (s, d)"
    if "cacheOK c" "view (cacheSet key r e c) k = Some (s, d)" for c key r e k s d
    using cacheSet_correct(2)[OF that(1), of key r e] that(2) by (auto simp: setSpec_def split: if_splits)
  show "cacheGet now key c = Some r \<longleftrightarrow> (\<exists>e. view c key = Some (r, e) \<and> now \<le> e)" for now key c r
    by (auto simp: cacheGet_def view_def split: option.splits)
qed

end
