(* ===== verification/OAuth2.thy ===== *)
theory OAuth2
  imports JWT TokenCacheSafe
begin

text \<open>
  \<open>OAuth2Introspect\<close> (middleware/oauth2.go): what is checked when it is built, the introspection call,
  and a request, as the leader of its call. The HTTP client, \<open>url.Parse\<close>, \<open>URL.String\<close>, the JSON decoder
  and SHA-256 are parameters. The coalescing of concurrent calls is in theory TokenFlight.
\<close>

section \<open>Construction\<close>

text \<open>A URL as far as it matters here; \<open>User\<close> is None without userinfo.\<close>

record endpointURL =
  euScheme :: string
  euUser :: "string option"
  euHost :: string
  euRest :: string

record urlError =
  ueText :: string
  ueInner :: "string option"

record endpointPrims =
  urlParse :: "string \<Rightarrow> urlError + endpointURL"
  urlString :: "endpointURL \<Rightarrow> string"

record oauth2Options =
  ooEndpoint :: string
  ooAllowInsecureEndpoint :: bool
  ooClientID :: string
  ooClientSecret :: string
  ooCacheTTL :: int
  ooMaxCacheSize :: int
  ooExtractFn :: "(request \<Rightarrow> string) option"

definition redactedEndpointURL :: "endpointPrims \<Rightarrow> endpointURL option \<Rightarrow> string" where
  "redactedEndpointURL ep u =
     (case u of None \<Rightarrow> [] | Some v \<Rightarrow> urlString ep (v\<lparr>euUser := None\<rparr>))"

text \<open>\<open>ReplaceAllString\<close> for the pattern \<open>://[^/?#@]*@\<close> and the replacement \<open>://\<close>.\<close>

definition userinfoByte :: "char \<Rightarrow> bool" where
  "userinfoByte c \<longleftrightarrow> c \<notin> set ''/?#@''"

function redactedEndpointRaw :: "string \<Rightarrow> string" where
  "redactedEndpointRaw s =
     (case s of
        [] \<Rightarrow> []
      | c # s1 \<Rightarrow>
          if hasPrefix s ''://'' \<and> hasPrefix (dropWhile userinfoByte (drop 3 s)) ''@''
          then ''://'' @ redactedEndpointRaw (drop 1 (dropWhile userinfoByte (drop 3 s)))
          else c # redactedEndpointRaw s1)"
  by pat_completeness auto
termination
proof (relation "measure length")
  fix s s1 :: string and c
  assume "s = c # s1"
  then show "(drop 1 (dropWhile userinfoByte (drop 3 s)), s) \<in> measure length"
    using length_dropWhile_le[of userinfoByte "drop 3 s"] by simp
qed auto

declare redactedEndpointRaw.simps [simp del]

text \<open>
  The client that is built when the options have none. The fields of \<open>http.Transport\<close> that hold
  functions, durations and configurations are opaque; \<open>Clone\<close> and the copies of structures keep their
  values. \<open>TLSNextProto\<close> is the protocols with a function that is not nil;
  None is the nil map.
\<close>

record 'v httpTransport =
  trFunctions :: "string \<Rightarrow> 'v option"
  trProxyHeader :: "headers option"
  trDurations :: "string \<Rightarrow> int"
  trSizes :: "string \<Rightarrow> int"
  trDisableCompression :: bool
  trForceAttemptHTTP2 :: bool
  trDisableKeepAlives :: bool
  trMaxIdleConns :: int
  trMaxIdleConnsPerHost :: int
  trMaxConnsPerHost :: int
  trTLSConfig :: "'v option"
  trHTTP2 :: "'v option"
  trProtocols :: "'v option"
  trTLSNextProto :: "string set option"

definition oauth2DefaultMaxConnsPerHost :: int where
  "oauth2DefaultMaxConnsPerHost = 100"

definition oauth2TransportFrom :: "'v httpTransport \<Rightarrow> 'v httpTransport" where
  "oauth2TransportFrom src =
     src\<lparr>trDisableKeepAlives := False,
         trMaxIdleConns := oauth2DefaultMaxConnsPerHost,
         trMaxIdleConnsPerHost := oauth2DefaultMaxConnsPerHost,
         trMaxConnsPerHost := oauth2DefaultMaxConnsPerHost,
         trTLSNextProto :=
           (case trTLSNextProto src of
              Some ps \<Rightarrow> if ''h2'' \<notin> ps then Some {} else None
            | None \<Rightarrow> None)\<rparr>"

text \<open>A nil transport of the client is the default one, whatever it is.\<close>

record 'v httpClient =
  hcTimeout :: int
  hcTransport :: "'v httpTransport option"

definition newOAuth2DefaultClient :: "'v httpTransport option \<Rightarrow> 'v httpClient" where
  "newOAuth2DefaultClient dt =
     \<lparr>hcTimeout = 10 * second, hcTransport = map_option oauth2TransportFrom dt\<rparr>"

datatype endpointLog = InsecureAccepted string string | Configured string string

record oauth2Setup =
  osTTL :: int
  osMaxSize :: int
  osExtract :: "request \<Rightarrow> string"
  osCache :: "oauth2Cache option"
  osLog :: "endpointLog list"

definition oauth2Construct :: "endpointPrims \<Rightarrow> oauth2Options \<Rightarrow> goPanic + oauth2Setup" where
  "oauth2Construct ep opts =
     (if ooEndpoint opts = []
      then Inl (BadConfig ''middleware: OAuth2Introspect requires a non-empty opts.Endpoint'')
      else case urlParse ep (ooEndpoint opts) of
        Inl err \<Rightarrow>
          Inl (BadConfig (''middleware: OAuth2Introspect: malformed Endpoint URL (''
            @ redactedEndpointRaw (ooEndpoint opts) @ ''): ''
            @ (case ueInner err of Some reason \<Rightarrow> reason | None \<Rightarrow> ueText err)))
      | Inr u \<Rightarrow>
          if euHost u = []
          then Inl (BadConfig (''middleware: OAuth2Introspect: Endpoint URL has no host: ''
                 @ redactedEndpointURL ep (Some u)))
          else if euUser u \<noteq> None
          then Inl (BadConfig (''middleware: OAuth2Introspect: Endpoint URL must not contain userinfo (RFC 3986 ''
                 @ bytes [194, 167] @ ''3.2.1) '' @ bytes [226, 128, 148]
                 @ '' credentials in URL are an exfiltration vector: '' @ redactedEndpointURL ep (Some u)))
          else if euScheme u \<noteq> ''https'' \<and> \<not> ooAllowInsecureEndpoint opts
          then Inl (BadConfig (''middleware: OAuth2Introspect: Endpoint must use https:// ''
                 @ bytes [226, 128, 148] @ '' bearer tokens over plaintext leak to passive observers (RFC 7662 ''
                 @ bytes [194, 167] @ ''4). Set OAuth2Options.AllowInsecureEndpoint=true ONLY for testing.''))
          else
            let ttl = (if ooCacheTTL opts = 0 then 60 * second else ooCacheTTL opts);
                size = (if ooMaxCacheSize opts \<le> 0 then 10000 else ooMaxCacheSize opts)
            in Inr \<lparr>osTTL = ttl, osMaxSize = size,
                    osExtract = (case ooExtractFn opts of Some f \<Rightarrow> f | None \<Rightarrow> extractBearerToken),
                    osCache = (if ttl > 0 then Some (newOAuth2Cache size) else None),
                    osLog = (if euScheme u \<noteq> ''https'' then [InsecureAccepted (euHost u) (euScheme u)] else [])
                            @ [Configured (euHost u) (euScheme u)]\<rparr>)"

section \<open>The introspection call\<close>

text \<open>\<open>url.QueryEscape\<close> and \<open>url.Values.Encode\<close> for the two fields, which it sorts by name.\<close>

definition queryUnreserved :: "char \<Rightarrow> bool" where
  "queryUnreserved c \<longleftrightarrow>
     48 \<le> byteOf c \<and> byteOf c \<le> 57 \<or> 65 \<le> byteOf c \<and> byteOf c \<le> 90 \<or> 97 \<le> byteOf c \<and> byteOf c \<le> 122
     \<or> c \<in> set ''-_.~''"

definition queryEscape :: "string \<Rightarrow> string" where
  "queryEscape s =
     concat (map (\<lambda>c. if queryUnreserved c then [c] else if c = CHR '' '' then ''+''
                      else [CHR ''%'', upperHex (byteOf c div 16), upperHex (byteOf c mod 16)]) s)"

definition tokenForm :: "string \<Rightarrow> string" where
  "tokenForm token = ''token='' @ queryEscape token @ ''&token_type_hint=access_token''"

text \<open>\<open>base64.StdEncoding.EncodeToString\<close>, for \<open>SetBasicAuth\<close>.\<close>

definition b64Char :: "nat \<Rightarrow> char" where
  "b64Char n =
     (if n < 26 then char_of (n + 65) else if n < 52 then char_of (n + 71)
      else if n < 62 then char_of (n - 4) else if n = 62 then CHR ''+'' else CHR ''/'')"

fun b64Encode :: "string \<Rightarrow> string" where
  "b64Encode (a # b # c # s) =
     [b64Char (byteOf a div 4), b64Char ((byteOf a mod 4) * 16 + byteOf b div 16),
      b64Char ((byteOf b mod 16) * 4 + byteOf c div 64), b64Char (byteOf c mod 64)] @ b64Encode s"
| "b64Encode [a, b] =
     [b64Char (byteOf a div 4), b64Char ((byteOf a mod 4) * 16 + byteOf b div 16),
      b64Char ((byteOf b mod 16) * 4), CHR ''='']"
| "b64Encode [a] = [b64Char (byteOf a div 4), b64Char ((byteOf a mod 4) * 16), CHR ''='', CHR ''='']"
| "b64Encode [] = []"

record introspectRequest =
  iqURL :: string
  iqBody :: string
  iqContentType :: string
  iqAuthorization :: "string option"

record rawIntrospection =
  riActive :: bool
  riSub :: string
  riScope :: string
  riClientID :: string
  riUsername :: string
  riTokenType :: string
  riExp :: int
  riIat :: int
  riNbf :: int
  riIss :: string
  riAud :: "string list"

text \<open>
  What the client answers: an error of the transport, or a status and a body; the decoder reads the
  first value of the text it is given, and fails otherwise.
\<close>

record introspectPrims =
  clientDo :: "introspectRequest \<Rightarrow> string + nat \<times> string"
  jsonIntrospection :: "(string \<Rightarrow> string list option) \<Rightarrow> string \<Rightarrow> string + rawIntrospection"

definition introspectionRequest :: "oauth2Options \<Rightarrow> string \<Rightarrow> introspectRequest" where
  "introspectionRequest opts token =
     \<lparr>iqURL = ooEndpoint opts, iqBody = tokenForm token,
      iqContentType = ''application/x-www-form-urlencoded'',
      iqAuthorization =
        (if ooClientID opts \<noteq> []
         then Some (''Basic '' @ b64Encode (ooClientID opts @ '':'' @ ooClientSecret opts)) else None)\<rparr>"

definition introspectionResult :: "rawIntrospection \<Rightarrow> introspectResponse" where
  "introspectionResult raw =
     \<lparr>irActive = riActive raw, irSubject = riSub raw, irScope = riScope raw, irClientID = riClientID raw,
      irUsername = riUsername raw, irTokenType = riTokenType raw, irExpiresAt = timeField (riExp raw),
      irIssuedAt = timeField (riIat raw), irNotBefore = timeField (riNbf raw), irIssuer = riIss raw,
      irAudience = riAud raw\<rparr>"

definition doIntrospect :: "endpointPrims \<Rightarrow> jsonPrims \<Rightarrow> introspectPrims \<Rightarrow> oauth2Options \<Rightarrow> string \<Rightarrow>
    string + introspectResponse" where
  "doIntrospect ep js ip opts token =
     (case urlParse ep (ooEndpoint opts) of
        Inl err \<Rightarrow> Inl (ueText err)
      | Inr u \<Rightarrow>
          (case clientDo ip (introspectionRequest opts token) of
             Inl err \<Rightarrow> Inl err
           | Inr (status, body) \<Rightarrow>
               if status \<noteq> 200 then Inl (''introspection endpoint returned '' @ decimal status)
               else case jsonIntrospection ip (audUnmarshal js) (take 65536 body) of
                 Inl err \<Rightarrow> Inl err
               | Inr raw \<Rightarrow> Inr (introspectionResult raw)))"

section \<open>A request\<close>

definition cacheLookup :: "int \<Rightarrow> string \<Rightarrow> oauth2Cache option \<Rightarrow> introspectResponse option" where
  "cacheLookup now key cache = (case cache of None \<Rightarrow> None | Some c \<Rightarrow> cacheGet now key c)"

text \<open>The function that the leader of a call runs: the cache once more, then the client.\<close>

definition leaderCall :: "int \<Rightarrow> string \<Rightarrow> oauth2Cache option \<Rightarrow> (string + introspectResponse) \<Rightarrow>
    string + introspectResponse" where
  "leaderCall now key cache answer =
     (case cacheLookup now key cache of Some resp \<Rightarrow> Inr resp | None \<Rightarrow> answer)"

definition tokenExpiry :: "int \<Rightarrow> int \<Rightarrow> introspectResponse \<Rightarrow> int" where
  "tokenExpiry ttl now resp =
     (let expiry = timeAdd now ttl in
      case irExpiresAt resp of Some e \<Rightarrow> if e < expiry then e else expiry | None \<Rightarrow> expiry)"

definition cacheStore :: "int \<Rightarrow> int \<Rightarrow> string \<Rightarrow> introspectResponse \<Rightarrow> oauth2Cache option \<Rightarrow> oauth2Cache option" where
  "cacheStore ttl now key resp cache = map_option (cacheSet key resp (tokenExpiry ttl now resp)) cache"

definition acceptToken :: "introspectResponse \<Rightarrow> 'w serve \<Rightarrow> 'w serve" where
  "acceptToken resp next r w =
     (if \<not> irActive resp then unauthorized invalidToken w
      else next (withContext r (ValueCtx (requestContext r) OAuth2Key (TokenVal resp))) w)"

text \<open>
  One request on its own: \<open>now1\<close>, \<open>now2\<close> and \<open>now3\<close> are the clock at the first look into the cache,
  at the leader's second one and when the answer is stored; \<open>answer\<close> is what introspection returns.
\<close>

definition oauth2Serve :: "oauth2Setup \<Rightarrow> hash \<Rightarrow> int \<Rightarrow> int \<Rightarrow> int \<Rightarrow> (string \<Rightarrow> string + introspectResponse) \<Rightarrow>
    oauth2Cache option \<Rightarrow> 'w serve \<Rightarrow> request \<Rightarrow> 'w rw \<Rightarrow> 'w served \<times> oauth2Cache option" where
  "oauth2Serve conf sha now1 now2 now3 answer cache next r w =
     (let token = osExtract conf r in
      if token = [] then (unauthorized bearerChallenge w, cache)
      else let tokenKey = sha token in
      case cacheLookup now1 tokenKey cache of
        Some resp \<Rightarrow> (acceptToken resp next r w, cache)
      | None \<Rightarrow>
          (case leaderCall now2 tokenKey cache (answer token) of
             Inl err \<Rightarrow> (unauthorized invalidToken w, cache)
           | Inr resp \<Rightarrow>
               if \<not> irActive resp then (unauthorized invalidToken w, cache)
               else (acceptToken resp next r w, cacheStore (osTTL conf) now3 tokenKey resp cache)))"

definition getOAuth2Claims :: "ctx \<Rightarrow> introspectResponse option" where
  "getOAuth2Claims c = (case contextValue OAuth2Key c of Some (TokenVal t) \<Rightarrow> Some t | _ \<Rightarrow> None)"

end
