(* ===== verification/TokenFlight.thy ===== *)
theory TokenFlight
  imports OAuth2 Threads
begin

text \<open>
  Concurrent requests in \<open>OAuth2Introspect\<close> (middleware/oauth2.go): the handler with
  \<open>oauth2Inflight.do\<close> as single steps, each one operation of the cache, one section under the lock of
  the group, or one operation of a channel, and the invariant of every interleaving.
\<close>

section \<open>Calls\<close>

text \<open>
  A call is an object of the group: its \<open>resp\<close> and \<open>err\<close> once they are stored, and whether \<open>done\<close> is
  closed. \<open>fgTold\<close> is not in the program: it lists what the authorisation server was asked and
  answered, and when.
\<close>

record flightCall =
  fcResult :: "(string + introspectResponse) option"
  fcClosed :: bool

record flightWorld =
  fgNow :: int
  fgCache :: "oauth2Cache option"
  fgCalls :: "string \<Rightarrow> nat option"
  fgStore :: "flightCall list"
  fgTold :: "(string \<times> int \<times> introspectResponse) list"

text \<open>
  Where a request is: before its look into the cache, before \<open>do\<close>, as the leader of call \<open>c\<close> before
  the second look, waiting for the client, with the result stored, with the call deleted from the
  map; or as a follower; with what \<open>do\<close> returned; before the answer is cached; and at the end.
\<close>

datatype flightPhase =
    Arriving
  | Entering
  | Leading nat
  | Asking nat
  | Answered nat
  | Removed nat
  | Following nat
  | Obtained "string + introspectResponse"
  | Storing introspectResponse
  | Admitted introspectResponse
  | Refused
  | Crashed nat

text \<open>
  \<open>Proceed\<close> is the next step of a request; \<open>Reply\<close> the answer of the client, \<open>Fail\<close> a panic in it, and
  \<open>Cancel\<close> the end of the request's context while it waits.
\<close>

datatype flightEvent = Proceed | Reply "string + introspectResponse" | Fail | Cancel

definition deadlineError :: string where
  "deadlineError = ''context canceled''"

definition afterLookup :: "introspectResponse \<Rightarrow> flightPhase" where
  "afterLookup resp = (if irActive resp then Admitted resp else Refused)"

definition enterFlight :: "string \<Rightarrow> flightWorld \<Rightarrow> flightWorld \<times> flightPhase" where
  "enterFlight key g =
     (case fgCalls g key of
        Some c \<Rightarrow> (g, Following c)
      | None \<Rightarrow>
          let c = length (fgStore g) in
          (g\<lparr>fgStore := fgStore g @ [\<lparr>fcResult = None, fcClosed = False\<rparr>], fgCalls := (fgCalls g)(key \<mapsto> c)\<rparr>,
           Leading c))"

definition storeResult :: "nat \<Rightarrow> string + introspectResponse \<Rightarrow> flightWorld \<Rightarrow> flightWorld" where
  "storeResult c res g = g\<lparr>fgStore := (fgStore g)[c := (fgStore g ! c)\<lparr>fcResult := Some res\<rparr>]\<rparr>"

definition closeDone :: "nat \<Rightarrow> flightWorld \<Rightarrow> flightWorld" where
  "closeDone c g = g\<lparr>fgStore := (fgStore g)[c := (fgStore g ! c)\<lparr>fcClosed := True\<rparr>]\<rparr>"

definition hearAnswer :: "string \<Rightarrow> string + introspectResponse \<Rightarrow> flightWorld \<Rightarrow> flightWorld" where
  "hearAnswer token res g =
     (case res of Inl _ \<Rightarrow> g | Inr resp \<Rightarrow> g\<lparr>fgTold := (token, fgNow g, resp) # fgTold g\<rparr>)"

definition afterDo :: "flightWorld \<Rightarrow> string + introspectResponse \<Rightarrow> flightPhase" where
  "afterDo g res =
     (case res of
        Inl _ \<Rightarrow> Refused
      | Inr resp \<Rightarrow>
          if \<not> irActive resp then Refused
          else if fgCache g = None then Admitted resp else Storing resp)"

fun flightStep :: "hash \<Rightarrow> int \<Rightarrow> string \<Rightarrow> flightEvent \<Rightarrow> flightWorld \<Rightarrow> flightPhase \<Rightarrow>
    (flightWorld \<times> flightPhase) option" where
  "flightStep sha ttl token Proceed g Arriving =
     Some (g, if token = [] then Refused
              else case cacheLookup (fgNow g) (sha token) (fgCache g) of
                Some resp \<Rightarrow> afterLookup resp | None \<Rightarrow> Entering)"
| "flightStep sha ttl token Proceed g Entering = Some (enterFlight (sha token) g)"
| "flightStep sha ttl token Proceed g (Leading c) =
     Some (case cacheLookup (fgNow g) (sha token) (fgCache g) of
             Some resp \<Rightarrow> (storeResult c (Inr resp) g, Answered c)
           | None \<Rightarrow> (g, Asking c))"
| "flightStep sha ttl token (Reply res) g (Asking c) =
     Some (storeResult c res (hearAnswer token res g), Answered c)"
| "flightStep sha ttl token Fail g (Asking c) = Some (g, Crashed c)"
| "flightStep sha ttl token Proceed g (Answered c) =
     Some (g\<lparr>fgCalls := (fgCalls g)(sha token := None)\<rparr>, Removed c)"
| "flightStep sha ttl token Proceed g (Removed c) =
     Some (closeDone c g, Obtained (the (fcResult (fgStore g ! c))))"
| "flightStep sha ttl token Proceed g (Following c) =
     (if fcClosed (fgStore g ! c) then Some (g, Obtained (the (fcResult (fgStore g ! c)))) else None)"
| "flightStep sha ttl token Cancel g (Following c) = Some (g, Obtained (Inl deadlineError))"
| "flightStep sha ttl token Proceed g (Obtained res) = Some (g, afterDo g res)"
| "flightStep sha ttl token Proceed g (Storing resp) =
     Some (g\<lparr>fgCache := cacheStore ttl (fgNow g) (sha token) resp (fgCache g)\<rparr>, Admitted resp)"
| "flightStep sha ttl token e g ph = None"

definition newFlightWorld :: "oauth2Setup \<Rightarrow> int \<Rightarrow> flightWorld" where
  "newFlightWorld conf now =
     \<lparr>fgNow = now, fgCache = osCache conf, fgCalls = Map.empty, fgStore = [], fgTold = []\<rparr>"

text \<open>A system: requests with their tokens arrive, take steps, and time passes.\<close>

inductive flying :: "hash \<Rightarrow> oauth2Setup \<Rightarrow> flightWorld \<Rightarrow> (string \<times> flightPhase) list \<Rightarrow> bool"
  for sha :: hash and conf :: oauth2Setup where
  built: "oauth2Construct ep opts = Inr conf \<Longrightarrow> flying sha conf (newFlightWorld conf now) []"
| arrive: "flying sha conf g ts \<Longrightarrow> flying sha conf g (ts @ [(token, Arriving)])"
| move: "flying sha conf g ts \<Longrightarrow> i < length ts \<Longrightarrow> ts ! i = (token, ph) \<Longrightarrow>
    flightStep sha (osTTL conf) token e g ph = Some (g', ph') \<Longrightarrow> flying sha conf g' (ts[i := (token, ph')])"
| tick: "flying sha conf g ts \<Longrightarrow> 0 \<le> d \<Longrightarrow> flying sha conf (g\<lparr>fgNow := fgNow g + d\<rparr>) ts"

text \<open>What the client of a request gets at the end of it.\<close>

definition flightAnswer :: "flightPhase \<Rightarrow> string \<Rightarrow> 'w middleware" where
  "flightAnswer ph token next r w =
     (case ph of
        Admitted resp \<Rightarrow> next (withContext r (ValueCtx (requestContext r) OAuth2Key (TokenVal resp))) w
      | _ \<Rightarrow> if token = [] then unauthorized bearerChallenge w else unauthorized invalidToken w)"

section \<open>The invariant\<close>

text \<open>\<open>vouched\<close>: the server gave this response for a token with this hash, and not later than now.\<close>

definition vouched :: "hash \<Rightarrow> flightWorld \<Rightarrow> string \<Rightarrow> introspectResponse \<Rightarrow> bool" where
  "vouched sha g key resp \<longleftrightarrow> (\<exists>token t. (token, t, resp) \<in> set (fgTold g) \<and> sha token = key \<and> t \<le> fgNow g)"

definition vouchedResult :: "hash \<Rightarrow> flightWorld \<Rightarrow> string \<Rightarrow> string + introspectResponse \<Rightarrow> bool" where
  "vouchedResult sha g key res \<longleftrightarrow> (\<forall>resp. res = Inr resp \<longrightarrow> vouched sha g key resp)"

text \<open>The cache is well formed and holds active responses that the server gave.\<close>

definition cacheVouched :: "hash \<Rightarrow> flightWorld \<Rightarrow> bool" where
  "cacheVouched sha g \<longleftrightarrow>
     (\<forall>c. fgCache g = Some c \<longrightarrow> cacheOK c
        \<and> (\<forall>key resp e. view c key = Some (resp, e) \<longrightarrow> irActive resp \<and> vouched sha g key resp))"

text \<open>A phase in which the request is the leader whose call is in the map.\<close>

fun leads :: "nat \<Rightarrow> flightPhase \<Rightarrow> bool" where
  "leads c (Leading d) = (d = c)"
| "leads c (Asking d) = (d = c)"
| "leads c (Answered d) = (d = c)"
| "leads c (Crashed d) = (d = c)"
| "leads c ph = False"

text \<open>The state of a call as its leader left it: nothing stored before \<open>Answered\<close>.\<close>

fun phaseOK :: "hash \<Rightarrow> flightWorld \<Rightarrow> string \<times> flightPhase \<Rightarrow> bool" where
  "phaseOK sha g (token, Leading c) =
     (fgCalls g (sha token) = Some c \<and> c < length (fgStore g) \<and> fgStore g ! c = \<lparr>fcResult = None, fcClosed = False\<rparr>)"
| "phaseOK sha g (token, Asking c) =
     (fgCalls g (sha token) = Some c \<and> c < length (fgStore g) \<and> fgStore g ! c = \<lparr>fcResult = None, fcClosed = False\<rparr>)"
| "phaseOK sha g (token, Crashed c) =
     (fgCalls g (sha token) = Some c \<and> c < length (fgStore g) \<and> fgStore g ! c = \<lparr>fcResult = None, fcClosed = False\<rparr>)"
| "phaseOK sha g (token, Answered c) =
     (fgCalls g (sha token) = Some c \<and> c < length (fgStore g)
      \<and> (\<exists>res. fgStore g ! c = \<lparr>fcResult = Some res, fcClosed = False\<rparr> \<and> vouchedResult sha g (sha token) res))"
| "phaseOK sha g (token, Removed c) =
     (c < length (fgStore g) \<and> c \<notin> ran (fgCalls g)
      \<and> (\<exists>res. fgStore g ! c = \<lparr>fcResult = Some res, fcClosed = False\<rparr> \<and> vouchedResult sha g (sha token) res))"
| "phaseOK sha g (token, Following c) =
     (c < length (fgStore g)
      \<and> (\<forall>res. fcResult (fgStore g ! c) = Some res \<longrightarrow> vouchedResult sha g (sha token) res)
      \<and> (\<forall>key. fgCalls g key = Some c \<longrightarrow> key = sha token))"
| "phaseOK sha g (token, Obtained res) = vouchedResult sha g (sha token) res"
| "phaseOK sha g (token, Storing resp) = (irActive resp \<and> vouched sha g (sha token) resp)"
| "phaseOK sha g (token, Admitted resp) = (token \<noteq> [] \<and> irActive resp \<and> vouched sha g (sha token) resp)"
| "phaseOK sha g (token, ph) = True"

fun owns :: "nat \<Rightarrow> flightPhase \<Rightarrow> bool" where
  "owns c (Removed d) = (d = c)"
| "owns c ph = leads c ph"

definition callsOK :: "flightWorld \<Rightarrow> bool" where
  "callsOK g \<longleftrightarrow> (\<forall>key c. fgCalls g key = Some c \<longrightarrow> c < length (fgStore g) \<and> \<not> fcClosed (fgStore g ! c))
     \<and> (\<forall>k1 k2 c. fgCalls g k1 = Some c \<longrightarrow> fgCalls g k2 = Some c \<longrightarrow> k1 = k2)
     \<and> (\<forall>c<length (fgStore g). fcClosed (fgStore g ! c) \<longrightarrow> fcResult (fgStore g ! c) \<noteq> None)"

definition ownedOK :: "flightWorld \<Rightarrow> (string \<times> flightPhase) list \<Rightarrow> bool" where
  "ownedOK g ts \<longleftrightarrow> (\<forall>c. countIf (\<lambda>x. owns c (snd x)) ts \<le> 1)
     \<and> (\<forall>c<length (fgStore g). \<not> fcClosed (fgStore g ! c) \<longrightarrow> (\<exists>x\<in>set ts. owns c (snd x)))
     \<and> (\<forall>x\<in>set ts. \<forall>c. owns c (snd x) \<longrightarrow> c < length (fgStore g))"

definition flightOK :: "hash \<Rightarrow> flightWorld \<Rightarrow> (string \<times> flightPhase) list \<Rightarrow> bool" where
  "flightOK sha g ts \<longleftrightarrow> (\<forall>x\<in>set ts. phaseOK sha g x) \<and> cacheVouched sha g \<and> callsOK g \<and> ownedOK g ts"

lemma vouched_grows:
  "vouched sha g key resp \<Longrightarrow> set (fgTold g) \<subseteq> set (fgTold g') \<Longrightarrow> fgNow g \<le> fgNow g' \<Longrightarrow> vouched sha g' key resp"
  unfolding vouched_def by (fastforce intro: order_trans)

lemma vouchedResult_grows:
  "vouchedResult sha g key res \<Longrightarrow> set (fgTold g) \<subseteq> set (fgTold g') \<Longrightarrow> fgNow g \<le> fgNow g' \<Longrightarrow>
   vouchedResult sha g' key res"
  by (auto simp: vouchedResult_def intro: vouched_grows)

lemma cacheVouched_grows:
  "cacheVouched sha g \<Longrightarrow> set (fgTold g) \<subseteq> set (fgTold g') \<Longrightarrow> fgNow g \<le> fgNow g' \<Longrightarrow> fgCache g' = fgCache g \<Longrightarrow>
   cacheVouched sha g'"
  unfolding cacheVouched_def by (metis vouched_grows)

lemma cacheLookup_vouched:
  assumes "cacheVouched sha g" "cacheLookup now key (fgCache g) = Some resp"
  shows "irActive resp \<and> vouched sha g key resp"
proof -
  obtain c where c: "fgCache g = Some c" "cacheGet now key c = Some resp"
    using assms(2) by (auto simp: cacheLookup_def split: option.splits)
  have "\<forall>k r e. view c k = Some (r, e) \<longrightarrow> irActive r \<and> vouched sha g k r"
    using assms(1) c(1) unfolding cacheVouched_def by blast
  from tokens.look_all[OF this c(2)] show ?thesis .
qed

text \<open>What a step may do to the others: the world grows, and calls they do not own may change.\<close>

lemma phaseOK_grows:
  assumes "phaseOK sha g x" and "set (fgTold g) \<subseteq> set (fgTold g')" and "fgNow g \<le> fgNow g'"
    and "fgCalls g' = fgCalls g" and "fgStore g' = fgStore g"
  shows "phaseOK sha g' x"
  using assms(1,4,5) vouched_grows[OF _ assms(2,3)] vouchedResult_grows[OF _ assms(2,3)]
  by (cases "(sha, g, x)" rule: phaseOK.cases) fastforce+

lemma phaseOK_enter:
  assumes "phaseOK sha g x" and "callsOK g" and "fgCalls g key = None"
    and new: "g' = g\<lparr>fgStore := fgStore g @ [\<lparr>fcResult = None, fcClosed = False\<rparr>],
                     fgCalls := (fgCalls g)(key \<mapsto> length (fgStore g))\<rparr>"
  shows "phaseOK sha g' x"
proof -
  have v: "vouched sha g' = vouched sha g" "vouchedResult sha g' = vouchedResult sha g"
    by (auto simp: new vouched_def vouchedResult_def fun_eq_iff)
  show ?thesis using assms(1,3) v
    by (cases "(sha, g, x)" rule: phaseOK.cases)
      (auto simp: new nth_append ran_def split: if_splits)
qed

lemma phaseOK_store:
  assumes ok: "phaseOK sha g x" and own: "\<not> owns c (snd x)" and res: "vouchedResult sha g key res"
    and key: "fgCalls g key = Some c"
  shows "phaseOK sha (storeResult c res g) x"
proof -
  have v: "vouched sha (storeResult c res g) = vouched sha g" "vouchedResult sha (storeResult c res g) = vouchedResult sha g"
    by (auto simp: storeResult_def vouched_def vouchedResult_def fun_eq_iff)
  show ?thesis using ok own res key v
    by (cases "(sha, g, x)" rule: phaseOK.cases) (auto simp: storeResult_def nth_update_at split: if_splits)
qed

lemma phaseOK_close:
  assumes ok: "phaseOK sha g x" and own: "\<not> owns c (snd x)"
  shows "phaseOK sha (closeDone c g) x"
proof -
  have v: "vouched sha (closeDone c g) = vouched sha g" "vouchedResult sha (closeDone c g) = vouchedResult sha g"
    by (auto simp: closeDone_def vouched_def vouchedResult_def fun_eq_iff)
  show ?thesis using ok own v
    by (cases "(sha, g, x)" rule: phaseOK.cases) (auto simp: closeDone_def nth_update_at split: if_splits)
qed

lemma phaseOK_delete:
  assumes ok: "phaseOK sha g x" and own: "\<not> owns c (snd x)" and key: "fgCalls g key = Some c"
  shows "phaseOK sha (g\<lparr>fgCalls := (fgCalls g)(key := None)\<rparr>) x"
proof -
  let ?g = "g\<lparr>fgCalls := (fgCalls g)(key := None)\<rparr>"
  have v: "vouched sha ?g = vouched sha g" "vouchedResult sha ?g = vouchedResult sha g"
    by (auto simp: vouched_def vouchedResult_def fun_eq_iff)
  show ?thesis using ok own key v
    by (cases "(sha, g, x)" rule: phaseOK.cases) (auto simp: ran_def)
qed

section \<open>Every step keeps the invariant\<close>

lemma ownedOK_keep:
  assumes own: "ownedOK g ts" and i: "i < length ts" "ts ! i = (token, ph)"
    and same: "\<And>c. owns c ph' = owns c ph"
    and store: "length (fgStore g') = length (fgStore g)"
      "\<And>c. c < length (fgStore g) \<Longrightarrow> fcClosed (fgStore g' ! c) = fcClosed (fgStore g ! c)"
  shows "ownedOK g' (ts[i := (token, ph')])"
proof -
  have "countIf (\<lambda>x. owns c (snd x)) (ts[i := (token, ph')]) = countIf (\<lambda>x. owns c (snd x)) ts" for c
    using countIf_update[OF i(1), of "\<lambda>x. owns c (snd x)" "(token, ph')"] i(2) same[of c] by (auto split: if_splits)
  moreover have "\<exists>y\<in>set (ts[i := (token, ph')]). owns c (snd y)" if x: "x \<in> set ts" "owns c (snd x)" for x c
  proof -
    obtain j where j: "j < length ts" "ts ! j = x" using x(1) by (metis in_set_conv_nth)
    show ?thesis
    proof (cases "j = i")
      case True
      then have "owns c ph'" using j x(2) i(2) same[of c] by (metis snd_conv)
      then show ?thesis using i(1) by (intro bexI[of _ "(token, ph')"]) (auto simp: in_set_update)
    next
      case False
      then show ?thesis using j x(2) i(1) by (intro bexI[of _ x]) (auto simp: in_set_update)
    qed
  qed
  moreover have "c < length (fgStore g)" if "x \<in> set (ts[i := (token, ph')])" "owns c (snd x)" for x c
  proof (cases "x = (token, ph')")
    case True
    then show ?thesis using that(2) own same i unfolding ownedOK_def by (metis nth_mem snd_conv)
  next
    case False
    then show ?thesis using that own i(1) by (auto simp: ownedOK_def in_set_update)
  qed
  ultimately show ?thesis using own store unfolding ownedOK_def by (metis (no_types, lifting))
qed

text \<open>Putting one thread's part and the others' together.\<close>

lemma phases_move:
  assumes "\<forall>x\<in>set ts. phaseOK sha g x" and "i < length ts"
    and "phaseOK sha g' (token, ph')"
    and "\<And>j. j < length ts \<Longrightarrow> j \<noteq> i \<Longrightarrow> phaseOK sha g (ts ! j) \<Longrightarrow> phaseOK sha g' (ts ! j)"
  shows "\<forall>x\<in>set (ts[i := (token, ph')]). phaseOK sha g' x"
  using assms by (auto simp: in_set_update)

lemma flightOK_same:
  assumes ok: "flightOK sha g ts" and i: "i < length ts" "ts ! i = (token, ph)"
    and own: "\<And>c. owns c ph' = owns c ph" and new: "phaseOK sha g' (token, ph')"
    and grow: "set (fgTold g) \<subseteq> set (fgTold g')" "fgNow g \<le> fgNow g'"
    and same: "fgCalls g' = fgCalls g" "fgStore g' = fgStore g" "fgCache g' = fgCache g"
  shows "flightOK sha g' (ts[i := (token, ph')])"
proof -
  have "\<forall>x\<in>set (ts[i := (token, ph')]). phaseOK sha g' x"
    by (rule phases_move[OF _ i(1) new]) (use ok phaseOK_grows[OF _ grow same(1,2)] in \<open>auto simp: flightOK_def\<close>)
  moreover have "cacheVouched sha g'" using ok cacheVouched_grows[OF _ grow same(3)] by (simp add: flightOK_def)
  moreover have "callsOK g'" using ok same by (simp add: flightOK_def callsOK_def)
  moreover have "ownedOK g' (ts[i := (token, ph')])"
    by (rule ownedOK_keep[OF _ i own]) (use ok same in \<open>simp_all add: flightOK_def\<close>)
  ultimately show ?thesis by (simp add: flightOK_def)
qed

lemma others_own_not:
  assumes "ownedOK g ts" "i < length ts" "j < length ts" "j \<noteq> i" "owns c (snd (ts ! i))"
  shows "\<not> owns c (snd (ts ! j))"
  using countIf_unique[of "\<lambda>x. owns c (snd x)" ts i j] assms by (auto simp: ownedOK_def)

lemma flightOK_store:
  assumes ok: "flightOK sha g ts" and i: "i < length ts" "ts ! i = (token, ph)"
    and ph: "ph = Leading c \<or> ph = Asking c" and res: "vouchedResult sha g (sha token) res"
  shows "flightOK sha (storeResult c res g) (ts[i := (token, Answered c)])"
proof -
  let ?g = "storeResult c res g"
  have me: "phaseOK sha g (token, ph)" using ok i by (metis flightOK_def nth_mem)
  then have key: "fgCalls g (sha token) = Some c" and c: "c < length (fgStore g)"
    and fresh: "fgStore g ! c = \<lparr>fcResult = None, fcClosed = False\<rparr>"
    using ph by auto
  have own: "ownedOK g ts" using ok by (simp add: flightOK_def)
  have "\<forall>x\<in>set (ts[i := (token, Answered c)]). phaseOK sha ?g x"
  proof (rule phases_move[OF _ i(1)])
    show "\<forall>x\<in>set ts. phaseOK sha g x" using ok by (simp add: flightOK_def)
    show "phaseOK sha ?g (token, Answered c)"
      using key c fresh res by (auto simp: storeResult_def vouchedResult_def vouched_def)
    show "phaseOK sha ?g (ts ! j)" if "j < length ts" "j \<noteq> i" "phaseOK sha g (ts ! j)" for j
      using phaseOK_store[OF that(3) others_own_not[OF own i(1) that(1,2)] res key] i(2) ph by auto
  qed
  moreover have "cacheVouched sha ?g"
    using ok by (auto simp: flightOK_def storeResult_def intro: cacheVouched_grows)
  moreover have "callsOK ?g"
    using ok c by (auto simp: flightOK_def callsOK_def storeResult_def nth_update_at)
  moreover have "ownedOK ?g (ts[i := (token, Answered c)])"
    by (rule ownedOK_keep[OF own i]) (use ph c in \<open>auto simp: storeResult_def nth_update_at\<close>)
  ultimately show ?thesis by (simp add: flightOK_def)
qed

lemma flightOK_delete:
  assumes ok: "flightOK sha g ts" and i: "i < length ts" "ts ! i = (token, Answered c)"
  shows "flightOK sha (g\<lparr>fgCalls := (fgCalls g)(sha token := None)\<rparr>) (ts[i := (token, Removed c)])"
proof -
  let ?g = "g\<lparr>fgCalls := (fgCalls g)(sha token := None)\<rparr>"
  have me: "phaseOK sha g (token, Answered c)" using ok i by (metis flightOK_def nth_mem)
  then have key: "fgCalls g (sha token) = Some c" by simp
  have own: "ownedOK g ts" and calls: "callsOK g" using ok by (simp_all add: flightOK_def)
  have "\<forall>x\<in>set (ts[i := (token, Removed c)]). phaseOK sha ?g x"
  proof (rule phases_move[OF _ i(1)])
    show "\<forall>x\<in>set ts. phaseOK sha g x" using ok by (simp add: flightOK_def)
    show "phaseOK sha ?g (token, Removed c)"
      using me calls by (auto simp: ran_def callsOK_def vouchedResult_def vouched_def)
    show "phaseOK sha ?g (ts ! j)" if "j < length ts" "j \<noteq> i" "phaseOK sha g (ts ! j)" for j
      using phaseOK_delete[OF that(3) others_own_not[OF own i(1) that(1,2)] key] i(2) by simp
  qed
  moreover have "cacheVouched sha ?g"
    using ok by (auto simp: flightOK_def intro: cacheVouched_grows)
  moreover have "callsOK ?g" using calls by (auto simp: callsOK_def)
  moreover have "ownedOK ?g (ts[i := (token, Removed c)])"
    by (rule ownedOK_keep[OF own i]) auto
  ultimately show ?thesis by (simp add: flightOK_def)
qed

lemma flightOK_close:
  assumes ok: "flightOK sha g ts" and i: "i < length ts" "ts ! i = (token, Removed c)"
  shows "flightOK sha (closeDone c g) (ts[i := (token, Obtained (the (fcResult (fgStore g ! c))))])"
proof -
  let ?g = "closeDone c g" and ?ph = "Obtained (the (fcResult (fgStore g ! c)))"
  have me: "phaseOK sha g (token, Removed c)" using ok i by (metis flightOK_def nth_mem)
  have own: "ownedOK g ts" and calls: "callsOK g" using ok by (simp_all add: flightOK_def)
  have P: "\<forall>x\<in>set (ts[i := (token, ?ph)]). phaseOK sha ?g x"
  proof (rule phases_move[OF _ i(1)])
    show "\<forall>x\<in>set ts. phaseOK sha g x" using ok by (simp add: flightOK_def)
    show "phaseOK sha ?g (token, ?ph)"
      using me by (auto simp: closeDone_def vouchedResult_def vouched_def)
    show "phaseOK sha ?g (ts ! j)" if "j < length ts" "j \<noteq> i" "phaseOK sha g (ts ! j)" for j
      using phaseOK_close[OF that(3) others_own_not[OF own i(1) that(1,2)]] i(2) by simp
  qed
  have V: "cacheVouched sha ?g"
    using ok by (auto simp: flightOK_def closeDone_def intro: cacheVouched_grows)
  have C: "callsOK ?g"
    using calls me by (auto simp: callsOK_def closeDone_def nth_update_at ran_def)
  have cnt: "countIf (\<lambda>x. owns d (snd x)) (ts[i := (token, ?ph)]) + (if d = c then 1 else 0)
      = countIf (\<lambda>x. owns d (snd x)) ts" for d
    using countIf_update[OF i(1), of "\<lambda>x. owns d (snd x)" "(token, ?ph)"] i(2) by (auto split: if_splits)
  have others: "\<exists>x\<in>set (ts[i := (token, ?ph)]). owns d (snd x)" if "d \<noteq> c" "\<exists>x\<in>set ts. owns d (snd x)" for d
  proof -
    have "countIf (\<lambda>x. owns d (snd x)) (ts[i := (token, ?ph)]) \<noteq> 0"
      using cnt[of d] that by (simp add: countIf_zero)
    then show ?thesis by (simp add: countIf_zero)
  qed
  have bound: "d < length (fgStore g)" if "x \<in> set (ts[i := (token, ?ph)])" "owns d (snd x)" for x d
    using that own i(1) by (auto simp: ownedOK_def in_set_update)
  have "countIf (\<lambda>x. owns d (snd x)) (ts[i := (token, ?ph)]) \<le> 1" for d
  proof -
    have "countIf (\<lambda>x. owns d (snd x)) ts \<le> 1" using own by (simp add: ownedOK_def)
    then show ?thesis using cnt[of d] by linarith
  qed
  then have "ownedOK ?g (ts[i := (token, ?ph)])"
    using own me others bound by (auto simp: ownedOK_def closeDone_def nth_update_at)
  then show ?thesis using P V C by (simp add: flightOK_def)
qed

lemma flightOK_enter:
  assumes ok: "flightOK sha g ts" and i: "i < length ts" "ts ! i = (token, Entering)"
    and enter: "enterFlight (sha token) g = (g', ph)"
  shows "flightOK sha g' (ts[i := (token, ph)])"
proof (cases "fgCalls g (sha token)")
  case (Some c)
  then have eq: "g' = g" "ph = Following c" using enter by (auto simp: enterFlight_def)
  have calls: "callsOK g" and own: "ownedOK g ts" and phs: "\<forall>x\<in>set ts. phaseOK sha g x"
    using ok by (simp_all add: flightOK_def)
  have c: "c < length (fgStore g)" and open': "\<not> fcClosed (fgStore g ! c)"
    using calls Some by (auto simp: callsOK_def)
  have inj: "key = sha token" if "fgCalls g key = Some c" for key using calls Some that by (auto simp: callsOK_def)
  have "vouchedResult sha g (sha token) res" if r: "fcResult (fgStore g ! c) = Some res" for res
  proof -
    obtain x where x: "x \<in> set ts" "owns c (snd x)" using own c open' by (auto simp: ownedOK_def)
    have "phaseOK sha g x" using phs x by blast
    then show ?thesis using x(2) r Some
      by (cases "(sha, g, x)" rule: phaseOK.cases) (auto simp: ran_def dest!: inj)
  qed
  moreover have "\<forall>key. fgCalls g key = Some c \<longrightarrow> key = sha token" using inj by blast
  ultimately have "phaseOK sha g (token, Following c)" using c by simp
  then show ?thesis unfolding eq by (intro flightOK_same[OF ok i]) auto
next
  case None
  let ?n = "length (fgStore g)"
  have g': "g' = g\<lparr>fgStore := fgStore g @ [\<lparr>fcResult = None, fcClosed = False\<rparr>], fgCalls := (fgCalls g)(sha token \<mapsto> ?n)\<rparr>"
    and ph: "ph = Leading ?n"
    using enter None by (auto simp: enterFlight_def Let_def)
  have calls: "callsOK g" and own: "ownedOK g ts" using ok by (simp_all add: flightOK_def)
  have P: "\<forall>x\<in>set (ts[i := (token, ph)]). phaseOK sha g' x"
  proof (rule phases_move[OF _ i(1)])
    show "\<forall>x\<in>set ts. phaseOK sha g x" using ok by (simp add: flightOK_def)
    show "phaseOK sha g' (token, ph)" by (simp add: g' ph)
    show "phaseOK sha g' (ts ! j)" if "phaseOK sha g (ts ! j)" for j
      by (rule phaseOK_enter[OF that calls None g'])
  qed
  have V: "cacheVouched sha g'"
    using ok by (auto simp: flightOK_def g' intro: cacheVouched_grows)
  have C: "callsOK g'"
    unfolding callsOK_def
  proof (intro conjI allI impI)
    fix key c assume "fgCalls g' key = Some c"
    then show "c < length (fgStore g')" "\<not> fcClosed (fgStore g' ! c)"
      using calls by (auto simp: g' callsOK_def nth_append split: if_splits dest: less_SucI)
  next
    fix k1 k2 c assume "fgCalls g' k1 = Some c" "fgCalls g' k2 = Some c"
    then show "k1 = k2" using calls by (auto simp: g' callsOK_def split: if_splits)
  next
    fix c assume "c < length (fgStore g')" "fcClosed (fgStore g' ! c)"
    then show "fcResult (fgStore g' ! c) \<noteq> None"
      using calls by (auto simp: g' callsOK_def nth_append split: if_splits)
  qed
  have nobody: "\<not> owns ?n (snd x)" if "x \<in> set ts" for x using own that by (auto simp: ownedOK_def)
  have cnt: "countIf (\<lambda>x. owns d (snd x)) (ts[i := (token, ph)])
      = countIf (\<lambda>x. owns d (snd x)) ts + (if d = ?n then 1 else 0)" for d
    using countIf_update[OF i(1), of "\<lambda>x. owns d (snd x)" "(token, ph)"] i(2) by (auto simp: ph split: if_splits)
  have zero: "countIf (\<lambda>x. owns ?n (snd x)) ts = 0" using nobody by (simp add: countIf_zero)
  have one: "countIf (\<lambda>x. owns d (snd x)) (ts[i := (token, ph)]) \<le> 1" for d
    using cnt[of d] zero own by (auto simp: ownedOK_def)
  have live: "\<exists>x\<in>set (ts[i := (token, ph)]). owns d (snd x)" if "d < Suc ?n" "\<not> fcClosed (fgStore g' ! d)" for d
  proof (cases "d = ?n")
    case True
    then show ?thesis using i(1) ph by (intro bexI[of _ "(token, ph)"]) (auto simp: in_set_update)
  next
    case False
    then have "\<exists>x\<in>set ts. owns d (snd x)" using that own by (auto simp: g' ownedOK_def nth_append less_Suc_eq)
    then have "countIf (\<lambda>x. owns d (snd x)) (ts[i := (token, ph)]) \<noteq> 0"
      using cnt[of d] by (auto simp: countIf_zero)
    then show ?thesis by (simp add: countIf_zero)
  qed
  have "d < Suc ?n" if "x \<in> set (ts[i := (token, ph)])" "owns d (snd x)" for x d
  proof (cases "x = (token, ph)")
    case False
    then have "x \<in> set ts" using that(1) i(1) by (auto simp: in_set_update)
    then have "d < ?n" using own that(2) by (auto simp: ownedOK_def)
    then show ?thesis by simp
  qed (use that(2) ph in simp)
  then have "ownedOK g' (ts[i := (token, ph)])"
    using one live by (auto simp: ownedOK_def g')
  then show ?thesis using P V C by (simp add: flightOK_def)
qed

lemma flightOK_cache:
  assumes ok: "flightOK sha g ts" and i: "i < length ts" "ts ! i = (token, Storing resp)" and ne: "token \<noteq> []"
  shows "flightOK sha (g\<lparr>fgCache := cacheStore ttl now (sha token) resp (fgCache g)\<rparr>) (ts[i := (token, Admitted resp)])"
proof -
  let ?g = "g\<lparr>fgCache := cacheStore ttl now (sha token) resp (fgCache g)\<rparr>"
  have me: "phaseOK sha g (token, Storing resp)" using ok i by (metis flightOK_def nth_mem)
  have v: "vouched sha ?g = vouched sha g" "vouchedResult sha ?g = vouchedResult sha g"
    by (auto simp: vouched_def vouchedResult_def fun_eq_iff)
  have "\<forall>x\<in>set (ts[i := (token, Admitted resp)]). phaseOK sha ?g x"
  proof (rule phases_move[OF _ i(1)])
    show "\<forall>x\<in>set ts. phaseOK sha g x" using ok by (simp add: flightOK_def)
    show "phaseOK sha ?g (token, Admitted resp)" using me v ne by simp
    show "phaseOK sha ?g (ts ! j)" if "phaseOK sha g (ts ! j)" for j
      by (rule phaseOK_grows[OF that]) simp_all
  qed
  moreover have "cacheVouched sha ?g"
    unfolding cacheVouched_def v
  proof (intro allI impI)
    fix c' assume "fgCache ?g = Some c'"
    then obtain c where c: "fgCache g = Some c" "c' = cacheSet (sha token) resp (tokenExpiry ttl now resp) c"
      by (auto simp: cacheStore_def)
    have "cacheOK c" "\<forall>key r e. view c key = Some (r, e) \<longrightarrow> irActive r \<and> vouched sha g key r"
      using ok c(1) by (auto simp: flightOK_def cacheVouched_def)
    then show "cacheOK c' \<and> (\<forall>key r e. view c' key = Some (r, e) \<longrightarrow> irActive r \<and> vouched sha g key r)"
      unfolding c(2) using me by (intro tokens.put_all) simp_all
  qed
  moreover have "callsOK ?g" using ok by (simp add: flightOK_def callsOK_def)
  moreover have "ownedOK ?g (ts[i := (token, Admitted resp)])"
    by (rule ownedOK_keep[OF _ i]) (use ok in \<open>simp_all add: flightOK_def\<close>)
  ultimately show ?thesis by (simp add: flightOK_def)
qed

text \<open>A request without a token never gets past its first step.\<close>

definition tokenGiven :: "string \<times> flightPhase \<Rightarrow> bool" where
  "tokenGiven x \<longleftrightarrow> fst x = [] \<longrightarrow> snd x = Arriving \<or> snd x = Refused"

lemma flightOK_move:
  assumes ok: "flightOK sha g ts" and given: "\<forall>x\<in>set ts. tokenGiven x"
    and i: "i < length ts" "ts ! i = (token, ph)" and st: "flightStep sha ttl token e g ph = Some (g', ph')"
  shows "flightOK sha g' (ts[i := (token, ph')])" and "\<forall>x\<in>set (ts[i := (token, ph')]). tokenGiven x"
proof -
  have me: "phaseOK sha g (token, ph)" and gi: "tokenGiven (token, ph)"
    using ok given i by (metis flightOK_def nth_mem)+
  have cv: "cacheVouched sha g" and calls: "callsOK g" using ok by (simp_all add: flightOK_def)
  note hit = cacheLookup_vouched[OF cv]
  have "tokenGiven (token, ph')"
    using gi st by (cases "(sha, ttl, token, e, g, ph)" rule: flightStep.cases) (auto simp: tokenGiven_def)
  then show "\<forall>x\<in>set (ts[i := (token, ph')]). tokenGiven x"
    using given i(1) by (auto simp: in_set_update)
  show "flightOK sha g' (ts[i := (token, ph')])"
  proof (cases "(sha, ttl, token, e, g, ph)" rule: flightStep.cases)
    case 1
    then show ?thesis using st hit
      by (intro flightOK_same[OF ok i]) (auto simp: afterLookup_def split: option.splits if_splits)
  next
    case 2
    then show ?thesis using st i by (intro flightOK_enter[OF ok i(1)]) auto
  next
    case (3 _ _ _ _ c)
    show ?thesis
    proof (cases "cacheLookup (fgNow g) (sha token) (fgCache g)")
      case None
      then show ?thesis using 3 st me by (intro flightOK_same[OF ok i]) auto
    next
      case (Some resp)
      then have "g' = storeResult c (Inr resp) g" "ph' = Answered c" "ph = Leading c" using 3 st by auto
      moreover have "vouchedResult sha g (sha token) (Inr resp)" using hit[OF Some] by (simp add: vouchedResult_def)
      ultimately show ?thesis using flightOK_store[OF ok i] by blast
    qed
  next
    case (4 _ _ _ res _ c)
    let ?h = "hearAnswer token res g"
    have h: "fgCalls ?h = fgCalls g" "fgStore ?h = fgStore g" "fgCache ?h = fgCache g" "fgNow ?h = fgNow g"
      "set (fgTold g) \<subseteq> set (fgTold ?h)" by (auto simp: hearAnswer_def split: sum.splits)
    have ph: "ph = Asking c" "g' = storeResult c res ?h" "ph' = Answered c" using 4 st by auto
    have "phaseOK sha ?h (token, ph)" using phaseOK_grows[OF me h(5) _ h(1,2)] h(4) by simp
    then have "flightOK sha ?h (ts[i := (token, ph)])"
      by (intro flightOK_same[OF ok i]) (use h in auto)
    then have "flightOK sha ?h ts" using i by (metis list_update_id)
    moreover have "vouchedResult sha ?h (sha token) res"
      by (auto simp: vouchedResult_def vouched_def hearAnswer_def)
    ultimately show ?thesis using flightOK_store[OF _ i, of _ ?h c res] ph by simp
  next
    case 5
    then show ?thesis using st me by (intro flightOK_same[OF ok i]) auto
  next
    case (6 _ _ _ _ c)
    then show ?thesis using st i flightOK_delete[OF ok i(1), of token c] by simp
  next
    case (7 _ _ _ _ c)
    then show ?thesis using st i flightOK_close[OF ok i(1), of token c] by simp
  next
    case (8 _ _ _ _ c)
    then show ?thesis using st me calls
      by (intro flightOK_same[OF ok i]) (auto simp: callsOK_def split: if_splits)
  next
    case 9
    then show ?thesis using st by (intro flightOK_same[OF ok i]) (auto simp: vouchedResult_def)
  next
    case 10
    then show ?thesis using st me gi
      by (intro flightOK_same[OF ok i]) (auto simp: afterDo_def vouchedResult_def tokenGiven_def split: sum.splits if_splits)
  next
    case (11 _ _ _ _ resp)
    then have "ts ! i = (token, Storing resp)" "token \<noteq> []" using i gi by (simp_all add: tokenGiven_def)
    note flightOK_cache[OF ok i(1) this, of ttl "fgNow g"]
    then show ?thesis using 11 st by auto
  qed (use st in simp_all)
qed

lemma newOAuth2Cache_OK: "cacheOK (newOAuth2Cache n)"
  by (simp add: newOAuth2Cache_def cacheOK_def linked_def positionsOK_def ordered_def)

lemma newFlightWorld_OK:
  assumes "oauth2Construct ep opts = Inr conf" shows "flightOK sha (newFlightWorld conf now) []"
proof -
  have "osCache conf = None \<or> (\<exists>n. osCache conf = Some (newOAuth2Cache n))"
    using assms by (auto simp: oauth2Construct_def Let_def split: if_splits sum.splits)
  moreover have "view (newOAuth2Cache n) = Map.empty" for n by (simp add: newOAuth2Cache_def view_def fun_eq_iff)
  ultimately show ?thesis
    by (auto simp: flightOK_def newFlightWorld_def cacheVouched_def callsOK_def ownedOK_def newOAuth2Cache_OK)
qed

lemma flying_OK: "flying sha conf g ts \<Longrightarrow> flightOK sha g ts \<and> (\<forall>x\<in>set ts. tokenGiven x)"
proof (induction rule: flying.induct)
  case (built ep opts now)
  then show ?case by (simp add: newFlightWorld_OK)
next
  case (arrive g ts token)
  then show ?case by (auto simp: flightOK_def ownedOK_def tokenGiven_def)
next
  case (move g ts i token ph e g' ph')
  show ?case using flightOK_move[OF _ _ move.hyps(2-4)] move.IH by blast
next
  case (tick g ts d)
  then show ?case
    by (auto simp: flightOK_def callsOK_def ownedOK_def intro: phaseOK_grows cacheVouched_grows)
qed

section \<open>Progress\<close>

text \<open>How many steps of its own a request has at most left.\<close>

fun flightRank :: "flightPhase \<Rightarrow> nat" where
  "flightRank Arriving = 9"
| "flightRank Entering = 8"
| "flightRank (Leading c) = 7"
| "flightRank (Asking c) = 6"
| "flightRank (Answered c) = 5"
| "flightRank (Removed c) = 4"
| "flightRank (Following c) = 3"
| "flightRank (Obtained res) = 2"
| "flightRank (Storing resp) = 1"
| "flightRank ph = 0"

lemma flightStep_rank: "flightStep sha ttl token e g ph = Some (g', ph') \<Longrightarrow> flightRank ph' < flightRank ph"
  by (cases "(sha, ttl, token, e, g, ph)" rule: flightStep.cases)
    (auto simp: afterLookup_def afterDo_def enterFlight_def Let_def split: option.splits sum.splits if_splits)

text \<open>A request that cannot go on waits for a call whose leader is at some other point.\<close>

lemma flight_progress:
  assumes ok: "flightOK sha g ts" and alive: "\<And>x c. x \<in> set ts \<Longrightarrow> snd x \<noteq> Crashed c"
    and busy: "x \<in> set ts" "flightRank (snd x) > 0"
  shows "\<exists>i<length ts. \<exists>e. e \<noteq> Fail \<and> e \<noteq> Cancel \<and> flightStep sha ttl (fst (ts ! i)) e g (snd (ts ! i)) \<noteq> None"
proof -
  have can: "\<exists>e. e \<noteq> Fail \<and> e \<noteq> Cancel \<and> flightStep sha ttl (fst y) e g (snd y) \<noteq> None"
    if y: "flightRank (snd y) > 0" "\<And>c. snd y \<noteq> Following c" for y
  proof (cases "snd y")
    case (Asking c)
    then show ?thesis by (intro exI[of _ "Reply (Inl [])"]) simp
  qed (use y in \<open>auto intro!: exI[of _ Proceed]\<close>)
  have "\<exists>y\<in>set ts. \<exists>e. e \<noteq> Fail \<and> e \<noteq> Cancel \<and> flightStep sha ttl (fst y) e g (snd y) \<noteq> None"
  proof (cases "\<exists>c. snd x = Following c")
    case False
    then show ?thesis using can[OF busy(2)] busy(1) by blast
  next
    case True
    then obtain c where c: "snd x = Following c" by blast
    have "phaseOK sha g x" using ok busy(1) by (simp add: flightOK_def)
    then have len: "c < length (fgStore g)" using c by (cases x) simp
    show ?thesis
    proof (cases "fcClosed (fgStore g ! c)")
      case True
      then show ?thesis using c by (intro bexI[OF _ busy(1)] exI[of _ Proceed]) simp
    next
      case False
      then obtain y where y: "y \<in> set ts" "owns c (snd y)" using ok len by (auto simp: flightOK_def ownedOK_def)
      then have "flightRank (snd y) > 0 \<and> (\<forall>d. snd y \<noteq> Following d)"
        using alive[OF y(1), of c] by (cases "snd y") auto
      then show ?thesis using can[of y] y(1) by blast
    qed
  qed
  then show ?thesis by (metis in_set_conv_nth)
qed

section \<open>Schedules\<close>

text \<open>A schedule as a list, to run one.\<close>

datatype flightMove = ArriveWith string | StepOf nat flightEvent | TickBy int

fun runFlight :: "hash \<Rightarrow> int \<Rightarrow> flightMove list \<Rightarrow> flightWorld \<times> (string \<times> flightPhase) list \<Rightarrow>
    (flightWorld \<times> (string \<times> flightPhase) list) option" where
  "runFlight sha ttl [] gts = Some gts"
| "runFlight sha ttl (ArriveWith token # ms) (g, ts) = runFlight sha ttl ms (g, ts @ [(token, Arriving)])"
| "runFlight sha ttl (StepOf i e # ms) (g, ts) =
     (if i < length ts
      then case flightStep sha ttl (fst (ts ! i)) e g (snd (ts ! i)) of
        None \<Rightarrow> None
      | Some (g', ph') \<Rightarrow> runFlight sha ttl ms (g', ts[i := (fst (ts ! i), ph')])
      else None)"
| "runFlight sha ttl (TickBy d # ms) (g, ts) =
     (if 0 \<le> d then runFlight sha ttl ms (g\<lparr>fgNow := fgNow g + d\<rparr>, ts) else None)"

lemma runFlight_flying:
  "flying sha conf g ts \<Longrightarrow> runFlight sha (osTTL conf) ms (g, ts) = Some (g', ts') \<Longrightarrow> flying sha conf g' ts'"
proof (induction ms arbitrary: g ts)
  case (Cons m ms)
  show ?case
  proof (cases m)
    case (ArriveWith token)
    then show ?thesis using Cons by (auto intro: flying.arrive)
  next
    case (StepOf i e)
    then show ?thesis
      using Cons flying.move[OF Cons.prems(1), of i "fst (ts ! i)" "snd (ts ! i)" e]
      by (auto split: if_splits option.splits)
  next
    case (TickBy d)
    then show ?thesis using Cons by (auto intro: flying.tick split: if_splits)
  qed
qed simp

end
