(* ===== verification/AuthProperties.thy ===== *)
theory AuthProperties
  imports TokenFlight
begin

text \<open>
  The properties of the authentication middleware, with concrete instances: BasicAuth, JWTAuth and
  OAuth2Introspect.
\<close>

definition plainRequest :: "string \<Rightarrow> request" where
  "plainRequest auth =
     \<lparr>rMethod = ''GET'', rURL = \<lparr>uPath = ''/'', uRawPath = [], uRawQuery = []\<rparr>,
      rHeader = [''Authorization'' \<mapsto> [auth]], rCtx = None, rRemoteAddr = [], rHost = []\<rparr>"

section \<open>BasicAuth\<close>

text \<open>
  C29. BasicAuth lets exactly the configured pairs through. The scan without branches over all hashed
  entries, with its dummy password and masks, decides as a lookup of the user and a comparison of the
  password, provided that the hash does not collide on the strings at hand; every other request is
  answered 401 and never reaches the handler.
\<close>

theorem basic_auth_grants:
  assumes "distinct (map fst creds)" and "requestBasicAuth r = (user, pass, given)"
    and "inj_on sha (insert user (insert pass (fst ` set creds \<union> snd ` set creds)))"
    and "basicAuth sha realm (Some creds) = Inr mw"
  shows "mw next' r w =
     (if given \<and> map_of creds user = Some pass then next' r w
      else ok (httpError (statusText 401) 401 (headerSet ''WWW-Authenticate'' (basicChallenge realm) w)))"
  using basicAuthorised_iff[OF assms(1-3)] assms(4)
  by (auto simp: basicAuth_def unauthorized_def)

theorem basic_auth_grants_witness:
  "\<exists>mw. basicAuth id ''x'' (Some [(''user'', ''pass''), (''u'', ''p'')]) = Inr mw
     \<and> (\<forall>next' (w :: unit rw). mw next' (plainRequest ''Basic dXNlcjpwYXNz'') w
          = next' (plainRequest ''Basic dXNlcjpwYXNz'') w)"
proof -
  let ?mw = "\<lambda>next r (w :: unit rw). if basicAuthorised id [(''user'', ''pass''), (''u'', ''p'')] r then next r w
                         else unauthorized (basicChallenge ''x'') w"
  have mw: "basicAuth id ''x'' (Some [(''user'', ''pass''), (''u'', ''p'')]) = Inr ?mw" by (simp add: basicAuth_def)
  have req: "requestBasicAuth (plainRequest ''Basic dXNlcjpwYXNz'') = (''user'', ''pass'', True)" by code_simp
  have "?mw next' (plainRequest ''Basic dXNlcjpwYXNz'') w = next' (plainRequest ''Basic dXNlcjpwYXNz'') w" for next' w
    using basic_auth_grants[OF _ req _ mw, of next' w] by simp
  then show ?thesis using mw by blast
qed

section \<open>JWTAuth\<close>

text \<open>
  C30. JWTAuth accepts exactly the signed, valid tokens. For options that pass construction and any memo
  stored by earlier requests, \<open>parseAndValidateJWT\<close> never panics, whatever the HMAC object held before,
  and returns claims exactly when the token has the segments, its header names an allowed algorithm and
  no critical extension, the signature of that algorithm and key over the first two segments verifies,
  and the payload decodes and passes the checks; the claims are those of the payload, and the memo it
  leaves is again one that changes nothing.
\<close>

theorem jwt_accepts_exactly:
  assumes "jwtCheck opts = None" and "memoOK js (joAlgorithms opts) memo"
  shows "\<exists>res memo'. parseAndValidateJWT prims js opts now stale token memo = (Inr res, memo')
    \<and> memoOK js (joAlgorithms opts) memo'
    \<and> (\<forall>claims. res = Inr claims \<longleftrightarrow>
        (\<exists>h p s alg sig payload raw.
           token = h @ ''.'' @ p @ ''.'' @ s \<and> CHR ''.'' \<notin> set h \<and> CHR ''.'' \<notin> set p
           \<and> headerAlg js (joAlgorithms opts) h = Some alg
           \<and> b64Decode True s = Some sig \<and> signatureValid prims opts alg (h @ ''.'' @ p) sig
           \<and> b64Decode True p = Some payload \<and> jsonPayload js (audUnmarshal js) payload = Some raw
           \<and> checkPayload opts now raw = None \<and> claims = claimsOf raw payload))"
proof -
  obtain out memo' where run: "parseAndValidateJWT prims js opts now stale token memo = (out, memo')" by fastforce
  have "memoOK js (joAlgorithms opts) memo'"
    using parseAndValidateJWT_memo[OF assms(2), of prims now stale token] run by simp
  moreover obtain res where "out = Inr res" "\<forall>claims. res = Inr claims \<longleftrightarrow> jwtAccepts prims js opts now token claims"
    using parseAndValidateJWT_iff[OF assms, of prims now stale token] run by auto
  ultimately show ?thesis using run unfolding jwtAccepts_def by blast
qed

definition demoOptions :: jwtOptions where
  "demoOptions = \<lparr>joSecret = Some ''k'', joPublicKey = NoPublicKey, joAlgorithms = [''HS256''], joIssuers = [],
     joAudiences = [], joClockSkew = 0, joRequireExpiry = True\<rparr>"

text \<open>A JSON decoder for the two texts of the example, and a code in place of HMAC.\<close>

definition demoPayload :: rawJWTPayload where
  "demoPayload = \<lparr>rpSub = ''me'', rpIss = [], rpAud = [], rpExp = 100, rpNbf = 0, rpIat = 0\<rparr>"

definition demoJSON :: jsonPrims where
  "demoJSON = \<lparr>jsonString = (\<lambda>s. None), jsonStrings = (\<lambda>s. None),
     jsonHeader = (\<lambda>s. if s = ''h1h'' then Some \<lparr>rhAlg = ''HS256'', rhCrit = []\<rparr> else None),
     jsonPayload = (\<lambda>f s. if s = ''p1p'' then Some demoPayload else None)\<rparr>"

definition demoPrims :: cryptoPrims where
  "demoPrims = \<lparr>hmacOf = (\<lambda>h k m. k @ ''2k''), digestOf = (\<lambda>h m. m), rsaVerify = (\<lambda>k h m s. False),
     ecdsaVerify = (\<lambda>k m r s. False)\<rparr>"

theorem jwt_accepts_exactly_witness:
  "parseAndValidateJWT demoPrims demoJSON demoOptions (99 * second) [] ''aDFo.cDFw.azJr'' None
   = (Inr (Inr (claimsOf demoPayload ''p1p'')), Some \<lparr>hmB64 = ''aDFo'', hmAlg = ''HS256''\<rparr>)
   \<and> memoOK demoJSON [''HS256''] (Some \<lparr>hmB64 = ''aDFo'', hmAlg = ''HS256''\<rparr>)"
proof -
  have opts: "jwtCheck demoOptions = None" by code_simp
  have memo: "memoOK demoJSON (joAlgorithms demoOptions) None" by (simp add: memoOK_def)
  have run: "parseAndValidateJWT demoPrims demoJSON demoOptions (99 * second) [] ''aDFo.cDFw.azJr'' None
     = (Inr (Inr (claimsOf demoPayload ''p1p'')), Some \<lparr>hmB64 = ''aDFo'', hmAlg = ''HS256''\<rparr>)"
    by code_simp
  obtain res memo' where "parseAndValidateJWT demoPrims demoJSON demoOptions (99 * second) [] ''aDFo.cDFw.azJr'' None
      = (Inr res, memo')" "memoOK demoJSON (joAlgorithms demoOptions) memo'"
    using jwt_accepts_exactly[OF opts memo, of demoPrims "99 * second" "[]" "''aDFo.cDFw.azJr''"] by blast
  then show ?thesis using run by (simp add: demoOptions_def)
qed

text \<open>
  C31. The time window of a token. For a clock and a skew of sane size, and claims within the years that
  package time represents, a payload passes the time checks exactly when no claim is negative, an expiry
  is there if it is required, the clock is at most the expiry plus the skew, and at least the
  not-before minus the skew.
\<close>

theorem jwt_time_window:
  assumes "joIssuers opts = []" and "joAudiences opts = []"
    and "\<bar>now\<bar> \<le> 2 ^ 62" and "\<bar>joClockSkew opts\<bar> \<le> 2 ^ 62"
    and "rpExp raw \<le> 2 ^ 62" and "rpNbf raw \<le> 2 ^ 62"
  shows "checkPayload opts now raw = None \<longleftrightarrow>
     rpExp raw \<ge> 0 \<and> rpNbf raw \<ge> 0 \<and> rpIat raw \<ge> 0
     \<and> (joRequireExpiry opts \<longrightarrow> rpExp raw \<noteq> 0)
     \<and> (rpExp raw \<noteq> 0 \<longrightarrow> now \<le> rpExp raw * second + joClockSkew opts)
     \<and> (rpNbf raw \<noteq> 0 \<longrightarrow> rpNbf raw * second \<le> now + joClockSkew opts)"
proof (cases "rpExp raw \<ge> 0 \<and> rpNbf raw \<ge> 0")
  case True
  have big: "\<bar>rpExp raw * second\<bar> \<le> 2 ^ 62 * second" using assms(5) True by (simp add: second_def)
  have "\<bar>now\<bar> \<le> 2 ^ 62 * second" using assms(3) by (simp add: second_def)
  then have "timeAdd now (joClockSkew opts) = now + joClockSkew opts" using assms(4) by (rule timeAdd_same)
  moreover have "timeUnix (rpExp raw) = rpExp raw * second" "timeUnix (rpNbf raw) = rpNbf raw * second"
    using True assms(5,6) by (simp_all add: timeUnix_same)
  ultimately show ?thesis
    using True assms(1,2) timeAdd_same[OF big assms(4)] by (auto simp: checkPayload_def)
qed (auto simp: checkPayload_def)

theorem jwt_time_window_witness:
  "checkPayload demoOptions (100 * second) demoPayload = None
   \<and> checkPayload demoOptions (100 * second + 1) demoPayload \<noteq> None"
  using jwt_time_window[of demoOptions "100 * second" demoPayload]
    jwt_time_window[of demoOptions "100 * second + 1" demoPayload]
  by (simp add: demoOptions_def demoPayload_def second_def)

text \<open>
  Beyond those years the seconds wrap around: a token that is not valid before the last second an int64
  can name is accepted today.
\<close>

lemma far_not_before_wraps:
  "checkPayload (demoOptions\<lparr>joRequireExpiry := False\<rparr>) (1000 * second)
     (demoPayload\<lparr>rpExp := 0, rpNbf := 2 ^ 63 - 1\<rparr>) = None"
  by code_simp

section \<open>OAuth2Introspect\<close>

text \<open>
  C32. The token cache is a bounded map. After any sequence of \<open>set\<close> calls on a new cache, the map, the
  heap, the positions in the entries and their order agree, at most the maximal number of entries is
  there, a lookup returns what the abstract map holds for the key unless its expiry is past, and one
  more \<open>set\<close> is an update of that map which, when the map is full, first gives up one key whose expiry
  is the earliest.
\<close>

fun cacheRun :: "(string \<times> introspectResponse \<times> int) list \<Rightarrow> oauth2Cache \<Rightarrow> oauth2Cache" where
  "cacheRun [] c = c"
| "cacheRun ((key, resp, e) # sets) c = cacheRun sets (cacheSet key resp e c)"

lemma cacheRun_OK: "cacheOK c \<Longrightarrow> cacheOK (cacheRun sets c) \<and> ocMaxSize (cacheRun sets c) = ocMaxSize c"
  by (induction sets c rule: cacheRun.induct) (simp_all add: cacheSet_correct)

theorem token_cache_is_bounded_map:
  "let c = cacheRun sets (newOAuth2Cache maxSize) in
    cacheOK c \<and> card (dom (view c)) \<le> nat maxSize
    \<and> cacheGet now key c = (case view c key of None \<Rightarrow> None | Some (resp, e) \<Rightarrow> if now > e then None else Some resp)
    \<and> setSpec maxSize key resp e (view c) (view (cacheSet key resp e c))"
proof -
  define c where "c = cacheRun sets (newOAuth2Cache maxSize)"
  have max: "ocMaxSize (newOAuth2Cache maxSize) = maxSize" by (simp add: newOAuth2Cache_def)
  have ok: "cacheOK c" "ocMaxSize c = maxSize"
    using cacheRun_OK[OF newOAuth2Cache_OK[of maxSize], of sets] max by (simp_all add: c_def)
  have "card (dom (view c)) \<le> nat maxSize"
    using ok card_view[of c] by (simp add: cacheOK_def dom_view)
  moreover have "cacheGet now key c
      = (case view c key of None \<Rightarrow> None | Some (resp, e) \<Rightarrow> if now > e then None else Some resp)"
    by (simp add: cacheGet_def view_def split: option.splits)
  ultimately show ?thesis
    unfolding Let_def c_def[symmetric] using ok cacheSet_correct(2)[OF ok(1), of key resp e] by simp
qed

text \<open>
  C33. A request is admitted only on the server's word. In every interleaving of any number of requests,
  a request is let through only with a token, and with an active response that the introspection
  endpoint gave, at some earlier time, for a token with the same hash; the cache holds only such
  responses; and no two introspection calls for the same hash are under way at the same time.
\<close>

theorem introspection_admits_vouched:
  assumes "flying sha conf g ts"
  shows "((token, Admitted resp) \<in> set ts \<longrightarrow> token \<noteq> [] \<and> irActive resp
        \<and> (\<exists>t0 t. (t0, t, resp) \<in> set (fgTold g) \<and> sha t0 = sha token \<and> t \<le> fgNow g))
    \<and> (\<forall>c key r e. fgCache g = Some c \<longrightarrow> view c key = Some (r, e) \<longrightarrow>
        irActive r \<and> (\<exists>t0 t. (t0, t, r) \<in> set (fgTold g) \<and> sha t0 = key))
    \<and> (\<forall>i j a b c d. i < length ts \<longrightarrow> j < length ts \<longrightarrow> i \<noteq> j \<longrightarrow>
        ts ! i = (a, Asking c) \<longrightarrow> ts ! j = (b, Asking d) \<longrightarrow> sha a \<noteq> sha b)"
proof (intro conjI allI impI)
  have ok: "flightOK sha g ts" using flying_OK[OF assms] by blast
  have ph: "phaseOK sha g x" if "x \<in> set ts" for x using ok that by (simp add: flightOK_def)
  {
    assume "(token, Admitted resp) \<in> set ts"
    from ph[OF this] show "token \<noteq> []" "irActive resp"
      "\<exists>t0 t. (t0, t, resp) \<in> set (fgTold g) \<and> sha t0 = sha token \<and> t \<le> fgNow g"
      by (auto simp: vouched_def)
  next
    fix c key r e assume "fgCache g = Some c" "view c key = Some (r, e)"
    then have "irActive r \<and> vouched sha g key r" using ok by (auto simp: flightOK_def cacheVouched_def)
    then show "irActive r" "\<exists>t0 t. (t0, t, r) \<in> set (fgTold g) \<and> sha t0 = key" by (auto simp: vouched_def)
  next
    fix i j a b c d
    assume ij: "i < length ts" "j < length ts" "i \<noteq> j" "ts ! i = (a, Asking c)" "ts ! j = (b, Asking d)"
    have "phaseOK sha g (a, Asking c)" "phaseOK sha g (b, Asking d)" using ph ij by (metis nth_mem)+
    moreover have "c \<noteq> d" using others_own_not[of g ts i j c] ok ij by (auto simp: flightOK_def)
    ultimately show "sha a \<noteq> sha b" by auto
  }
qed

text \<open>One request: the endpoint is asked and says that the token is active.\<close>

definition demoResponse :: introspectResponse where
  "demoResponse = \<lparr>irActive = True, irSubject = [], irScope = [], irClientID = [], irUsername = [], irTokenType = [],
     irExpiresAt = None, irIssuedAt = None, irNotBefore = None, irIssuer = [], irAudience = []\<rparr>"

definition demoEndpoint :: endpointPrims where
  "demoEndpoint = \<lparr>urlParse = (\<lambda>s. Inr \<lparr>euScheme = ''https'', euUser = None, euHost = ''idp'', euRest = ''/''\<rparr>),
     urlString = (\<lambda>u. ''https://idp/'')\<rparr>"

definition demoOAuth2 :: oauth2Options where
  "demoOAuth2 = \<lparr>ooEndpoint = ''https://idp/'', ooAllowInsecureEndpoint = False, ooClientID = [], ooClientSecret = [],
     ooCacheTTL = 0, ooMaxCacheSize = 0, ooExtractFn = None\<rparr>"

definition demoSetup :: oauth2Setup where
  "demoSetup = (case oauth2Construct demoEndpoint demoOAuth2 of Inr conf \<Rightarrow> conf
     | Inl _ \<Rightarrow> \<lparr>osTTL = 0, osMaxSize = 0, osExtract = extractBearerToken, osCache = None, osLog = []\<rparr>)"

lemma demoSetup_built:
  "oauth2Construct demoEndpoint demoOAuth2 = Inr demoSetup" "osTTL demoSetup = 60 * second"
  by (simp_all add: demoSetup_def oauth2Construct_def demoEndpoint_def demoOAuth2_def Let_def second_def)

definition leaderRun :: "nat \<Rightarrow> flightMove list" where
  "leaderRun i = map (StepOf i) [Proceed, Proceed, Proceed, Reply (Inr demoResponse), Proceed, Proceed, Proceed, Proceed]"

definition afterRun :: "flightMove list \<Rightarrow> flightWorld \<times> (string \<times> flightPhase) list" where
  "afterRun ms = the (runFlight id (osTTL demoSetup) ms (newFlightWorld demoSetup 0, []))"

lemma afterRun_flying:
  assumes "runFlight id (osTTL demoSetup) ms (newFlightWorld demoSetup 0, []) \<noteq> None"
  shows "flying id demoSetup (fst (afterRun ms)) (snd (afterRun ms))"
  using runFlight_flying[OF flying.built[OF demoSetup_built(1)], of id ms 0] assms
  by (auto simp: afterRun_def)

text \<open>The cache with the one entry of these runs, and the steps over it.\<close>

definition oneEntry :: "int \<Rightarrow> oauth2Cache" where
  "oneEntry e = \<lparr>ocStore = [\<lparr>oeKey = ''t'', oeResp = demoResponse, oeExpiry = e, oeIdx = Some 0\<rparr>],
     ocEntries = [''t'' \<mapsto> 0], ocHeap = [0], ocMaxSize = 10000\<rparr>"

lemma oneEntry_first: "cacheSet ''t'' demoResponse e (newOAuth2Cache 10000) = oneEntry e"
  by (simp add: cacheSet_def insertEntry_def newOAuth2Cache_def heapPush_def heapPushBack_def setIdx_def Let_def
      heapUp.simps oneEntry_def)

lemma oneEntry_again: "cacheSet ''t'' demoResponse e (oneEntry d) = oneEntry e"
  by (simp add: cacheSet_def oneEntry_def heapFix_def Let_def heapUp.simps heapDown.simps)

lemma oneEntry_get: "cacheGet now ''t'' (oneEntry e) = (if now > e then None else Some demoResponse)"
  by (simp add: cacheGet_def oneEntry_def)

lemma emptyCache_get: "cacheGet now key (newOAuth2Cache n) = None"
  by (simp add: cacheGet_def newOAuth2Cache_def)

lemma demoConf: "osTTL demoSetup = 60 * second" "osCache demoSetup = Some (newOAuth2Cache 10000)"
  by (simp_all add: demoSetup_def oauth2Construct_def demoEndpoint_def demoOAuth2_def Let_def second_def)

lemma demoResponse_sel: "irActive demoResponse" "irExpiresAt demoResponse = None"
  by (simp_all add: demoResponse_def)

lemmas runSimps = runFlight.simps enterFlight_def storeResult_def closeDone_def hearAnswer_def afterDo_def
  afterLookup_def cacheLookup_def cacheStore_def tokenExpiry_def newFlightWorld_def Let_def
  oneEntry_first oneEntry_again oneEntry_get emptyCache_get demoConf demoResponse_sel

lemma leader_runs:
  "runFlight id (osTTL demoSetup) (ArriveWith ''t'' # leaderRun 0) (newFlightWorld demoSetup 0, [])
   = Some (\<lparr>fgNow = 0, fgCache = Some (oneEntry (timeAdd 0 (60 * second))),
       fgCalls = Map.empty, fgStore = [\<lparr>fcResult = Some (Inr demoResponse), fcClosed = True\<rparr>],
       fgTold = [(''t'', 0, demoResponse)]\<rparr>, [(''t'', Admitted demoResponse)])"
  by (simp add: leaderRun_def runSimps)

theorem introspection_admits_vouched_witness:
  "snd (afterRun (ArriveWith ''t'' # leaderRun 0)) = [(''t'', Admitted demoResponse)]
   \<and> (\<exists>t0 t. (t0, t, demoResponse) \<in> set (fgTold (fst (afterRun (ArriveWith ''t'' # leaderRun 0)))) \<and> id t0 = ''t'')"
proof -
  let ?g = "afterRun (ArriveWith ''t'' # leaderRun 0)"
  have run: "snd ?g = [(''t'', Admitted demoResponse)]" by (simp add: afterRun_def leader_runs del: runFlight.simps)
  have "flying id demoSetup (fst ?g) (snd ?g)" by (rule afterRun_flying) (simp add: leader_runs del: runFlight.simps)
  from introspection_admits_vouched[OF this, of "''t''" demoResponse] run
  have "\<exists>t0 t. (t0, t, demoResponse) \<in> set (fgTold (fst ?g)) \<and> id t0 = ''t''" by auto
  then show ?thesis using run by blast
qed

text \<open>
  The age of an answer is not bounded by the TTL: a request that misses the cache and becomes the
  leader after another one has stored the answer finds it at the second look, and stores it again as
  if it were new. Here an answer that is 118 seconds old is served, with a TTL of 60 seconds.
\<close>

definition staleRun :: "flightMove list" where
  "staleRun = [ArriveWith ''t'', StepOf 0 Proceed, ArriveWith ''t''] @ leaderRun 1 @ [TickBy (59 * second)]
     @ replicate 6 (StepOf 0 Proceed) @ [TickBy (59 * second), ArriveWith ''t'', StepOf 2 Proceed]"

lemma stale_answer_served:
  "\<exists>g ts. runFlight id (osTTL demoSetup) staleRun (newFlightWorld demoSetup 0, []) = Some (g, ts)
     \<and> fgNow g = 118 * second \<and> fgTold g = [(''t'', 0, demoResponse)] \<and> ts ! 2 = (''t'', Admitted demoResponse)"
proof -
  have add: "timeAdd 0 (60 * second) = 60 * second" "timeAdd (59 * second) (60 * second) = 119 * second"
    using timeAdd_same[of 0 "60 * second"] timeAdd_same[of "59 * second" "60 * second"] by (simp_all add: second_def)
  show ?thesis
    by (simp add: staleRun_def leaderRun_def numeral_nat runSimps add[unfolded second_def, simplified] second_def)
qed

text \<open>
  C34. Requests settle. Unless a client panicked, a system in which some request is not at its end can
  take a step, be it the answer of the client, so followers never wait for ever; and every step brings its own request nearer to its end,
  by a rank of at most 9, so after at most nine steps of each request there is none left.
\<close>

theorem introspection_settles:
  assumes "flying sha conf g ts" and "\<forall>x\<in>set ts. \<forall>c. snd x \<noteq> Crashed c"
  shows "((\<exists>x\<in>set ts. flightRank (snd x) > 0) \<longrightarrow>
      (\<exists>i<length ts. \<exists>e. e \<noteq> Fail \<and> e \<noteq> Cancel
         \<and> flightStep sha (osTTL conf) (fst (ts ! i)) e g (snd (ts ! i)) \<noteq> None))
    \<and> (\<forall>token e ph g' ph'. flightStep sha (osTTL conf) token e g ph = Some (g', ph') \<longrightarrow>
         flightRank ph' < flightRank ph \<and> flightRank ph \<le> 9)"
proof -
  have "flightRank ph \<le> 9" for ph by (cases ph) simp_all
  then show ?thesis
    using flight_progress[OF conjunct1[OF flying_OK[OF assms(1)]]] assms(2) flightStep_rank by blast
qed

text \<open>A follower joins while the leader asks; the leader can go on.\<close>

theorem introspection_settles_witness:
  "\<exists>g ts. flying id demoSetup g ts \<and> map snd ts = [Asking 0, Following 0]
     \<and> (\<exists>i<2. \<exists>e. e \<noteq> Fail \<and> flightStep id (60 * second) (fst (ts ! i)) e g (snd (ts ! i)) \<noteq> None)"
proof -
  let ?ms = "[ArriveWith ''t'', ArriveWith ''t'', StepOf 0 Proceed, StepOf 0 Proceed, StepOf 0 Proceed,
    StepOf 1 Proceed, StepOf 1 Proceed]"
  let ?g = "fst (afterRun ?ms)" and ?ts = "snd (afterRun ?ms)"
  have fl: "flying id demoSetup ?g ?ts" by (rule afterRun_flying) (simp add: runSimps)
  have ph: "?ts = [(''t'', Asking 0), (''t'', Following 0)]" by (simp add: afterRun_def runSimps)
  then have "\<exists>i<length ?ts. \<exists>e. e \<noteq> Fail \<and> e \<noteq> Cancel
      \<and> flightStep id (osTTL demoSetup) (fst (?ts ! i)) e ?g (snd (?ts ! i)) \<noteq> None"
    using introspection_settles[OF fl] by simp
  then have "\<exists>i<2. \<exists>e. e \<noteq> Fail \<and> flightStep id (60 * second) (fst (?ts ! i)) e ?g (snd (?ts ! i)) \<noteq> None"
    using ph by (fastforce simp: demoConf numeral_2_eq_2)
  then show ?thesis using fl ph by (intro exI[of _ ?g] exI[of _ ?ts]) simp
qed

text \<open>
  The exception is real: after a panic in the client the call stays in the map and is never closed,
  so every later request for the token that misses the cache waits until its own context ends.
\<close>

lemma panicking_leader_blocks:
  assumes "flying sha conf g ts" and "(token, Crashed c) \<in> set ts" and "sha token' = sha token"
  shows "flightStep sha ttl token' Proceed g Entering = Some (g, Following c)"
    and "flightStep sha ttl token' Proceed g (Following c) = None"
proof -
  have "phaseOK sha g (token, Crashed c)" using flying_OK[OF assms(1)] assms(2) by (auto simp: flightOK_def)
  then show "flightStep sha ttl token' Proceed g Entering = Some (g, Following c)"
    and "flightStep sha ttl token' Proceed g (Following c) = None"
    using assms(3) by (simp_all add: enterFlight_def)
qed

end
