(* ===== verification/ResponseWriters.thy ===== *)
theory ResponseWriters
  imports MiddlewareBase
begin

text \<open>
  The middleware that wraps the response writer: \<open>Compress\<close> (middleware/compress.go),
  \<open>RecovererWithLogger\<close> (middleware/recoverer.go) and the status recorder of \<open>Logger\<close>
  (middleware/logger.go). A response writer is a record of the methods a handler may call, over any
  state, so that wrappers nest; what a handler does with its writer is the list of its calls.
\<close>

section \<open>Response writers\<close>

record 's writerOps =
  opHeader :: "'s \<Rightarrow> headers"
  opSetHeader :: "headers \<Rightarrow> 's \<Rightarrow> 's"
  opWriteHeader :: "nat \<Rightarrow> 's \<Rightarrow> 's"
  opWrite :: "string \<Rightarrow> 's \<Rightarrow> 's"
  opFlush :: "'s \<Rightarrow> 's"

text \<open>
  The writer of net/http: an informational status is sent on its own and is not the status of the
  response; \<open>Flush\<close> sends a pending header.
\<close>

definition informational :: "nat \<Rightarrow> bool" where
  "informational code \<longleftrightarrow> 100 \<le> code \<and> code \<le> 199 \<and> code \<noteq> 101"

definition netOps :: "'w rw writerOps" where
  "netOps =
     \<lparr>opHeader = wHeader, opSetHeader = (\<lambda>h w. w\<lparr>wHeader := h\<rparr>),
      opWriteHeader = (\<lambda>code w. if informational code then w else writeHeader code w),
      opWrite = writeBody, opFlush = writeHeader 200\<rparr>"

datatype respCall =
    SetHeaderTo string "string list"
  | DelHeaderOf string
  | CallWriteHeader nat
  | CallWrite string
  | CallFlush

fun doCall :: "'s writerOps \<Rightarrow> respCall \<Rightarrow> 's \<Rightarrow> 's" where
  "doCall ops (SetHeaderTo k v) s = opSetHeader ops ((opHeader ops s)(k \<mapsto> v)) s"
| "doCall ops (DelHeaderOf k) s = opSetHeader ops ((opHeader ops s)(k := None)) s"
| "doCall ops (CallWriteHeader code) s = opWriteHeader ops code s"
| "doCall ops (CallWrite b) s = opWrite ops b s"
| "doCall ops CallFlush s = opFlush ops s"

definition runCalls :: "'s writerOps \<Rightarrow> respCall list \<Rightarrow> 's \<Rightarrow> 's" where
  "runCalls ops cs s = fold (doCall ops) cs s"

text \<open>What a handler does: its calls, and the panic that ended it, if any.\<close>

type_synonym script = "respCall list \<times> goPanic option"

text \<open>\<open>http.Error\<close> as calls; when the handler returns, net/http sends a pending status 200.\<close>

definition errorCalls :: "string \<Rightarrow> nat \<Rightarrow> respCall list" where
  "errorCalls msg code =
     [DelHeaderOf ''Content-Length'', SetHeaderTo ''Content-Type'' [''text/plain; charset=utf-8''],
      SetHeaderTo ''X-Content-Type-Options'' [''nosniff''], CallWriteHeader code, CallWrite (msg @ newline)]"

definition finishRequest :: "'w rw \<Rightarrow> 'w rw" where
  "finishRequest w = writeHeader 200 w"

section \<open>Compress\<close>

definition minCompressSize :: nat where
  "minCompressSize = 1024"

definition sniffBufSize :: nat where
  "sniffBufSize = 8192"

text \<open>
  The compressor of compress/gzip: a new stream, and what \<open>Write\<close>, \<open>Flush\<close> and \<open>Close\<close> send on to the
  writer beneath. Writes beneath do not fail and that writer can be flushed.
\<close>

record 'z gzipCodec =
  gzReset :: 'z
  gzWrite :: "string \<Rightarrow> 'z \<Rightarrow> 'z \<times> string"
  gzFlush :: "'z \<Rightarrow> 'z \<times> string"
  gzClose :: "'z \<Rightarrow> string"

record ('s, 'z) gzipResponseWriter =
  grInner :: 's
  grGz :: "'z option"
  grBuf :: string
  grStatus :: nat
  grDecided :: bool
  grSkip :: bool
  grWroteHeader :: bool

definition newGzipWriter :: "'s \<Rightarrow> ('s, 'z) gzipResponseWriter" where
  "newGzipWriter s =
     \<lparr>grInner = s, grGz = None, grBuf = [], grStatus = 0, grDecided = False, grSkip = False, grWroteHeader = False\<rparr>"

definition lowerString :: "string \<Rightarrow> string" where
  "lowerString s = map lowerByte s"

definition compressedTypes :: "string list" where
  "compressedTypes =
     [''image/jpeg'', ''image/png'', ''image/gif'', ''image/webp'', ''image/avif'',
      ''image/heic'', ''image/heif'',
      ''video/mp4'', ''video/webm'', ''video/ogg'', ''video/quicktime'',
      ''audio/mpeg'', ''audio/ogg'', ''audio/aac'', ''audio/flac'', ''audio/webm'',
      ''application/zip'', ''application/x-gzip'', ''application/gzip'',
      ''application/x-bzip2'', ''application/x-xz'', ''application/zstd'',
      ''application/x-7z-compressed'', ''application/x-rar-compressed'',
      ''application/pdf'',
      ''font/woff'', ''font/woff2'']"

text \<open>\<open>strings.ToLower\<close> is bytewise here: no letter outside ASCII becomes one of these names' letters but
  the Kelvin sign, and none of the names has a k.\<close>

definition isAlreadyCompressedMIME :: "string \<Rightarrow> bool" where
  "isAlreadyCompressedMIME ct =
     (if ct = [] then False
      else let ct1 = (case indexByte ct (CHR '';'') of Some i \<Rightarrow> take i ct | None \<Rightarrow> ct)
        in trimSpace (lowerString ct1) \<in> set compressedTypes)"

definition headerAddTo :: "string \<Rightarrow> string \<Rightarrow> headers \<Rightarrow> headers" where
  "headerAddTo k v h = h(k \<mapsto> (case h k of None \<Rightarrow> [] | Some vs \<Rightarrow> vs) @ [v])"

text \<open>The status that was recorded goes to the writer beneath; 0 is none.\<close>

definition forwardStatus :: "'s writerOps \<Rightarrow> nat \<Rightarrow> 's \<Rightarrow> 's" where
  "forwardStatus ops st s = (if st \<noteq> 0 then opWriteHeader ops st s else s)"

definition commit :: "'z gzipCodec \<Rightarrow> 's writerOps \<Rightarrow> ('s, 'z) gzipResponseWriter \<Rightarrow> ('s, 'z) gzipResponseWriter" where
  "commit gz ops g =
     (let s1 = opSetHeader ops (headerAddTo ''Vary'' ''Accept-Encoding'' (opHeader ops (grInner g))) (grInner g);
          hdr = opHeader ops s1;
          g1 = g\<lparr>grDecided := True, grInner := s1\<rparr>
      in if isAlreadyCompressedMIME (headerGet hdr ''Content-Type'') \<or> headerGet hdr ''Content-Encoding'' \<noteq> []
            \<or> length (grBuf g) < minCompressSize
         then g1\<lparr>grSkip := True, grInner := opWrite ops (grBuf g) (forwardStatus ops (grStatus g) s1), grBuf := []\<rparr>
         else
           let s2 = opSetHeader ops (hdr(''Content-Encoding'' \<mapsto> [''gzip''], ''Content-Length'' := None)) s1;
               s3 = forwardStatus ops (grStatus g) s2;
               (z, out) = gzWrite gz (grBuf g) (gzReset gz)
           in g1\<lparr>grGz := Some z, grInner := opWrite ops out s3, grBuf := []\<rparr>)"

definition gzipWriteHeader :: "nat \<Rightarrow> ('s, 'z) gzipResponseWriter \<Rightarrow> ('s, 'z) gzipResponseWriter" where
  "gzipWriteHeader code g =
     (if informational code then g
      else if grWroteHeader g then g
      else g\<lparr>grWroteHeader := True, grStatus := code\<rparr>)"

text \<open>Writing once the decision is made.\<close>

definition passOn :: "'z gzipCodec \<Rightarrow> 's writerOps \<Rightarrow> string \<Rightarrow> ('s, 'z) gzipResponseWriter \<Rightarrow> ('s, 'z) gzipResponseWriter" where
  "passOn gz ops b g =
     (if grSkip g then g\<lparr>grInner := opWrite ops b (grInner g)\<rparr>
      else case grGz g of
        None \<Rightarrow> g
      | Some z \<Rightarrow>
          let (z1, out) = gzWrite gz b z in g\<lparr>grGz := Some z1, grInner := opWrite ops out (grInner g)\<rparr>)"

definition gzipWrite :: "'z gzipCodec \<Rightarrow> 's writerOps \<Rightarrow> string \<Rightarrow> ('s, 'z) gzipResponseWriter \<Rightarrow> ('s, 'z) gzipResponseWriter" where
  "gzipWrite gz ops b g =
     (let g1 = (if grWroteHeader g then g else g\<lparr>grWroteHeader := True, grStatus := 200\<rparr>) in
      if grDecided g1 then passOn gz ops b g1
      else let room = sniffBufSize - length (grBuf g1) in
        if length b \<le> room then g1\<lparr>grBuf := grBuf g1 @ b\<rparr>
        else passOn gz ops (drop room b) (commit gz ops (g1\<lparr>grBuf := grBuf g1 @ take room b\<rparr>)))"

definition gzipFlush :: "'z gzipCodec \<Rightarrow> 's writerOps \<Rightarrow> ('s, 'z) gzipResponseWriter \<Rightarrow> ('s, 'z) gzipResponseWriter" where
  "gzipFlush gz ops g =
     (let g1 = (if grDecided g then g else commit gz ops g);
          g2 = (case grGz g1 of
                  Some z \<Rightarrow>
                    if grSkip g1 then g1
                    else let (z1, out) = gzFlush gz z in g1\<lparr>grGz := Some z1, grInner := opWrite ops out (grInner g1)\<rparr>
                | None \<Rightarrow> g1)
      in g2\<lparr>grInner := opFlush ops (grInner g2)\<rparr>)"

definition gzipClose :: "'z gzipCodec \<Rightarrow> 's writerOps \<Rightarrow> ('s, 'z) gzipResponseWriter \<Rightarrow> ('s, 'z) gzipResponseWriter" where
  "gzipClose gz ops g =
     (let g1 = (if grDecided g then g else commit gz ops g)
      in case grGz g1 of
           Some z \<Rightarrow>
             if grSkip g1 then g1
             else g1\<lparr>grGz := None, grInner := opWrite ops (gzClose gz z) (grInner g1)\<rparr>
         | None \<Rightarrow> g1)"

definition gzipOps :: "'z gzipCodec \<Rightarrow> 's writerOps \<Rightarrow> ('s, 'z) gzipResponseWriter writerOps" where
  "gzipOps gz ops =
     \<lparr>opHeader = (\<lambda>g. opHeader ops (grInner g)),
      opSetHeader = (\<lambda>h g. g\<lparr>grInner := opSetHeader ops h (grInner g)\<rparr>),
      opWriteHeader = gzipWriteHeader, opWrite = gzipWrite gz ops, opFlush = gzipFlush gz ops\<rparr>"

text \<open>\<open>strings.Contains\<close>.\<close>

definition contains :: "string \<Rightarrow> string \<Rightarrow> bool" where
  "contains s p \<longleftrightarrow> strIndex s p \<noteq> None"

text \<open>
  One request over the writer \<open>s\<close>: the deferred \<open>close\<close> runs whether the handler returns or panics. The
  pool hands out a zeroed wrapper, old or new. gzip levels from -2 to 9 are valid.
\<close>

definition compressServe :: "'z gzipCodec \<Rightarrow> 's writerOps \<Rightarrow> request \<Rightarrow> script \<Rightarrow> 's \<Rightarrow> 's \<times> goPanic option" where
  "compressServe gz ops r sc s =
     (if \<not> contains (headerGet (rHeader r) ''Accept-Encoding'') ''gzip'' then (runCalls ops (fst sc) s, snd sc)
      else (grInner (gzipClose gz ops (runCalls (gzipOps gz ops) (fst sc) (newGzipWriter s))), snd sc))"

definition compressLevel :: "int \<Rightarrow> goPanic option" where
  "compressLevel level =
     (if - 2 \<le> level \<and> level \<le> 9 then None
      else Some (BadConfig (''middleware: invalid gzip level: gzip: invalid compression level: '' @ decimalInt level)))"

section \<open>Recoverer\<close>

record 's recovererWriter =
  rcInner :: 's
  rcStarted :: bool

definition recovererOps :: "'s writerOps \<Rightarrow> 's recovererWriter writerOps" where
  "recovererOps ops =
     \<lparr>opHeader = (\<lambda>w. opHeader ops (rcInner w)),
      opSetHeader = (\<lambda>h w. w\<lparr>rcInner := opSetHeader ops h (rcInner w)\<rparr>),
      opWriteHeader = (\<lambda>code w. \<lparr>rcInner = opWriteHeader ops code (rcInner w),
                                 rcStarted = (rcStarted w \<or> \<not> informational code)\<rparr>),
      opWrite = (\<lambda>b w. \<lparr>rcInner = opWrite ops b (rcInner w), rcStarted = True\<rparr>),
      opFlush = (\<lambda>w. \<lparr>rcInner = opFlush ops (rcInner w), rcStarted = True\<rparr>)\<rparr>"

text \<open>
  \<open>inner\<close> is the rest of the chain on the wrapped writer, with the panic it ends in; the log entries
  are the panic and the sanitised method and path.
\<close>

definition sanitiseForLog :: "string \<Rightarrow> string" where
  "sanitiseForLog s = (let q = quoteToASCII s in drop 1 (take (length q - 1) q))"

type_synonym panicLog = "goPanic \<times> string \<times> string"

definition recovererServe :: "'s writerOps \<Rightarrow> request \<Rightarrow> ('s recovererWriter \<Rightarrow> 's recovererWriter \<times> goPanic option) \<Rightarrow>
    's \<Rightarrow> 's \<times> panicLog list" where
  "recovererServe ops r inner s =
     (case inner \<lparr>rcInner = s, rcStarted = False\<rparr> of
        (sw, None) \<Rightarrow> (rcInner sw, [])
      | (sw, Some rcv) \<Rightarrow>
          (rcInner (if rcStarted sw then sw else runCalls (recovererOps ops) (errorCalls (statusText 500) 500) sw),
           [(rcv, sanitiseForLog (rMethod r), sanitiseForLog (uPath (rURL r)))]))"

section \<open>The status recorder\<close>

record 's statusRecorder =
  srInner :: 's
  srStatus :: nat
  srWroteHeader :: bool

definition recorderOps :: "'s writerOps \<Rightarrow> 's statusRecorder writerOps" where
  "recorderOps ops =
     \<lparr>opHeader = (\<lambda>w. opHeader ops (srInner w)),
      opSetHeader = (\<lambda>h w. w\<lparr>srInner := opSetHeader ops h (srInner w)\<rparr>),
      opWriteHeader = (\<lambda>code w.
        let w1 = (if \<not> srWroteHeader w \<and> \<not> informational code
                  then w\<lparr>srWroteHeader := True, srStatus := code\<rparr> else w)
        in w1\<lparr>srInner := opWriteHeader ops code (srInner w1)\<rparr>),
      opWrite = (\<lambda>b w. w\<lparr>srInner := opWrite ops b (srInner w)\<rparr>),
      opFlush = (\<lambda>w. w\<lparr>srInner := opFlush ops (srInner w)\<rparr>)\<rparr>"

definition newStatusRecorder :: "'s \<Rightarrow> 's statusRecorder" where
  "newStatusRecorder s = \<lparr>srInner = s, srStatus = 200, srWroteHeader = False\<rparr>"

text \<open>
  \<open>ReadFrom\<close> copies the parts that the source yields to the writer beneath, by its own \<open>ReadFrom\<close> or by
  \<open>io.Copy\<close> to its \<open>Write\<close>; like \<open>Write\<close> it records no status.
\<close>

definition recorderReadFrom :: "'s writerOps \<Rightarrow> string list \<Rightarrow> 's statusRecorder \<Rightarrow> 's statusRecorder" where
  "recorderReadFrom ops parts w = w\<lparr>srInner := fold (opWrite ops) parts (srInner w)\<rparr>"

lemma recorderReadFrom_writes: "recorderReadFrom ops parts w = fold (opWrite (recorderOps ops)) parts w"
proof (induction parts arbitrary: w)
  case (Cons b parts)
  show ?case using Cons.IH[of "w\<lparr>srInner := opWrite ops b (srInner w)\<rparr>"]
    by (simp add: recorderReadFrom_def recorderOps_def)
qed (simp add: recorderReadFrom_def)

end
