(* ===== verification/CompressSafe.thy ===== *)
theory CompressSafe
  imports ResponseWriters
begin

text \<open>
  \<open>Compress\<close> and the recorders do not change what the client gets: the simulation between a handler's
  calls on the writer of net/http and the same calls through the wrapper.
\<close>

section \<open>Wrapped writers\<close>

text \<open>
  The contract of a wrapper around a response writer: each call that a handler may make keeps a
  relation between the wrapper and what the writer would be without it; then so do all calls.
\<close>

locale call_simulation =
  fixes outer :: "'s writerOps" and inner :: "'t writerOps"
    and rel :: "'s \<Rightarrow> 't \<Rightarrow> bool" and may :: "respCall \<Rightarrow> bool"
  assumes call: "rel s t \<Longrightarrow> may c \<Longrightarrow> rel (doCall outer c s) (doCall inner c t)"
begin

lemma run: "rel s t \<Longrightarrow> \<forall>c\<in>set cs. may c \<Longrightarrow> rel (runCalls outer cs s) (runCalls inner cs t)"
  unfolding runCalls_def by (induction cs arbitrary: s t) (auto intro: call)

end

section \<open>The compressor\<close>

text \<open>What has gone in and come out of a gzip stream.\<close>

inductive streams :: "'z gzipCodec \<Rightarrow> 'z \<Rightarrow> string \<Rightarrow> string \<Rightarrow> bool" for gz where
  fresh: "streams gz (gzReset gz) [] []"
| written: "streams gz z i u \<Longrightarrow> gzWrite gz b z = (z', out) \<Longrightarrow> streams gz z' (i @ b) (u @ out)"
| flushed: "streams gz z i u \<Longrightarrow> gzFlush gz z = (z', out) \<Longrightarrow> streams gz z' i (u @ out)"

text \<open>The documented behaviour of a gzip stream: decompressing a closed one gives what went in.\<close>

definition decodes :: "'z gzipCodec \<Rightarrow> (string \<Rightarrow> string option) \<Rightarrow> bool" where
  "decodes gz gunzip \<longleftrightarrow> (\<forall>z i u. streams gz z i u \<longrightarrow> gunzip (u @ gzClose gz z) = Some i)"

section \<open>The simulation\<close>

definition statusOf :: "'w rw \<Rightarrow> nat option" where
  "statusOf w = map_option fst (wSent w)"

definition sentHeader :: "'w rw \<Rightarrow> headers" where
  "sentHeader w = (case wSent w of Some (code, h) \<Rightarrow> h | None \<Rightarrow> wHeader w)"

definition contentEncoding :: string where
  "contentEncoding = ''Content-Encoding''"

text \<open>\<open>g\<close> is the wrapper and \<open>p\<close> the plain response after the same calls.\<close>

definition simulates :: "'z gzipCodec \<Rightarrow> ('w rw, 'z) gzipResponseWriter \<Rightarrow> 'w rw \<Rightarrow> bool" where
  "simulates gz g p \<longleftrightarrow>
     (if \<not> grDecided g then
        wSent (grInner g) = None \<and> wBody (grInner g) = [] \<and> wHeader (grInner g) contentEncoding = None
        \<and> grGz g = None \<and> \<not> grSkip g \<and> grBuf g = wBody p \<and> length (grBuf g) \<le> sniffBufSize
        \<and> statusOf p = (if grWroteHeader g then Some (grStatus g) else None)
        \<and> (grWroteHeader g \<longrightarrow> grStatus g \<noteq> 0 \<and> \<not> informational (grStatus g))
        \<and> (\<not> grWroteHeader g \<longrightarrow> grStatus g = 0 \<and> grBuf g = [])
      else
        statusOf (grInner g) = statusOf p \<and> statusOf p \<noteq> None \<and> grBuf g = []
        \<and> (if grSkip g then grGz g = None \<and> wBody (grInner g) = wBody p \<and> sentHeader (grInner g) contentEncoding = None
           else (\<exists>z. grGz g = Some z \<and> streams gz z (wBody p) (wBody (grInner g))
                   \<and> sentHeader (grInner g) contentEncoding = Some [''gzip''])))"

lemma canonical_encoding: "canonicalHeaderKey ''Content-Encoding'' = contentEncoding"
  by code_simp

lemma statusOf_writeHeader: "statusOf (writeHeader c w) = (case statusOf w of None \<Rightarrow> Some c | Some d \<Rightarrow> Some d)"
  by (auto simp: statusOf_def writeHeader_def split: option.splits)

lemma statusOf_writeBody: "statusOf (writeBody b w) = statusOf (writeHeader 200 w)"
  by (simp add: writeBody_def statusOf_def Let_def)

lemma writeHeader_keeps [simp]:
  "wBody (writeHeader c w) = wBody w" "wHeader (writeHeader c w) = wHeader w"
  "sentHeader (writeHeader c w) = sentHeader w"
  by (auto simp: writeHeader_def sentHeader_def split: option.splits)

lemma writeBody_keeps [simp]:
  "wBody (writeBody b w) = wBody w @ b" "wHeader (writeBody b w) = wHeader w"
  "sentHeader (writeBody b w) = sentHeader w"
  by (auto simp: writeBody_def sentHeader_def writeHeader_def Let_def split: option.splits)

lemma netOps_sel [simp]:
  "opHeader netOps = wHeader" "opSetHeader netOps h w = w\<lparr>wHeader := h\<rparr>"
  "opWriteHeader netOps c w = (if informational c then w else writeHeader c w)"
  "opWrite netOps = writeBody" "opFlush netOps = writeHeader 200"
  by (simp_all add: netOps_def)

lemma setHeader_keeps [simp]:
  "wSent w = None \<Longrightarrow> sentHeader (w\<lparr>wHeader := h\<rparr>) = h" "statusOf (w\<lparr>wHeader := h\<rparr>) = statusOf w"
  "statusOf w \<noteq> None \<Longrightarrow> sentHeader (w\<lparr>wHeader := h\<rparr>) = sentHeader w"
  by (auto simp: sentHeader_def statusOf_def)

text \<open>The decision, when \<open>p\<close> has its status or the wrapper none.\<close>

lemma commit_simulates:
  fixes g :: "('w rw, 'z) gzipResponseWriter"
  assumes sim: "simulates gz g p" and und: "\<not> grDecided g"
    and st: "statusOf p' = Some (if grWroteHeader g then grStatus g else 200)" and body: "wBody p' = wBody p"
  shows "simulates gz (commit gz netOps g) p'" and "grDecided (commit gz netOps g)"
proof -
  from sim und have I: "wSent (grInner g) = None" "wBody (grInner g) = []" "wHeader (grInner g) contentEncoding = None"
      "grGz g = None" "\<not> grSkip g" "grBuf g = wBody p" "grWroteHeader g \<longrightarrow> grStatus g \<noteq> 0 \<and> \<not> informational (grStatus g)"
      "\<not> grWroteHeader g \<longrightarrow> grStatus g = 0 \<and> grBuf g = []"
    by (auto simp: simulates_def)
  let ?s1 = "(grInner g)\<lparr>wHeader := headerAddTo ''Vary'' ''Accept-Encoding'' (wHeader (grInner g))\<rparr>"
  have ce: "wHeader ?s1 contentEncoding = None" using I(3) by (simp add: headerAddTo_def contentEncoding_def)
  then have get: "headerGet (wHeader ?s1) ''Content-Encoding'' = []" by (simp add: headerGet_def canonical_encoding)
  have fw: "statusOf (forwardStatus netOps (grStatus g) s) = (if grWroteHeader g then Some (grStatus g) else None)"
    "wBody (forwardStatus netOps (grStatus g) s) = wBody s"
    "sentHeader (forwardStatus netOps (grStatus g) s) = wHeader s" if "wSent s = None" for s :: "'w rw"
  proof -
    have "statusOf s = None" "sentHeader s = wHeader s" using that by (simp_all add: statusOf_def sentHeader_def)
    then show "statusOf (forwardStatus netOps (grStatus g) s) = (if grWroteHeader g then Some (grStatus g) else None)"
      "wBody (forwardStatus netOps (grStatus g) s) = wBody s"
      "sentHeader (forwardStatus netOps (grStatus g) s) = wHeader s"
      using I(7,8) by (auto simp: forwardStatus_def statusOf_writeHeader)
  qed
  have n1: "wSent ?s1 = None" using I(1) by simp
  have m: "minCompressSize > 0" by (simp add: minCompressSize_def)
  show "simulates gz (commit gz netOps g) p'"
  proof (cases "isAlreadyCompressedMIME (headerGet (wHeader ?s1) ''Content-Type'') \<or> length (grBuf g) < minCompressSize")
    case True
    then have "commit gz netOps g = g\<lparr>grDecided := True, grSkip := True,
        grInner := writeBody (grBuf g) (forwardStatus netOps (grStatus g) ?s1), grBuf := []\<rparr>"
      using get by (auto simp: commit_def Let_def)
    then show ?thesis
      using I(2,4,6) st body ce fw[OF n1] by (auto simp: simulates_def statusOf_writeBody statusOf_writeHeader)
  next
    case False
    then have w: "grWroteHeader g" using I(8) m by auto
    let ?s2 = "?s1\<lparr>wHeader := (wHeader ?s1)(''Content-Encoding'' \<mapsto> [''gzip''], ''Content-Length'' := None)\<rparr>"
    have n2: "wSent ?s2 = None" using I(1) by simp
    have g2: "wHeader ?s2 contentEncoding = Some [''gzip'']" by (simp add: contentEncoding_def)
    obtain z u where z: "gzWrite gz (grBuf g) (gzReset gz) = (z, u)" by fastforce
    have "commit gz netOps g = g\<lparr>grDecided := True, grGz := Some z,
        grInner := writeBody u (forwardStatus netOps (grStatus g) ?s2), grBuf := []\<rparr>"
      using False get z by (simp add: commit_def Let_def)
    moreover have "streams gz z (grBuf g) u" using streams.written[OF streams.fresh z] by simp
    ultimately show ?thesis
      using I(2,5,6) st body g2 fw[OF n2] w by (simp add: simulates_def statusOf_writeBody statusOf_writeHeader)
  qed
  show "grDecided (commit gz netOps g)" by (simp add: commit_def Let_def split: prod.splits)
qed

lemma writeBody_append: "writeBody b (writeBody a w) = writeBody (a @ b) w"
  by (auto simp: writeBody_def writeHeader_def Let_def split: option.splits)

lemma passOn_simulates:
  assumes "simulates gz g p" and "grDecided g"
  shows "simulates gz (passOn gz netOps b g) (writeBody b p)" and "grDecided (passOn gz netOps b g)"
  using assms streams.written
  by (auto simp: simulates_def passOn_def Let_def statusOf_writeBody statusOf_writeHeader
      split: option.splits prod.splits if_splits)

lemma write_simulates:
  assumes sim: "simulates gz g p"
  shows "simulates gz (gzipWrite gz netOps b g) (writeBody b p)"
proof -
  let ?g1 = "if grWroteHeader g then g else g\<lparr>grWroteHeader := True, grStatus := 200\<rparr>"
  show ?thesis
  proof (cases "grDecided g")
    case True
    then have "simulates gz ?g1 p" using sim by (auto simp: simulates_def)
    then show ?thesis using passOn_simulates(1)[of gz ?g1 p b] True by (simp add: gzipWrite_def Let_def)
  next
    case False
    have i200: "\<not> informational 200" by (simp add: informational_def)
    have grow: "simulates gz (?g1\<lparr>grBuf := grBuf g @ a\<rparr>) (writeBody a p)"
      if "length (grBuf g) + length a \<le> sniffBufSize" for a
      using sim False that i200 by (auto simp: simulates_def statusOf_writeBody statusOf_writeHeader)
    have buf: "grBuf ?g1 = grBuf g" and und: "\<not> grDecided ?g1" and wrote: "grWroteHeader ?g1" using False by simp_all
    let ?room = "sniffBufSize - length (grBuf g)"
    have le: "length (grBuf g) \<le> sniffBufSize" using sim False by (auto simp: simulates_def)
    show ?thesis
    proof (cases "length b \<le> ?room")
      case True
      then show ?thesis using grow[of b] le und buf by (simp add: gzipWrite_def Let_def)
    next
      case over: False
      let ?g2 = "?g1\<lparr>grBuf := grBuf g @ take ?room b\<rparr>" and ?p2 = "writeBody (take ?room b) p"
      have s2: "simulates gz ?g2 ?p2" using grow[of "take ?room b"] le over by simp
      have "statusOf ?p2 = Some (if grWroteHeader ?g2 then grStatus ?g2 else 200)"
        using s2 und wrote by (auto simp: simulates_def)
      moreover have "\<not> grDecided ?g2" using und by simp
      ultimately have c: "simulates gz (commit gz netOps ?g2) ?p2" "grDecided (commit gz netOps ?g2)"
        using commit_simulates[OF s2 _ _ refl] by blast+
      have "simulates gz (passOn gz netOps (drop ?room b) (commit gz netOps ?g2)) (writeBody (drop ?room b) ?p2)"
        by (rule passOn_simulates(1)[OF c])
      then show ?thesis using over und buf by (simp add: gzipWrite_def Let_def writeBody_append)
    qed
  qed
qed

lemma flush_simulates:
  assumes sim: "simulates gz g p"
  shows "simulates gz (gzipFlush gz netOps g) (writeHeader 200 p)"
proof -
  let ?g1 = "if grDecided g then g else commit gz netOps g"
  have "simulates gz ?g1 (writeHeader 200 p) \<and> grDecided ?g1"
  proof (cases "grDecided g")
    case True
    then show ?thesis using sim by (auto simp: simulates_def statusOf_writeHeader split: option.splits)
  next
    case False
    have "statusOf (writeHeader 200 p) = Some (if grWroteHeader g then grStatus g else 200)"
      using sim False by (auto simp: simulates_def statusOf_writeHeader)
    then show ?thesis using commit_simulates[OF sim False] False by simp
  qed
  then obtain h where h: "h = ?g1" and S: "simulates gz h (writeHeader 200 p)" and d: "grDecided h" by blast
  show ?thesis
  proof (cases "grSkip h")
    case True
    then have "grGz h = None" using S d by (simp add: simulates_def)
    then have "gzipFlush gz netOps g = h\<lparr>grInner := writeHeader 200 (grInner h)\<rparr>"
      by (simp add: gzipFlush_def h[symmetric])
    then show ?thesis using S d True by (auto simp: simulates_def statusOf_writeHeader)
  next
    case False
    then obtain z where z: "grGz h = Some z" "streams gz z (wBody p) (wBody (grInner h))"
      using S d by (auto simp: simulates_def)
    obtain z1 u where f: "gzFlush gz z = (z1, u)" by fastforce
    have "gzipFlush gz netOps g = h\<lparr>grGz := Some z1, grInner := writeHeader 200 (writeBody u (grInner h))\<rparr>"
      using z(1) f False by (simp add: gzipFlush_def h[symmetric])
    then show ?thesis using S d False z streams.flushed[OF z(2) f]
      by (auto simp: simulates_def statusOf_writeHeader statusOf_writeBody)
  qed
qed

fun callOK :: "respCall \<Rightarrow> bool" where
  "callOK (SetHeaderTo k v) = (k \<noteq> contentEncoding)"
| "callOK (DelHeaderOf k) = (k \<noteq> contentEncoding)"
| "callOK (CallWriteHeader code) = (code \<noteq> 0)"
| "callOK c = True"

lemma call_simulates:
  assumes sim: "simulates gz g p" and ok: "callOK c"
  shows "simulates gz (doCall (gzipOps gz netOps) c g) (doCall netOps c p)"
proof (cases c)
  case (CallWriteHeader code)
  then show ?thesis using sim ok
    by (auto simp: gzipOps_def gzipWriteHeader_def simulates_def statusOf_writeHeader split: option.splits)
next
  case (CallWrite b)
  then show ?thesis using write_simulates[OF sim] by (simp add: gzipOps_def)
next
  case CallFlush
  then show ?thesis using flush_simulates[OF sim] by (simp add: gzipOps_def)
qed (use sim ok in \<open>auto simp: gzipOps_def simulates_def\<close>)

interpretation gzip_sim: call_simulation "gzipOps gz netOps" netOps "simulates gz" callOK for gz
  by unfold_locales (rule call_simulates)

lemma calls_simulate:
  "simulates gz g p \<Longrightarrow> \<forall>c\<in>set cs. callOK c \<Longrightarrow>
   simulates gz (runCalls (gzipOps gz netOps) cs g) (runCalls netOps cs p)"
  by (rule gzip_sim.run)

text \<open>What a client reads that decompresses as the header says.\<close>

definition clientBody :: "(string \<Rightarrow> string option) \<Rightarrow> 'w rw \<Rightarrow> string option" where
  "clientBody gunzip w =
     (if sentHeader w contentEncoding = Some [''gzip''] then gunzip (wBody w) else Some (wBody w))"

lemma close_simulates:
  assumes sim: "simulates gz g p" and dec: "decodes gz gunzip"
  shows "statusOf (grInner (gzipClose gz netOps g)) = statusOf (finishRequest p)
    \<and> clientBody gunzip (grInner (gzipClose gz netOps g)) = Some (wBody p)"
proof -
  let ?g1 = "if grDecided g then g else commit gz netOps g" and ?p = "finishRequest p"
  have "simulates gz ?g1 ?p \<and> grDecided ?g1"
  proof (cases "grDecided g")
    case True
    then show ?thesis using sim by (auto simp: simulates_def finishRequest_def statusOf_writeHeader split: option.splits)
  next
    case False
    have "statusOf ?p = Some (if grWroteHeader g then grStatus g else 200)"
      using sim False by (auto simp: simulates_def finishRequest_def statusOf_writeHeader)
    then show ?thesis using commit_simulates[OF sim False] False by (simp add: finishRequest_def)
  qed
  then obtain h where h: "h = ?g1" and S: "simulates gz h ?p" and d: "grDecided h" by blast
  have body: "wBody ?p = wBody p" by (simp add: finishRequest_def)
  show ?thesis
  proof (cases "grSkip h")
    case True
    then have "grGz h = None" using S d by (simp add: simulates_def)
    then have "gzipClose gz netOps g = h" by (simp add: gzipClose_def h[symmetric])
    then show ?thesis using S d True body by (simp add: simulates_def clientBody_def)
  next
    case False
    then obtain z where z: "grGz h = Some z" "streams gz z (wBody p) (wBody (grInner h))"
      using S d body by (auto simp: simulates_def)
    have "gzipClose gz netOps g = h\<lparr>grGz := None, grInner := writeBody (gzClose gz z) (grInner h)\<rparr>"
      using z(1) False by (simp add: gzipClose_def h[symmetric])
    then show ?thesis using S d False z dec
      by (auto simp: simulates_def clientBody_def statusOf_writeBody statusOf_writeHeader decodes_def)
  qed
qed

lemma new_simulates:
  assumes "wSent w = None" and "wBody w = []" and "wHeader w contentEncoding = None"
  shows "simulates gz (newGzipWriter w) w"
  using assms by (simp add: simulates_def newGzipWriter_def statusOf_def)

lemma commit_empties: "grBuf (commit gz ops g) = []"
  by (simp add: commit_def Let_def split: prod.splits)

lemma passOn_buffer: "grBuf (passOn gz ops b g) = grBuf g"
  by (simp add: passOn_def Let_def split: option.splits prod.splits)

lemma call_buffer:
  assumes "length (grBuf g) \<le> sniffBufSize"
  shows "length (grBuf (doCall (gzipOps gz ops) c g)) \<le> sniffBufSize"
proof (cases c)
  case (CallWrite b)
  then show ?thesis using assms
    by (auto simp: gzipOps_def gzipWrite_def Let_def passOn_buffer commit_empties)
next
  case CallFlush
  then show ?thesis using assms
    by (auto simp: gzipOps_def gzipFlush_def Let_def commit_empties split: option.splits prod.splits)
qed (use assms in \<open>simp_all add: gzipOps_def gzipWriteHeader_def\<close>)

lemma calls_buffer:
  "length (grBuf g) \<le> sniffBufSize \<Longrightarrow> length (grBuf (runCalls (gzipOps gz ops) cs g)) \<le> sniffBufSize"
  by (induction cs arbitrary: g) (simp_all add: runCalls_def call_buffer)

section \<open>Recoverer\<close>

text \<open>The wrapper is started exactly when the response beneath has a status.\<close>

definition startedAs :: "'w rw recovererWriter \<Rightarrow> 'w rw \<Rightarrow> bool" where
  "startedAs sw p \<longleftrightarrow> rcInner sw = p \<and> (rcStarted sw \<longleftrightarrow> statusOf p \<noteq> None)"

lemma startedAs_call: "startedAs sw p \<Longrightarrow> startedAs (doCall (recovererOps netOps) c sw) (doCall netOps c p)"
  by (cases c)
    (auto simp: startedAs_def recovererOps_def statusOf_writeHeader statusOf_writeBody split: option.splits)

interpretation recoverer_sim: call_simulation "recovererOps netOps" netOps startedAs "\<lambda>c. True"
  by unfold_locales (rule startedAs_call)

lemma recoverer_calls:
  "rcInner sw = p \<Longrightarrow> rcStarted sw \<longleftrightarrow> statusOf p \<noteq> None \<Longrightarrow>
   rcInner (runCalls (recovererOps netOps) cs sw) = runCalls netOps cs p
   \<and> (rcStarted (runCalls (recovererOps netOps) cs sw) \<longleftrightarrow> statusOf (runCalls netOps cs p) \<noteq> None)"
  using recoverer_sim.run[of sw p cs] by (simp add: startedAs_def)

section \<open>The status recorder\<close>

fun finalStatus :: "respCall \<Rightarrow> nat option" where
  "finalStatus (CallWriteHeader code) = (if informational code then None else Some code)"
| "finalStatus c = None"

fun implicitStatus :: "respCall \<Rightarrow> nat option" where
  "implicitStatus (CallWrite b) = Some 200"
| "implicitStatus CallFlush = Some 200"
| "implicitStatus c = finalStatus c"

fun firstSome :: "('a \<Rightarrow> 'b option) \<Rightarrow> 'a list \<Rightarrow> 'b option" where
  "firstSome f [] = None"
| "firstSome f (x # xs) = (case f x of None \<Rightarrow> firstSome f xs | Some y \<Rightarrow> Some y)"

lemma recorder_sel:
  "opHeader (recorderOps ops) w = opHeader ops (srInner w)"
  "opSetHeader (recorderOps ops) h w = w\<lparr>srInner := opSetHeader ops h (srInner w)\<rparr>"
  "opWriteHeader (recorderOps ops) code w =
     (if \<not> srWroteHeader w \<and> \<not> informational code
      then \<lparr>srInner = opWriteHeader ops code (srInner w), srStatus = code, srWroteHeader = True\<rparr>
      else w\<lparr>srInner := opWriteHeader ops code (srInner w)\<rparr>)"
  "opWrite (recorderOps ops) b w = w\<lparr>srInner := opWrite ops b (srInner w)\<rparr>"
  "opFlush (recorderOps ops) w = w\<lparr>srInner := opFlush ops (srInner w)\<rparr>"
  by (cases w; simp add: recorderOps_def)+

lemma recorder_calls:
  "srInner (runCalls (recorderOps ops) cs w) = runCalls ops cs (srInner w)
   \<and> srStatus (runCalls (recorderOps ops) cs w) =
      (if srWroteHeader w then srStatus w else case firstSome finalStatus cs of None \<Rightarrow> srStatus w | Some c \<Rightarrow> c)"
proof (induction cs arbitrary: w)
  case (Cons c cs)
  show ?case using Cons.IH[of "doCall (recorderOps ops) c w"]
    by (cases c) (auto simp: runCalls_def recorder_sel split: option.splits)
qed (simp add: runCalls_def)

lemma net_status:
  "statusOf (runCalls netOps cs w) = (case statusOf w of Some c \<Rightarrow> Some c | None \<Rightarrow> firstSome implicitStatus cs)"
proof (induction cs arbitrary: w)
  case (Cons c cs)
  show ?case using Cons.IH[of "doCall netOps c w"]
    by (cases c) (auto simp: runCalls_def statusOf_writeHeader statusOf_writeBody split: option.splits)
qed (simp add: runCalls_def split: option.splits)

end
