(* ===== verification/LogLine.thy ===== *)
theory LogLine
  imports ResponseWriters
begin

text \<open>
  The log line of \<open>Logger\<close> (middleware/logger.go): sanitising without allocation, the format of
  durations, and the line. The buffers that are filled from the right are strings that grow to the
  left; their length is what the index counts. The text of the time stamp is a parameter.
\<close>

section \<open>Sanitising\<close>

definition plainByte :: "char \<Rightarrow> bool" where
  "plainByte c \<longleftrightarrow> \<not> (byteOf c < 32 \<or> byteOf c \<ge> 127 \<or> c = quoteMark \<or> c = backslash)"

text \<open>
  The second branch quotes into the buffer, moves the text over the first quote and cuts off two
  bytes.
\<close>

definition appendSanitisedForLog :: "string \<Rightarrow> string \<Rightarrow> string" where
  "appendSanitisedForLog buf s =
     (if list_all plainByte s then buf @ s
      else
        let n = length buf;
            buf1 = buf @ quoteToASCII s;
            moved = take n buf1 @ drop (n + 1) (take (length buf1 - 1) buf1);
            buf2 = moved @ drop (length moved) buf1
        in take (length buf2 - 2) buf2)"

section \<open>Durations\<close>

definition digitByte :: "nat \<Rightarrow> char" where
  "digitByte d = char_of (d + 48)"

text \<open>\<open>fmtFracLogDuration\<close>: \<open>prec\<close> digits from the right, without trailing zeros, and then the point.\<close>

fun fracDigits :: "nat \<Rightarrow> nat \<Rightarrow> bool \<Rightarrow> string \<Rightarrow> string \<times> nat \<times> bool" where
  "fracDigits 0 v pr acc = (acc, v, pr)"
| "fracDigits (Suc k) v pr acc =
     (let digit = v mod 10; pr' = (pr \<or> digit \<noteq> 0)
      in fracDigits k (v div 10) pr' (if pr' then digitByte digit # acc else acc))"

lemma fracDigits_numeral:
  "fracDigits (numeral k) v pr acc =
     (let digit = v mod 10; pr' = (pr \<or> digit \<noteq> 0)
      in fracDigits (pred_numeral k) (v div 10) pr' (if pr' then digitByte digit # acc else acc))"
  by (simp only: numeral_eq_Suc[of k] fracDigits.simps)

definition fmtFracLogDuration :: "string \<Rightarrow> nat \<Rightarrow> nat \<Rightarrow> string \<times> nat" where
  "fmtFracLogDuration acc v prec =
     (case fracDigits prec v False acc of (acc1, v1, pr) \<Rightarrow> (if pr then CHR ''.'' # acc1 else acc1, v1))"

function intDigits :: "nat \<Rightarrow> string \<Rightarrow> string" where
  "intDigits v acc = (if v > 0 then intDigits (v div 10) (digitByte (v mod 10) # acc) else acc)"
  by pat_completeness auto
termination by (relation "measure fst") auto

declare intDigits.simps [simp del]

definition fmtIntLogDuration :: "string \<Rightarrow> nat \<Rightarrow> string" where
  "fmtIntLogDuration acc v = (if v = 0 then digitByte 0 # acc else intDigits v acc)"

text \<open>\<open>d\<close> is a duration in nanoseconds; \<open>u\<close> its magnitude, as the uint64 that the code computes.\<close>

definition durationMagnitude :: "64 word \<Rightarrow> nat" where
  "durationMagnitude d = (let u = d in if sint d < 0 then unat (- u) else unat u)"

definition formatMagnitude :: "nat \<Rightarrow> string" where
  "formatMagnitude u =
     (if u < 1000000000 then
        (if u = 0 then ''0s''
         else
           let (suffix, prec) =
             (if u < 1000 then (''ns'', 0) else if u < 1000000 then (bytes [194, 181] @ ''s'', 3) else (''ms'', 6));
             (acc, u1) = fmtFracLogDuration suffix u prec
           in fmtIntLogDuration acc u1)
      else
        let (acc, s) = fmtFracLogDuration ''s'' u 9;
            acc1 = fmtIntLogDuration acc (s mod 60);
            mins = s div 60
        in if mins = 0 then acc1
           else
             let acc2 = fmtIntLogDuration (CHR ''m'' # acc1) (mins mod 60);
                 hours = mins div 60
             in if hours = 0 then acc2 else fmtIntLogDuration (CHR ''h'' # acc2) hours)"

definition formatLogDuration :: "64 word \<Rightarrow> string" where
  "formatLogDuration d =
     (let text = formatMagnitude (durationMagnitude d) in if sint d < 0 then CHR ''-'' # text else text)"

definition appendLogDuration :: "string \<Rightarrow> 64 word \<Rightarrow> string" where
  "appendLogDuration b d = b @ formatLogDuration d"

section \<open>The line\<close>

definition logLine :: "string \<Rightarrow> request \<Rightarrow> nat \<Rightarrow> 64 word \<Rightarrow> string" where
  "logLine stamp r status d =
     (let b1 = stamp @ '' '';
          b2 = appendSanitisedForLog b1 (rMethod r) @ '' '';
          b3 = appendSanitisedForLog b2 (uPath (rURL r)) @ '' '';
          b4 = b3 @ decimal status @ '' ''
      in appendLogDuration b4 d @ newline)"

text \<open>
  One request: the rest of the chain on the recorder, then the line; \<open>elapsed\<close> is the difference of the
  two clock readings. A panic of the handler leaves no line. A nil \<open>io.Writer\<close> is refused.
\<close>

definition loggerCheck :: "bool \<Rightarrow> goPanic option" where
  "loggerCheck outGiven =
     (if \<not> outGiven then Some (BadConfig ''middleware: Logger requires a non-nil writer'') else None)"

definition loggerServe :: "'s writerOps \<Rightarrow> string \<Rightarrow> 64 word \<Rightarrow> request \<Rightarrow>
    ('s statusRecorder \<Rightarrow> 's statusRecorder \<times> goPanic option) \<Rightarrow> 's \<Rightarrow> 's \<times> goPanic option \<times> string option" where
  "loggerServe ops stamp elapsed r inner s =
     (case inner (newStatusRecorder s) of
        (rec', None) \<Rightarrow> (srInner rec', None, Some (logLine stamp r (srStatus rec') elapsed))
      | (rec', Some e) \<Rightarrow> (srInner rec', Some e, None))"

section \<open>Lemmas\<close>

text \<open>The shortcut changes nothing.\<close>

lemma decodeRune_ascii: "byteOf c < 128 \<Longrightarrow> decodeRune (c # s) = (byteOf c, 1)"
  by (simp add: decodeRune_def Let_def)

lemma escapeRune_plain: "plainByte c \<Longrightarrow> escapeRune (byteOf c) = [c]"
proof -
  assume p: "plainByte c"
  have c: "char_of (byteOf c) = c" by (simp add: byteOf_def)
  have "byteOf c \<noteq> 34" "byteOf c \<noteq> 92" using p c unfolding plainByte_def by metis+
  moreover have "32 \<le> byteOf c" "byteOf c < 127" using p unfolding plainByte_def by linarith+
  ultimately have "escapeRune (byteOf c) = [char_of (byteOf c)]" by (simp add: escapeRune_def)
  then show "escapeRune (byteOf c) = [c]" unfolding c .
qed

lemma quoteBody_plain: "list_all plainByte s \<Longrightarrow> quoteBody s = s"
proof (induction s)
  case (Cons c s)
  have "byteOf c < 128" and "byteOf c \<noteq> runeError" using Cons.prems by (auto simp: plainByte_def runeError_def)
  then show ?case using Cons by (simp add: decodeRune_ascii escapeRune_plain)
qed simp

lemma sanitiseForLog_body: "sanitiseForLog s = quoteBody s"
  by (simp add: sanitiseForLog_def quoteToASCII_def Let_def)

lemma appendSanitisedForLog_same: "appendSanitisedForLog buf s = buf @ sanitiseForLog s"
  by (simp add: appendSanitisedForLog_def sanitiseForLog_body quoteBody_plain quoteToASCII_def Let_def)

text \<open>Only printable ASCII is left.\<close>

definition printable :: "char \<Rightarrow> bool" where
  "printable c \<longleftrightarrow> 32 \<le> byteOf c \<and> byteOf c < 127"

lemma printable_hexPad: "\<forall>c\<in>set (hexPad k n). printable c"
proof (induction k arbitrary: n)
  case (Suc k)
  have "lowerHex (n mod 16) \<in> set ''0123456789abcdef''" unfolding lowerHex_def by (rule nth_mem) simp
  moreover have "\<forall>c\<in>set ''0123456789abcdef''. printable c" by (simp add: printable_def byteOf_def)
  ultimately show ?case using Suc by auto
qed simp

lemma printable_escape: "\<forall>c\<in>set (escapeRune r). printable c"
  using printable_hexPad by (auto simp: escapeRune_def printable_def byteOf_def)

lemma printable_quote: "\<forall>c\<in>set (quoteBody s). printable c"
proof (induction s rule: quoteBody.induct)
  case (2 c s)
  have x: "printable backslash" "printable (CHR ''x'')" by (simp_all add: printable_def byteOf_def)
  obtain r width where d: "decodeRune (c # s) = (r, width)" by fastforce
  show ?case
  proof (cases "width = 1 \<and> r = runeError")
    case True
    then show ?thesis using 2(1)[OF d[symmetric] refl True] x printable_hexPad d by auto
  next
    case False
    then show ?thesis using 2(2)[OF d[symmetric] refl False] printable_escape[of r] d by auto
  qed
qed simp

lemma printable_sanitised: "\<forall>c\<in>set (sanitiseForLog s). printable c"
  by (simp add: sanitiseForLog_body printable_quote)

lemma printable_decimal: "\<forall>c\<in>set (decimal n). printable c"
proof (induction n rule: decimal.induct)
  case (1 n)
  have "printable (digitChar (m mod 10))" for m by (simp add: digitChar_def printable_def byteOf_def)
  from this[of n] show ?case using 1
    by (subst decimal.simps) (auto simp: digitChar_def printable_def byteOf_def)
qed

section \<open>The length of a duration\<close>

lemma digitByte_digitChar: "digitByte = digitChar"
  by (simp add: digitByte_def digitChar_def fun_eq_iff add.commute)

lemma intDigits_decimal: "v > 0 \<Longrightarrow> intDigits v acc = decimal v @ acc"
proof (induction v arbitrary: acc rule: decimal.induct)
  case (1 v)
  show ?case
  proof (cases "v < 10")
    case True
    then show ?thesis using 1(2)
      by (subst intDigits.simps, subst intDigits.simps, subst decimal.simps) (simp add: digitByte_digitChar)
  next
    case False
    then show ?thesis using 1
      by (subst intDigits.simps, subst decimal.simps) (simp add: digitByte_digitChar)
  qed
qed

lemma fmtInt_decimal: "fmtIntLogDuration acc v = decimal v @ acc"
  by (auto simp: fmtIntLogDuration_def intDigits_decimal digitByte_digitChar decimal.simps[of 0])

lemma length_decimal: "v < 10 ^ k \<Longrightarrow> k > 0 \<Longrightarrow> length (decimal v) \<le> k"
proof (induction k arbitrary: v)
  case (Suc k)
  show ?case
  proof (cases "v < 10")
    case True
    then show ?thesis by (subst decimal.simps) simp
  next
    case False
    then have "k > 0" using Suc.prems by (cases k) auto
    moreover have "v div 10 < 10 ^ k" using Suc.prems(1) by (simp add: less_mult_imp_div_less)
    ultimately show ?thesis using Suc.IH[of "v div 10"] False by (subst decimal.simps) simp
  qed
qed simp

lemma fracDigits_length:
  "fracDigits k v pr acc = (acc', v', pr') \<Longrightarrow> length acc' \<le> length acc + k \<and> v' = v div 10 ^ k"
  by (induction k arbitrary: v pr acc) (fastforce simp: Let_def div_mult2_eq split: if_splits)+

lemma fmtFrac_length:
  "fmtFracLogDuration acc v k = (acc', v') \<Longrightarrow> length acc' \<le> length acc + k + 1 \<and> v' = v div 10 ^ k"
  by (auto simp: fmtFracLogDuration_def split: prod.splits if_splits dest!: fracDigits_length)

lemma formatMagnitude_length:
  assumes u: "u \<le> 2 ^ 63" shows "length (formatMagnitude u) \<le> 31"
proof (cases "u < 1000000000")
  case True
  obtain suffix prec where sp: "(if u < 1000 then (''ns'', 0)
      else if u < 1000000 then (bytes [194, 181] @ ''s'', 3) else (''ms'', 6 :: nat)) = (suffix, prec)"
    by (metis surj_pair)
  obtain acc v where f: "fmtFracLogDuration suffix u prec = (acc, v)" by fastforce
  have "length suffix \<le> 3 \<and> prec \<le> 6" using sp by (auto simp: bytes_def split: if_splits)
  moreover note fmtFrac_length[OF f]
  moreover have "length (decimal v) \<le> 9"
    using fmtFrac_length[OF f] True by (intro length_decimal) (auto intro: le_less_trans[OF div_le_dividend])
  ultimately have "length (fmtIntLogDuration acc v) \<le> 31" by (simp add: fmtInt_decimal)
  moreover have "formatMagnitude u = (if u = 0 then ''0s'' else fmtIntLogDuration acc v)"
    using True f by (simp only: formatMagnitude_def sp Let_def prod.case if_True)
  ultimately show ?thesis by simp
next
  case False
  obtain acc v where f: "fmtFracLogDuration ''s'' u 9 = (acc, v)" by fastforce
  have acc: "length acc \<le> 11" and v: "v = u div 10 ^ 9" using fmtFrac_length[OF f] by simp_all
  have two: "length (decimal (n mod 60)) \<le> 2" for n :: nat by (rule length_decimal) (auto intro: less_trans[of _ 60])
  have "v div 60 div 60 < 10 ^ 7" using u unfolding v by simp
  then have "length (decimal (v div 60 div 60)) \<le> 7" by (rule length_decimal) simp
  moreover have "v div 60 = 0 \<Longrightarrow> length (decimal v) \<le> 2" using two[of v] by simp
  moreover have "v div 60 div 60 = 0 \<Longrightarrow> length (decimal (v div 60)) \<le> 2" using two[of "v div 60"] by simp
  ultimately show ?thesis
    using False acc two[of v] two[of "v div 60"] f by (auto simp: formatMagnitude_def Let_def fmtInt_decimal)
qed

lemma durationMagnitude_bound: "durationMagnitude d \<le> 2 ^ 63"
proof (cases "sint d < 0")
  case True
  have lo: "- (2 ^ 63) \<le> sint d" using sint_range_size[of d] by (simp add: word_size)
  have "uint (word_of_int (- sint d) :: 64 word) = (- sint d) mod 2 ^ 64" by (subst uint_word_of_int) simp
  then have "uint (- d) = (- sint d) mod 2 ^ 64" by simp
  then have "uint (- d) \<le> 2 ^ 63" using lo True by simp
  then have "unat (- d) \<le> nat (2 ^ 63)" by (metis nat_mono nat_uint_eq)
  then show ?thesis using True by (simp add: durationMagnitude_def)
next
  case False
  have hi: "sint d < 2 ^ 63" using sint_range_size[of d] by (simp add: word_size)
  have "uint d = sint d mod 2 ^ 64" by (simp add: uint_sint take_bit_eq_mod)
  then have "uint d \<le> 2 ^ 63" using hi False by simp
  then have "unat d \<le> nat (2 ^ 63)" by (metis nat_mono nat_uint_eq)
  then show ?thesis using False by (simp add: durationMagnitude_def)
qed

lemma formatLogDuration_fits: "length (formatLogDuration d) \<le> 32"
  using formatMagnitude_length[OF durationMagnitude_bound[of d]] by (simp add: formatLogDuration_def Let_def)

text \<open>Bytes that do not control a terminal or end a line; those of \<open>\<mu>s\<close> are among them.\<close>

definition visible :: "char \<Rightarrow> bool" where
  "visible c \<longleftrightarrow> 32 \<le> byteOf c \<and> byteOf c \<noteq> 127"

lemma visible_printable: "\<forall>c\<in>set s. printable c \<Longrightarrow> list_all visible s"
  by (auto simp: list_all_iff printable_def visible_def)

lemma visible_frac:
  "fracDigits k v pr acc = (acc', v', pr') \<Longrightarrow> list_all visible acc \<Longrightarrow> list_all visible acc'"
proof (induction k arbitrary: v pr acc)
  case (Suc k)
  have "visible (digitByte (v mod 10))" by (simp add: visible_def digitByte_def byteOf_def)
  then show ?case using Suc.IH Suc.prems by (fastforce simp: Let_def split: if_splits)
qed simp

lemma visible_fmtFrac:
  "fmtFracLogDuration acc v k = (acc', v') \<Longrightarrow> list_all visible acc \<Longrightarrow> list_all visible acc'"
  by (auto simp: fmtFracLogDuration_def visible_def byteOf_def dest: visible_frac split: prod.splits if_splits)

lemma visible_duration: "list_all visible (formatLogDuration d)"
proof -
  have dec: "list_all visible (decimal n)" for n using visible_printable[OF printable_decimal] .
  have lit: "visible (CHR ''m'')" "visible (CHR ''h'')" "visible (CHR ''-'')" "visible (CHR ''s'')" "visible (CHR ''n'')"
    "visible (CHR ''0'')" "visible (char_of (194 :: nat))" "visible (char_of (181 :: nat))"
    by (simp_all add: visible_def byteOf_def)
  have "list_all visible (formatMagnitude u)" for u
    using lit
    by (auto simp: formatMagnitude_def Let_def fmtInt_decimal dec bytes_def split: prod.splits dest!: visible_fmtFrac)
  then show ?thesis using lit by (simp add: formatLogDuration_def Let_def)
qed

end
