(* ===== verification/Cors.thy ===== *)
theory Cors
  imports MiddlewareBase
begin

text \<open>
  Cross-origin resource sharing (middleware/cors.go): the Vary header, the checks on the origin
  and the headers of a simple and of a preflight response.
\<close>

section \<open>The Vary header\<close>

definition isValidOrigin :: "string \<Rightarrow> bool" where
  "isValidOrigin origin \<longleftrightarrow>
     list_all (\<lambda>c. c \<noteq> carriageReturn \<and> c \<noteq> lineFeed \<and> c \<noteq> char_of (0 :: nat)) origin"

function tokenLoop :: "string \<Rightarrow> bool" where
  "tokenLoop rest =
     (let (tok, tl, again) = cutByte rest (CHR '','') in
      if equalFold (trimSpace tok) ''Origin'' then True
      else if \<not> again then False
      else tokenLoop tl)"
  by pat_completeness auto
termination
proof (relation "measure length")
  fix rest x tok y tl again
  assume "x = cutByte rest (CHR '','')" "(tok, y) = x" "(tl, again) = y" "\<not> \<not> again"
  then have "cutByte rest (CHR '','') = (tok, tl, True)" by simp
  then have "rest = tok @ CHR '','' # tl" by (simp add: cutByte_found)
  then show "(tl, rest) \<in> measure length" by simp
qed simp

definition varyHasOriginToken :: "string list \<Rightarrow> bool" where
  "varyHasOriginToken values \<longleftrightarrow> list_ex tokenLoop values"

definition addVaryOrigin :: "'w rw \<Rightarrow> 'w rw" where
  "addVaryOrigin w =
     (case wHeader w ''Vary'' of
        Some existing \<Rightarrow>
          if varyHasOriginToken existing then w else setHeader ''Vary'' (existing @ [''Origin'']) w
      | None \<Rightarrow> setHeader ''Vary'' [''Origin''] w)"

section \<open>The middleware\<close>

record corsOptions =
  allowedOrigins :: "string list"
  allowedMethods :: "string list"
  allowedHeaders :: "string list"
  exposedHeaders :: "string list"
  allowCredentials :: bool
  corsMaxAge :: int

text \<open>The panics of the construction, in order.\<close>

definition corsCheck :: "corsOptions \<Rightarrow> goPanic option" where
  "corsCheck opts =
     (if allowedOrigins opts = []
      then Some (BadConfig (''middleware: CORS requires a non-empty AllowedOrigins (use []string{'' @ [quoteMark]
             @ ''*'' @ [quoteMark] @ ''} for wildcard, or an explicit allowlist; nil silently allows traffic ''
             @ ''with no Access-Control-Allow-Origin)''))
      else if list_ex (\<lambda>a. a = ''*'' \<and> allowCredentials opts) (allowedOrigins opts)
      then Some (BadConfig (''middleware: CORS AllowCredentials must not be true when AllowedOrigins contains ''
             @ [quoteMark] @ ''*'' @ [quoteMark]))
      else None)"

definition allowAll :: "corsOptions \<Rightarrow> bool" where
  "allowAll opts \<longleftrightarrow> list_ex (\<lambda>a. a = ''*'') (allowedOrigins opts)"

definition corsHeader :: "string \<Rightarrow> string \<Rightarrow> 'w rw \<Rightarrow> 'w rw" where
  "corsHeader key v w = (if v = [] then w else setHeader key [v] w)"

definition maxAgeText :: "corsOptions \<Rightarrow> string" where
  "maxAgeText opts = (if corsMaxAge opts > 0 then decimalInt (corsMaxAge opts) else [])"

definition corsAllowed :: "corsOptions \<Rightarrow> string \<Rightarrow> 'w rw \<Rightarrow> 'w rw" where
  "corsAllowed opts origin w =
     (let w1 = setHeader ''Access-Control-Allow-Origin'' [if allowAll opts then ''*'' else origin] w;
          w2 = (if allowCredentials opts then setHeader ''Access-Control-Allow-Credentials'' [''true''] w1 else w1)
      in corsHeader ''Access-Control-Expose-Headers'' (joinStr '', '' (exposedHeaders opts)) w2)"

definition corsPreflight :: "corsOptions \<Rightarrow> 'w rw \<Rightarrow> 'w rw" where
  "corsPreflight opts w =
     writeHeader 204
       (corsHeader ''Access-Control-Max-Age'' (maxAgeText opts)
         (corsHeader ''Access-Control-Allow-Headers'' (joinStr '', '' (allowedHeaders opts))
           (corsHeader ''Access-Control-Allow-Methods'' (joinStr '', '' (allowedMethods opts)) w)))"

definition corsServe :: "corsOptions \<Rightarrow> 'w middleware" where
  "corsServe opts next r w =
     (let w1 = addVaryOrigin w; origin = headerGet (rHeader r) ''Origin'' in
      if origin = [] then next r w1
      else if \<not> isValidOrigin origin then ok (httpError ''Bad Request'' 400 w1)
      else if \<not> allowAll opts \<and> origin \<notin> set (allowedOrigins opts) then ok (httpError ''Forbidden'' 403 w1)
      else let w2 = corsAllowed opts origin w1 in
        if rMethod r = ''OPTIONS'' then ok (corsPreflight opts w2) else next r w2)"

definition cors :: "corsOptions \<Rightarrow> goPanic + 'w middleware" where
  "cors opts = (case corsCheck opts of Some e \<Rightarrow> Inl e | None \<Rightarrow> Inr (corsServe opts))"

section \<open>Lemmas\<close>

declare tokenLoop.simps [simp del]

text \<open>The loop over \<open>strings.Cut\<close> looks at the parts between the commas.\<close>

definition originToken :: "string \<Rightarrow> bool" where
  "originToken tok \<longleftrightarrow> equalFold (trimSpace tok) ''Origin''"

lemma tokenLoop_split: "tokenLoop v \<longleftrightarrow> list_ex originToken (splitByte (CHR '','') v)"
proof (induction v rule: tokenLoop.induct)
  case (1 rest)
  obtain tok nxt b where c: "cutByte rest (CHR '','') = (tok, nxt, b)" by (metis surj_pair)
  show ?case
    using 1 [OF c [symmetric] refl refl] c
    by (cases b) (auto simp: tokenLoop.simps [of rest] splitByte_cut [of _ rest] originToken_def)
qed

definition originTokens :: "string list \<Rightarrow> nat" where
  "originTokens values = length (filter originToken (concat (map (splitByte (CHR '','')) values)))"

lemma originTokens_pos: "varyHasOriginToken values \<longleftrightarrow> originTokens values > 0"
  by (induction "values")
    (auto simp: varyHasOriginToken_def originTokens_def tokenLoop_split list_ex_iff filter_empty_conv)

lemma origin_itself: "originTokens [''Origin''] = 1"
  by code_simp

definition varyOf :: "'w rw \<Rightarrow> string list" where
  "varyOf w = (case wHeader w ''Vary'' of Some vs \<Rightarrow> vs | None \<Rightarrow> [])"

lemma addVaryOrigin_tokens:
  "originTokens (varyOf (addVaryOrigin w)) = max 1 (originTokens (varyOf w))"
proof -
  have a: "originTokens (xs @ ys) = originTokens xs + originTokens ys" for xs ys
    by (simp add: originTokens_def)
  show ?thesis
    using origin_itself originTokens_pos
    by (auto simp: addVaryOrigin_def varyOf_def setHeader_def a originTokens_def [of "[]"] split: option.splits)
qed

end
