(* ===== verification/RequestPath.thy ===== *)
theory RequestPath
  imports MiddlewareBase
begin

text \<open>
  The middleware that rewrites the request path: \<open>CleanPath\<close> (middleware/clean_path.go) and
  \<open>StripSlashes\<close> (middleware/strip_slashes.go). A shallow copy of the request with another URL is
  the record with that URL.
\<close>

section \<open>CleanPath\<close>

definition withPath :: "string \<Rightarrow> string \<Rightarrow> request \<Rightarrow> request" where
  "withPath p raw r = r\<lparr>rURL := (rURL r)\<lparr>uPath := p, uRawPath := raw\<rparr>\<rparr>"

definition cleanedRawPath :: "string \<Rightarrow> string \<Rightarrow> string" where
  "cleanedRawPath p rawP =
     (if rawP = [] then rawP
      else let cleanedRaw = pathClean rawP in
        if cleanedRaw \<noteq> rawP then []
        else case pathUnescape rawP of
          Some decoded \<Rightarrow> if decoded \<noteq> p then [] else cleanedRaw
        | None \<Rightarrow> cleanedRaw)"

definition cleanPathRequest :: "request \<Rightarrow> request" where
  "cleanPathRequest r =
     (let p = pathClean (uPath (rURL r)); rawP = uRawPath (rURL r) in
      if p = uPath (rURL r) \<and> rawP = [] then r else withPath p (cleanedRawPath p rawP) r)"

definition cleanPath :: "'w middleware" where
  "cleanPath next r w = next (cleanPathRequest r) w"

section \<open>StripSlashes\<close>

function stripLoop :: "string \<Rightarrow> nat \<Rightarrow> string \<times> nat" where
  "stripLoop p n =
     (if length p > 1 \<and> last p = CHR ''/'' then stripLoop (butlast p) (n + 1) else (p, n))"
  by pat_completeness auto
termination by (relation "measure (\<lambda>(p, n). length p)") auto

definition endsInEncodedSlash :: "string \<Rightarrow> bool" where
  "endsInEncodedSlash rp \<longleftrightarrow> hasSuffix rp ''%2F'' \<or> hasSuffix rp ''%2f''"

fun stripTrailingPathSeparators :: "string \<Rightarrow> nat \<Rightarrow> string" where
  "stripTrailingPathSeparators rp 0 = rp"
| "stripTrailingPathSeparators rp (Suc n) =
     (if length rp \<le> 1 then rp
      else if last rp = CHR ''/'' then stripTrailingPathSeparators (butlast rp) n
      else if length rp \<ge> 3 \<and> endsInEncodedSlash rp
      then stripTrailingPathSeparators (take (length rp - 3) rp) n
      else rp)"

definition stripSlashesRequest :: "request \<Rightarrow> request" where
  "stripSlashesRequest r =
     (let (p, n) = stripLoop (uPath (rURL r)) 0; raw = uRawPath (rURL r) in
      if p \<noteq> uPath (rURL r)
      then withPath p (if raw \<noteq> [] then stripTrailingPathSeparators raw n else raw) r
      else r)"

definition stripSlashes :: "'w middleware" where
  "stripSlashes next r w = next (stripSlashesRequest r) w"

section \<open>Paths in step\<close>

text \<open>
  \<open>net/http\<close> sets the raw path only where it decodes to the path; a raw path that does not
  decode is one that other code has set.
\<close>

definition pathsAgree :: "url \<Rightarrow> bool" where
  "pathsAgree u \<longleftrightarrow> uRawPath u = [] \<or> pathUnescape (uRawPath u) = Some (uPath u)"

lemma cleanedRawPath_cases:
  "cleanedRawPath p rawP = [] \<or> cleanedRawPath p rawP = rawP \<and> pathUnescape rawP \<in> {None, Some p}"
  by (simp add: cleanedRawPath_def Let_def split: option.splits)

declare stripLoop.simps [simp del]

lemma stripLoop_count:
  "stripLoop p k = (q, n) \<Longrightarrow>
     k \<le> n \<and> p = q @ replicate (n - k) (CHR ''/'') \<and> (p \<noteq> [] \<longrightarrow> q \<noteq> [])
     \<and> \<not> (length q > 1 \<and> last q = CHR ''/'')"
proof (induction p k arbitrary: q n rule: stripLoop.induct)
  case (1 p k)
  show ?case
  proof (cases "length p > 1 \<and> last p = CHR ''/''")
    case True
    then have s: "stripLoop (butlast p) (k + 1) = (q, n)" using 1(2) by (simp add: stripLoop.simps [of p k])
    have ih: "k + 1 \<le> n" "butlast p = q @ replicate (n - (k + 1)) (CHR ''/'')" "butlast p \<noteq> [] \<longrightarrow> q \<noteq> []"
      "\<not> (length q > 1 \<and> last q = CHR ''/'')"
      using 1(1) [OF True s] by blast+
    have "p \<noteq> []" using True by auto
    then have p: "p = butlast p @ [CHR ''/'']" using True by (metis append_butlast_last_id)
    have "n - k = Suc (n - (k + 1))" using ih(1) by simp
    then have "replicate (n - k) (CHR ''/'') = replicate (n - (k + 1)) (CHR ''/'') @ [CHR ''/'']"
      by (simp add: replicate_append_same)
    then have "p = q @ replicate (n - k) (CHR ''/'')" using p ih(2) by simp
    moreover have "butlast p \<noteq> []" using True by (cases p) auto
    ultimately show ?thesis using ih by simp
  next
    case False
    then show ?thesis using 1(2) by (auto simp: stripLoop.simps [of p k])
  qed
qed

text \<open>A raw path whose decoded form ends in a slash ends in a token for it.\<close>

lemma stripLoop_shape:
  "stripLoop p 0 = (q, n) \<Longrightarrow> (\<exists>m. p = q @ replicate m (CHR ''/'')) \<and> (q = [] \<longleftrightarrow> p = [])
     \<and> (length q > 1 \<longrightarrow> last q \<noteq> CHR ''/'')"
proof -
  assume "stripLoop p 0 = (q, n)"
  note S = stripLoop_count[OF this]
  then have "p = q @ replicate (n - 0) (CHR ''/'')" "p \<noteq> [] \<longrightarrow> q \<noteq> []" by blast+
  then show "(\<exists>m. p = q @ replicate m (CHR ''/'')) \<and> (q = [] \<longleftrightarrow> p = [])
     \<and> (length q > 1 \<longrightarrow> last q \<noteq> CHR ''/'')" using S by blast
qed

lemma unescape_nil: "pathUnescape s = Some [] \<longleftrightarrow> s = []"
  by (cases s) (auto split: list.splits option.splits if_splits)

lemma unhex_slash:
  assumes "unhex a = Some x" "unhex b = Some y" "char_of (16 * x + y) = CHR ''/''"
  shows "a = CHR ''2'' \<and> (b = CHR ''F'' \<or> b = CHR ''f'')"
proof -
  have b16: "x < 16" "y < 16" using assms(1,2) by (auto simp: unhex_def Let_def split: if_splits)
  have "16 * x + y = of_char (char_of (16 * x + y) :: char)" using b16 by (simp add: of_char_of)
  then have "16 * x + y = 47" unfolding assms(3) by simp
  then have xy: "x = 2" "y = 15" using b16 by presburger+
  have "byteOf a = byteOf (CHR ''2'')" using assms(1) xy by (auto simp: unhex_def Let_def byteOf_def split: if_splits)
  moreover have "byteOf b = byteOf (CHR ''F'') \<or> byteOf b = byteOf (CHR ''f'')"
    using assms(2) xy by (auto simp: unhex_def Let_def byteOf_def split: if_splits)
  ultimately show ?thesis by (simp only: byteOf_def of_char_eq_iff)
qed

definition slashToken :: "string \<Rightarrow> bool" where
  "slashToken tk \<longleftrightarrow> tk = ''/'' \<or> tk = ''%2F'' \<or> tk = ''%2f''"

lemma unescape_snoc:
  "pathUnescape rp = Some (q @ [CHR ''/'']) \<Longrightarrow>
     \<exists>rp' tk. rp = rp' @ tk \<and> slashToken tk \<and> pathUnescape rp' = Some q"
proof (induction rp arbitrary: q rule: length_induct)
  case (1 rp)
  obtain c s where rp: "rp = c # s" using 1(2) by (cases rp) auto
  show ?case
  proof (cases "c = CHR ''%''")
    case True
    then obtain a b rest x y t where s: "s = a # b # rest" "unhex a = Some x" "unhex b = Some y"
        "pathUnescape rest = Some t" "q @ [CHR ''/''] = char_of (16 * x + y) # t"
      using 1(2) rp by (auto split: list.splits option.splits)
    show ?thesis
    proof (cases q)
      case Nil
      then have "rest = []" "a = CHR ''2'' \<and> (b = CHR ''F'' \<or> b = CHR ''f'')"
        using s unescape_nil unhex_slash [OF s(2,3)] by auto
      then show ?thesis
        using Nil rp True s(1) by (intro exI [of _ "[]"] exI [of _ rp]) (auto simp: slashToken_def)
    next
      case (Cons d q')
      then have "pathUnescape rest = Some (q' @ [CHR ''/''])" using s by simp
      moreover have "length rest < length rp" using rp s(1) by simp
      ultimately obtain rp' tk where r: "rest = rp' @ tk" "slashToken tk" "pathUnescape rp' = Some q'"
        using 1(1) by blast
      then have "pathUnescape (c # a # b # rp') = Some q" using s Cons True by simp
      then show ?thesis using r rp s(1) by (metis append_Cons)
    qed
  next
    case False
    then obtain t where s: "pathUnescape s = Some t" "q @ [CHR ''/''] = c # t" using 1(2) rp by auto
    show ?thesis
    proof (cases q)
      case Nil
      then show ?thesis
        using s rp unescape_nil [of s] by (intro exI [of _ "[]"] exI [of _ rp]) (auto simp: slashToken_def)
    next
      case (Cons d q')
      then have "pathUnescape s = Some (q' @ [CHR ''/''])" using s by simp
      then obtain rp' tk where r: "s = rp' @ tk" "slashToken tk" "pathUnescape rp' = Some q'"
        using 1(1) rp by (metis length_Cons lessI)
      then have "pathUnescape (c # rp') = Some q" using s Cons False by simp
      then show ?thesis using r rp by (metis append_Cons)
    qed
  qed
qed

lemma strip_token:
  assumes "slashToken tk" "rp' \<noteq> []"
  shows "stripTrailingPathSeparators (rp' @ tk) (Suc n) = stripTrailingPathSeparators rp' n"
  using assms
  by (auto simp: slashToken_def endsInEncodedSlash_def hasSuffix_def butlast_append Suc_le_eq)

lemma strip_in_step:
  "pathUnescape rp = Some (q @ replicate n (CHR ''/'')) \<Longrightarrow> q \<noteq> [] \<Longrightarrow>
     pathUnescape (stripTrailingPathSeparators rp n) = Some q"
proof (induction n arbitrary: rp)
  case (Suc n)
  have "pathUnescape rp = Some ((q @ replicate n (CHR ''/'')) @ [CHR ''/''])"
    using Suc.prems(1) by (simp add: replicate_append_same)
  then obtain rp' tk where r: "rp = rp' @ tk" "slashToken tk" "pathUnescape rp' = Some (q @ replicate n (CHR ''/''))"
    using unescape_snoc by blast
  moreover have "rp' \<noteq> []" using r(3) Suc.prems(2) by auto
  ultimately show ?case using Suc.IH [OF r(3) Suc.prems(2)] strip_token [OF r(2)] unfolding r(1) by metis
qed simp

lemma stripSlashes_agrees:
  assumes "pathsAgree (rURL r)"
  shows "pathsAgree (rURL (stripSlashesRequest r))"
proof (cases "uPath (rURL r) = []")
  case True
  then show ?thesis using assms by (simp add: stripSlashesRequest_def stripLoop.simps)
next
  case False
  obtain p n where s: "stripLoop (uPath (rURL r)) 0 = (p, n)" by fastforce
  note c = stripLoop_count [OF s]
  show ?thesis
  proof (cases "p = uPath (rURL r)")
    case True
    then show ?thesis using assms s by (simp add: stripSlashesRequest_def)
  next
    case ne: False
    have "pathUnescape (uRawPath (rURL r)) = Some (p @ replicate n (CHR ''/'')) \<Longrightarrow>
        pathUnescape (stripTrailingPathSeparators (uRawPath (rURL r)) n) = Some p"
      using strip_in_step c False by simp
    then show ?thesis using assms s ne c by (auto simp: stripSlashesRequest_def pathsAgree_def withPath_def Let_def)
  qed
qed

end
