(* ===== verification/RequestIdent.thy ===== *)
theory RequestIdent
  imports MiddlewareBase Threads
begin

text \<open>
  Request identifiers (middleware/request_id.go): validation of an inbound identifier, generation
  from pooled buffers of random bytes, and the middleware that stores the identifier in the
  context and in the response header.
\<close>

section \<open>Validation\<close>

definition idByte :: "char \<Rightarrow> bool" where
  "idByte c \<longleftrightarrow>
     \<not> ((byteOf c < 65 \<or> byteOf c > 90) \<and> (byteOf c < 97 \<or> byteOf c > 122)
        \<and> (byteOf c < 48 \<or> byteOf c > 57) \<and> c \<noteq> CHR ''-'' \<and> c \<noteq> CHR ''_'' \<and> c \<noteq> CHR ''.'')"

definition validRequestID :: "string \<Rightarrow> bool" where
  "validRequestID s \<longleftrightarrow> \<not> (length s = 0 \<or> length s > 128) \<and> list_all idByte s"

section \<open>Random buffers\<close>

text \<open>
  The random bytes are a parameter: the result of the n-th \<open>rand.Read\<close> of a whole buffer. The
  last field says which read a buffer holds; no operation looks at it.
\<close>

definition requestIDBufSize :: nat where
  "requestIDBufSize = 4096"

record requestIDBuf =
  idBytes :: string
  idOff :: nat
  idRead :: "nat option"

definition newExhaustedRequestIDBuf :: requestIDBuf where
  "newExhaustedRequestIDBuf =
     \<lparr>idBytes = replicate requestIDBufSize (char_of (0 :: nat)), idOff = requestIDBufSize, idRead = None\<rparr>"

text \<open>What one request does with the buffer it holds; the counter numbers the reads.\<close>

definition drawID :: "(nat \<Rightarrow> string) \<Rightarrow> requestIDBuf \<Rightarrow> nat \<Rightarrow> string \<times> requestIDBuf \<times> nat" where
  "drawID rand buf reads =
     (let (buf1, reads1) =
            (if idOff buf + 16 > requestIDBufSize
             then (buf\<lparr>idBytes := rand reads, idOff := 0, idRead := Some reads\<rparr>, reads + 1) else (buf, reads))
      in (take 16 (drop (idOff buf1) (idBytes buf1)), buf1\<lparr>idOff := idOff buf1 + 16\<rparr>, reads1))"

definition hexByte :: "char \<Rightarrow> string" where
  "hexByte c = [lowerHex (byteOf c div 16), lowerHex (byteOf c mod 16)]"

definition hexEncode :: "string \<Rightarrow> string" where
  "hexEncode s = concat (map hexByte s)"

text \<open>
  \<open>nextRandomID\<close> of any number of requests: a request takes a buffer out of the pool, or a new one,
  draws from it, and puts it back; the pool may also drop a buffer. The last component lists the
  identifiers served so far.
\<close>

record idPool =
  idFree :: "requestIDBuf list"
  idHeld :: "requestIDBuf list"
  idReads :: nat
  idServed :: "string list"

definition takeNth :: "nat \<Rightarrow> 'a list \<Rightarrow> 'a list" where
  "takeNth i xs = take i xs @ drop (Suc i) xs"

inductive drawing :: "(nat \<Rightarrow> string) \<Rightarrow> idPool \<Rightarrow> bool" for rand where
  empty: "drawing rand \<lparr>idFree = [], idHeld = [], idReads = 0, idServed = []\<rparr>"
| fresh: "drawing rand p \<Longrightarrow> drawing rand (p\<lparr>idHeld := newExhaustedRequestIDBuf # idHeld p\<rparr>)"
| get: "drawing rand p \<Longrightarrow> i < length (idFree p)
    \<Longrightarrow> drawing rand (p\<lparr>idFree := takeNth i (idFree p), idHeld := idFree p ! i # idHeld p\<rparr>)"
| put: "drawing rand p \<Longrightarrow> i < length (idHeld p) \<Longrightarrow> drawID rand (idHeld p ! i) (idReads p) = (raw, buf, n)
    \<Longrightarrow> drawing rand (p\<lparr>idHeld := takeNth i (idHeld p), idFree := buf # idFree p, idReads := n,
                       idServed := raw # idServed p\<rparr>)"
| dropped: "drawing rand p \<Longrightarrow> i < length (idFree p)
    \<Longrightarrow> drawing rand (p\<lparr>idFree := takeNth i (idFree p)\<rparr>)"

section \<open>The middleware\<close>

text \<open>\<open>raw\<close> is what \<open>nextRandomID\<close> returns if the request calls it.\<close>

definition requestID :: "string \<Rightarrow> 'w middleware" where
  "requestID raw next r w =
     (let inbound = (case rHeader r ''X-Request-Id'' of Some (v # vs) \<Rightarrow> v | _ \<Rightarrow> []);
          ident = (if validRequestID inbound then inbound else hexEncode raw)
      in next (withContext r (ValueCtx (requestContext r) RequestIDKey (TextVal ident)))
           (setHeader ''X-Request-Id'' [ident] w))"

definition getRequestID :: "ctx \<Rightarrow> string" where
  "getRequestID c = (case contextValue RequestIDKey c of Some (TextVal s) \<Rightarrow> s | _ \<Rightarrow> [])"

section \<open>Each block of random bytes is served once\<close>

text \<open>Block o of the k-th read.\<close>

definition block :: "(nat \<Rightarrow> string) \<Rightarrow> nat \<times> nat \<Rightarrow> string" where
  "block rand ko = take 16 (drop (16 * snd ko) (rand (fst ko)))"

text \<open>
  A buffer is used up, or holds one read of which the first blocks are used; no two buffers hold
  the same read, and the blocks that were served are different.
\<close>

definition idBufOK :: "(nat \<Rightarrow> string) \<Rightarrow> nat \<Rightarrow> (nat \<times> nat) list \<Rightarrow> requestIDBuf \<Rightarrow> bool" where
  "idBufOK rand reads served b \<longleftrightarrow>
     (case idRead b of
        None \<Rightarrow> idOff b + 16 > requestIDBufSize
      | Some k \<Rightarrow> k < reads \<and> idBytes b = rand k
          \<and> (\<exists>u. idOff b = 16 * u \<and> (\<forall>v. (k, v) \<in> set served \<longrightarrow> v < u)))"

definition poolOK :: "(nat \<Rightarrow> string) \<Rightarrow> idPool \<Rightarrow> (nat \<times> nat) list \<Rightarrow> bool" where
  "poolOK rand p served \<longleftrightarrow>
     (\<forall>b \<in> set (idHeld p @ idFree p). idBufOK rand (idReads p) served b)
     \<and> (\<forall>k. countIf (\<lambda>b. idRead b = Some k) (idHeld p @ idFree p) \<le> 1)
     \<and> idServed p = map (block rand) served \<and> distinct served
     \<and> set served \<subseteq> {..<idReads p} \<times> {..<256}"

lemma takeNth_set: "set (takeNth i xs) \<subseteq> set xs"
  by (auto simp: takeNth_def dest: in_set_takeD in_set_dropD)

lemma takeNth_count:
  "i < length xs \<Longrightarrow> countIf P (takeNth i xs) + (if P (xs ! i) then 1 else 0) = countIf P xs"
  unfolding takeNth_def by (rule countIf_take_drop)

text \<open>One draw: a block that had not been served, of the read the buffer now holds.\<close>

lemma drawID_block:
  assumes "drawID rand b reads = (raw, b', n)" "idBufOK rand reads served b" "set served \<subseteq> {..<reads} \<times> {..<256}"
  obtains k u where "raw = block rand (k, u)" "(k, u) \<notin> set served" "k < n" "u < 256" "reads \<le> n"
    "idBufOK rand n ((k, u) # served) b'" "idRead b' = Some k" "idRead b = Some k \<or> k = reads"
proof (cases "idOff b + 16 > requestIDBufSize")
  case True
  then have d: "raw = block rand (reads, 0)" "n = reads + 1"
      "b' = b\<lparr>idBytes := rand reads, idOff := 16, idRead := Some reads\<rparr>"
    using assms(1) by (auto simp: drawID_def Let_def block_def)
  have "(reads, v) \<notin> set served" for v using assms(3) by auto
  then show thesis using that [of reads 0] d by (auto simp: idBufOK_def intro!: exI [of _ 1])
next
  case False
  then obtain k u where b: "idRead b = Some k" "k < reads" "idBytes b = rand k" "idOff b = 16 * u"
      "\<forall>v. (k, v) \<in> set served \<longrightarrow> v < u"
    using assms(2) by (auto simp: idBufOK_def split: option.splits)
  have d: "raw = block rand (k, u)" "n = reads" "b' = b\<lparr>idOff := 16 * (u + 1)\<rparr>"
    using assms(1) False b by (auto simp: drawID_def Let_def block_def)
  have "(k, u) \<notin> set served" using b(5) by blast
  moreover have "idBufOK rand n ((k, u) # served) b'"
    using b d by (auto simp: idBufOK_def intro!: exI [of _ "u + 1"] intro: less_SucI)
  moreover have "u < 256" using False b by (simp add: requestIDBufSize_def)
  ultimately show thesis using that [of k u] d b by simp
qed

lemma idBufOK_other:
  assumes "idBufOK rand reads served b" "reads \<le> n" "idRead b \<noteq> Some k"
  shows "idBufOK rand n ((k, u) # served) b"
  using assms by (auto simp: idBufOK_def split: option.splits)

lemma poolOK_put:
  assumes P: "poolOK rand p served" and i: "i < length (idHeld p)"
    and d: "drawID rand (idHeld p ! i) (idReads p) = (raw, buf, n)"
  shows "\<exists>kv. poolOK rand (p\<lparr>idHeld := takeNth i (idHeld p), idFree := buf # idFree p, idReads := n,
      idServed := raw # idServed p\<rparr>) (kv # served)"
proof -
  have ok: "\<forall>b \<in> set (idHeld p @ idFree p). idBufOK rand (idReads p) served b"
    and one: "\<And>k. countIf (\<lambda>b. idRead b = Some k) (idHeld p @ idFree p) \<le> 1"
    and s: "idServed p = map (block rand) served" "distinct served" "set served \<subseteq> {..<idReads p} \<times> {..<256}"
    using P by (simp_all add: poolOK_def)
  have "idBufOK rand (idReads p) served (idHeld p ! i)" using ok i by simp
  from drawID_block [OF d this s(3)] obtain k u where ku:
    "raw = block rand (k, u)" "(k, u) \<notin> set served" "k < n" "u < 256" "idReads p \<le> n"
    "idBufOK rand n ((k, u) # served) buf" "idRead buf = Some k" "idRead (idHeld p ! i) = Some k \<or> k = idReads p" .
  let ?rest = "takeNth i (idHeld p) @ idFree p"
  have c: "countIf P ?rest + (if P (idHeld p ! i) then 1 else 0) = countIf P (idHeld p @ idFree p)" for P
    using takeNth_count [OF i, of P] by simp
  have new: "countIf (\<lambda>b. idRead b = Some k) ?rest = 0"
  proof (cases "idRead (idHeld p ! i) = Some k")
    case True
    then show ?thesis using c [of "\<lambda>b. idRead b = Some k"] one [of k] by simp
  next
    case False
    then have "k = idReads p" using ku(8) by simp
    then have "idRead b \<noteq> Some k" if "b \<in> set (idHeld p @ idFree p)" for b
      using ok that by (fastforce simp: idBufOK_def)
    then have "countIf (\<lambda>b. idRead b = Some k) (idHeld p @ idFree p) = 0" by (intro countIf_none) blast
    then show ?thesis using c [of "\<lambda>b. idRead b = Some k"] by simp
  qed
  have sub: "set ?rest \<subseteq> set (idHeld p @ idFree p)" using takeNth_set [of i "idHeld p"] by auto
  have rest: "idBufOK rand n ((k, u) # served) b" if "b \<in> set ?rest" for b
    by (rule idBufOK_other) (use that sub ok ku(5) new in \<open>auto simp: countIf_zero\<close>)
  have cnt: "countIf (\<lambda>b. idRead b = Some j) (takeNth i (idHeld p) @ buf # idFree p) \<le> 1" for j
    using c [of "\<lambda>b. idRead b = Some j"] one [of j] new ku(7) by (cases "j = k") (auto split: if_splits)
  have "poolOK rand (p\<lparr>idHeld := takeNth i (idHeld p), idFree := buf # idFree p, idReads := n,
      idServed := raw # idServed p\<rparr>) ((k, u) # served)"
    using rest ku cnt s by (auto simp: poolOK_def)
  then show ?thesis by blast
qed

lemma poolOK_fewer:
  assumes "poolOK rand p served" "idReads p' = idReads p" "idServed p' = idServed p"
    and "set (idHeld p' @ idFree p') \<subseteq> set (idHeld p @ idFree p)"
    and "\<And>Q. countIf Q (idHeld p' @ idFree p') \<le> countIf Q (idHeld p @ idFree p)"
  shows "poolOK rand p' served"
proof -
  have "countIf (\<lambda>b. idRead b = Some k) (idHeld p' @ idFree p') \<le> 1" for k
    using assms(1) le_trans [OF assms(5)] unfolding poolOK_def by blast
  then show ?thesis using assms(1-4) unfolding poolOK_def by auto
qed

lemma drawing_OK: "drawing rand p \<Longrightarrow> \<exists>served. poolOK rand p served"
proof (induction rule: drawing.induct)
  case empty
  then show ?case by (auto simp: poolOK_def)
next
  case (fresh p)
  then obtain served where "poolOK rand p served" by blast
  then have "poolOK rand (p\<lparr>idHeld := newExhaustedRequestIDBuf # idHeld p\<rparr>) served"
    by (auto simp: poolOK_def idBufOK_def newExhaustedRequestIDBuf_def)
  then show ?case by blast
next
  case (get p i)
  then obtain served where P: "poolOK rand p served" by blast
  have "poolOK rand (p\<lparr>idFree := takeNth i (idFree p), idHeld := idFree p ! i # idHeld p\<rparr>) served"
  proof (rule poolOK_fewer [OF P])
    fix Q
    show "countIf Q (idHeld (p\<lparr>idFree := takeNth i (idFree p), idHeld := idFree p ! i # idHeld p\<rparr>)
        @ idFree (p\<lparr>idFree := takeNth i (idFree p), idHeld := idFree p ! i # idHeld p\<rparr>))
      \<le> countIf Q (idHeld p @ idFree p)"
      using takeNth_count [OF get.hyps(2), of Q] by simp
  qed (use get.hyps(2) takeNth_set [of i "idFree p"] in auto)
  then show ?case by blast
next
  case (put p i raw buf n)
  then show ?case using poolOK_put by blast
next
  case (dropped p i)
  then obtain served where P: "poolOK rand p served" by blast
  have "poolOK rand (p\<lparr>idFree := takeNth i (idFree p)\<rparr>) served"
  proof (rule poolOK_fewer [OF P])
    fix Q
    show "countIf Q (idHeld (p\<lparr>idFree := takeNth i (idFree p)\<rparr>) @ idFree (p\<lparr>idFree := takeNth i (idFree p)\<rparr>))
      \<le> countIf Q (idHeld p @ idFree p)"
      using takeNth_count [OF dropped.hyps(2), of Q] by simp
  qed (use takeNth_set [of i "idFree p"] in auto)
  then show ?case by blast
qed

section \<open>Generated identifiers are valid\<close>

lemma hexByte_valid: "list_all idByte (hexByte c) \<and> length (hexByte c) = 2"
proof -
  have h: "n < 16 \<Longrightarrow> idByte (lowerHex n)" for n
  proof -
    have "\<forall>n < 16. idByte (lowerHex n)" by code_simp
    then show "n < 16 \<Longrightarrow> idByte (lowerHex n)" by blast
  qed
  have "byteOf c < 256" by (simp add: byteOf_def)
  then have "byteOf c div 16 < 16" by (simp add: less_mult_imp_div_less)
  then show ?thesis using h by (simp add: hexByte_def)
qed

lemma hexEncode_valid: "s \<noteq> [] \<Longrightarrow> length s \<le> 64 \<Longrightarrow> validRequestID (hexEncode s)"
proof -
  have "list_all idByte (hexEncode s) \<and> length (hexEncode s) = 2 * length s" for s
  proof (induction s)
    case (Cons c s)
    then show ?case using hexByte_valid [of c] by (simp add: hexEncode_def)
  qed (simp add: hexEncode_def)
  then show "s \<noteq> [] \<Longrightarrow> length s \<le> 64 \<Longrightarrow> validRequestID (hexEncode s)" by (simp add: validRequestID_def)
qed

end
