(* ===== verification/HeaderMiddleware.thy ===== *)
theory HeaderMiddleware
  imports MiddlewareBase
begin

text \<open>
  The middleware that adds to the response header or to the request context and passes every
  request on: \<open>SetHeader\<close>, \<open>NoCache\<close>, \<open>WithValue\<close> and \<open>Timeout\<close> of the middleware package. The
  one-element slices that hold the values are fresh for each request, so values are lists.
\<close>

section \<open>SetHeader and NoCache\<close>

definition containsCRLF :: "string \<Rightarrow> bool" where
  "containsCRLF s \<longleftrightarrow> carriageReturn \<in> set s \<or> lineFeed \<in> set s"

definition setHeaderMW :: "string \<Rightarrow> string \<Rightarrow> goPanic + 'w middleware" where
  "setHeaderMW key v =
     (if containsCRLF key
      then Inl (BadConfig (''middleware: SetHeader key contains CR or LF: '' @ quoteToASCII key))
      else if containsCRLF v
      then Inl (BadConfig (''middleware: SetHeader value contains CR or LF: '' @ quoteToASCII v))
      else Inr (\<lambda>next r w. next r (setHeader (canonicalHeaderKey key) [v] w)))"

definition noCacheHeaders :: "(string \<times> string) list" where
  "noCacheHeaders =
     [(''Cache-Control'', ''no-store, no-cache, must-revalidate''),
      (''Pragma'', ''no-cache''),
      (''Expires'', ''0''),
      (''Surrogate-Control'', ''no-store''),
      (''X-Accel-Expires'', ''0'')]"

definition noCache :: "'w middleware" where
  "noCache next r w = next r (fold (\<lambda>(k, v). setHeader k [v]) noCacheHeaders w)"

section \<open>WithValue and Timeout\<close>

text \<open>A nil key is None. The warning about keys of kind string is only logged.\<close>

definition withValue :: "ctxKey option \<Rightarrow> ctxValue \<Rightarrow> goPanic + 'w middleware" where
  "withValue key val =
     (case key of
        None \<Rightarrow> Inl (BadConfig ''middleware: WithValue key must not be nil'')
      | Some k \<Rightarrow> Inr (\<lambda>next r w. next (withContext r (ValueCtx (requestContext r) k val)) w))"

fun deadlineOf :: "ctx \<Rightarrow> int option" where
  "deadlineOf Background = None"
| "deadlineOf (RequestCtx1 c pat p) = deadlineOf c"
| "deadlineOf (RequestCtx2 c pat p q) = deadlineOf c"
| "deadlineOf (RequestCtx c ps pat) = deadlineOf c"
| "deadlineOf (MountPrefixCtx c pre) = deadlineOf c"
| "deadlineOf (RedirectCtx c t k) = deadlineOf c"
| "deadlineOf (ValueCtx c k v) = deadlineOf c"
| "deadlineOf (TimerCtx c d) = Some d"

text \<open>\<open>context.WithTimeout\<close>: an earlier deadline of the parent stays, in a layer without one.\<close>

definition withTimeout :: "int \<Rightarrow> int \<Rightarrow> ctx \<Rightarrow> ctx" where
  "withTimeout now d c =
     (case deadlineOf c of
        Some cur \<Rightarrow> if cur < now + d then c else TimerCtx c (now + d)
      | None \<Rightarrow> TimerCtx c (now + d))"

text \<open>\<open>now\<close> is the clock at the request.\<close>

definition timeout :: "int \<Rightarrow> int \<Rightarrow> goPanic + 'w middleware" where
  "timeout d now =
     (if d \<le> 0 then Inl (BadConfig ''middleware: Timeout duration must be positive'')
      else Inr (\<lambda>next r w. next (withContext r (withTimeout now d (requestContext r))) w))"

lemma withTimeout_deadline:
  "deadlineOf (withTimeout now d c)
   = Some (case deadlineOf c of Some e \<Rightarrow> min e (now + d) | None \<Rightarrow> now + d)"
  by (auto simp: withTimeout_def split: option.splits)

lemma withTimeout_value: "contextValue k (withTimeout now d c) = contextValue k c"
  by (auto simp: withTimeout_def split: option.splits)

lemma noCache_headers:
  "wHeader (fold (\<lambda>(k, v). setHeader k [v]) noCacheHeaders w) k
   = (case map_of noCacheHeaders k of Some v \<Rightarrow> Some [v] | None \<Rightarrow> wHeader w k)"
  by (simp add: noCacheHeaders_def setHeader_def)

end
