(* ===== verification/ResponseProperties.thy ===== *)
theory ResponseProperties
  imports CompressSafe LogLine Cors RequestPath RequestIdent HeaderMiddleware
begin

text \<open>
  The properties of the middleware that wraps the response or rewrites the request, with concrete
  instances: Compress, Recoverer, Logger, CORS, CleanPath, StripSlashes and RequestID.
\<close>

section \<open>Compress\<close>

definition openResponse :: "unit rw" where
  "openResponse = \<lparr>wHeader = Map.empty, wSent = None, wBody = [], wWorld = ()\<rparr>"

lemma openResponse_status: "statusOf openResponse = None"
  by (simp add: openResponse_def statusOf_def)

text \<open>
  C35. Compression is transparent. For any calls of the handler that leave Content-Encoding alone, on a
  response that nothing has been sent on, the client gets the status it would get without the
  middleware and, after decompressing exactly when the header says gzip, the same body, whatever the
  sizes of the writes, the flushes between them and the moment of the decision; a panic passes through;
  and the wrapper never buffers more than 8192 bytes.
\<close>

theorem compress_transparent:
  assumes "decodes gz gunzip" and "contains (headerGet (rHeader r) ''Accept-Encoding'') ''gzip''"
    and "\<forall>c\<in>set cs. callOK c" and "wSent w = None" and "wBody w = []" and "wHeader w contentEncoding = None"
    and "compressServe gz netOps r (cs, res) w = (out, res')"
  shows "res' = res \<and> statusOf (finishRequest out) = statusOf (finishRequest (runCalls netOps cs w))
    \<and> clientBody gunzip (finishRequest out) = Some (wBody (runCalls netOps cs w))
    \<and> (\<forall>n. length (grBuf (runCalls (gzipOps gz netOps) (take n cs) (newGzipWriter w))) \<le> 8192)"
proof -
  let ?g = "runCalls (gzipOps gz netOps) cs (newGzipWriter w)" and ?p = "runCalls netOps cs w"
  have out: "out = grInner (gzipClose gz netOps ?g)" "res' = res"
    using assms(2,7) by (simp_all add: compressServe_def)
  have sim: "simulates gz ?g ?p" using calls_simulate[OF new_simulates[OF assms(4-6)] assms(3)] .
  note C = close_simulates[OF sim assms(1), folded out(1)]
  have "length (grBuf (runCalls (gzipOps gz netOps) (take n cs) (newGzipWriter w))) \<le> 8192" for n
    using calls_buffer[of "newGzipWriter w" gz netOps "take n cs"] by (simp add: newGzipWriter_def sniffBufSize_def)
  moreover have "statusOf (finishRequest ?p) \<noteq> None"
    by (simp add: finishRequest_def statusOf_writeHeader split: option.splits)
  ultimately show ?thesis
    using C out(2) by (auto simp: finishRequest_def clientBody_def statusOf_writeHeader)
qed

text \<open>A compressor for the examples: every byte becomes itself and a mark, and the end another mark.\<close>

definition demoCodec :: "unit gzipCodec" where
  "demoCodec = \<lparr>gzReset = (), gzWrite = (\<lambda>b z. (z, concat (map (\<lambda>c. [CHR ''b'', c]) b))), gzFlush = (\<lambda>z. (z, ''f'')),
     gzClose = (\<lambda>z. ''e'')\<rparr>"

fun demoGunzip :: "string \<Rightarrow> string option" where
  "demoGunzip [] = None"
| "demoGunzip (c # s) =
     (if c = CHR ''e'' then Some [] else if c = CHR ''f'' then demoGunzip s
      else case s of [] \<Rightarrow> None | d # s1 \<Rightarrow> map_option (Cons d) (demoGunzip s1))"

lemma demoGunzip_marked:
  "demoGunzip (concat (map (\<lambda>c. [CHR ''b'', c]) b) @ v) = map_option ((@) b) (demoGunzip v)"
  by (induction b) (simp_all add: option.map_comp comp_def option.map_ident)

lemma demo_decodes: "decodes demoCodec demoGunzip"
proof -
  have "streams demoCodec z i u \<Longrightarrow> demoGunzip (u @ v) = map_option ((@) i) (demoGunzip v)" for z i u v
  proof (induction arbitrary: v rule: streams.induct)
    case (written z i u b z' out)
    then show ?case
      by (auto simp: demoCodec_def demoGunzip_marked option.map_comp comp_def)
  qed (auto simp: demoCodec_def option.map_comp comp_def option.map_ident append_Nil[abs_def] cong: map_option_cong)
  then show ?thesis by (auto simp: decodes_def demoCodec_def)
qed

definition gzipRequest :: request where
  "gzipRequest = \<lparr>rMethod = ''GET'', rURL = \<lparr>uPath = ''/'', uRawPath = [], uRawQuery = []\<rparr>,
     rHeader = [''Accept-Encoding'' \<mapsto> [''gzip'']], rCtx = None, rRemoteAddr = [], rHost = []\<rparr>"

lemma gzipRequest_logged:
  "sanitiseForLog (rMethod gzipRequest) = ''GET''" "sanitiseForLog (uPath (rURL gzipRequest)) = ''/''"
proof -
  have "list_all plainByte ''GET''" "list_all plainByte ''/''" by code_simp+
  then show "sanitiseForLog (rMethod gzipRequest) = ''GET''" "sanitiseForLog (uPath (rURL gzipRequest)) = ''/''"
    by (simp_all only: sanitiseForLog_body quoteBody_plain gzipRequest_def request.select_convs url.select_convs)
qed

theorem compress_transparent_witness:
  "\<exists>out. compressServe demoCodec netOps gzipRequest
       ([CallWriteHeader 404, CallWrite (replicate 2000 (CHR ''x'')), CallFlush, CallWrite ''y''], None) openResponse = (out, None)
     \<and> clientBody demoGunzip (finishRequest out) = Some (replicate 2000 (CHR ''x'') @ ''y'')
     \<and> statusOf (finishRequest out) = Some 404"
proof -
  let ?cs = "[CallWriteHeader 404, CallWrite (replicate 2000 (CHR ''x'')), CallFlush, CallWrite ''y'']"
  have req: "contains (headerGet (rHeader gzipRequest) ''Accept-Encoding'') ''gzip''" by code_simp
  have ok: "\<forall>c\<in>set ?cs. callOK c" by simp
  have new: "wSent openResponse = None" "wBody openResponse = []" "wHeader openResponse contentEncoding = None"
    by (simp_all add: openResponse_def)
  obtain out res where run: "compressServe demoCodec netOps gzipRequest (?cs, None) openResponse = (out, res)"
    by fastforce
  have plain: "wBody (runCalls netOps ?cs openResponse) = replicate 2000 (CHR ''x'') @ ''y''"
    "statusOf (finishRequest (runCalls netOps ?cs openResponse)) = Some 404"
    by (simp_all add: runCalls_def finishRequest_def statusOf_writeHeader statusOf_writeBody informational_def
        openResponse_status new)
  show ?thesis using compress_transparent[OF demo_decodes req ok new run] plain run by auto
qed

section \<open>Recoverer\<close>

text \<open>
  C36. Panics are answered. On a response that nothing has been sent on, Recoverer changes nothing if
  the handler returns; if it panics, exactly one record is logged, with a method and a path of printable
  ASCII only, and the client gets status 500 with its text alone, unless
  the handler had already sent a status, written or flushed: then the response stays as it was.
\<close>

theorem recoverer_answers_panics:
  assumes "wSent w = None"
    and "recovererServe netOps r (\<lambda>sw. (runCalls (recovererOps netOps) cs sw, res)) w = (out, logged)"
  shows "(res = None \<longrightarrow> out = runCalls netOps cs w \<and> logged = [])
    \<and> (\<forall>rcv. res = Some rcv \<longrightarrow>
        logged = [(rcv, sanitiseForLog (rMethod r), sanitiseForLog (uPath (rURL r)))]
        \<and> list_all printable (sanitiseForLog (rMethod r) @ sanitiseForLog (uPath (rURL r)))
        \<and> (statusOf (runCalls netOps cs w) \<noteq> None \<longrightarrow> out = runCalls netOps cs w)
        \<and> (statusOf (runCalls netOps cs w) = None \<longrightarrow>
            statusOf out = Some 500 \<and> wBody out = wBody w @ ''Internal Server Error'' @ newline))"
proof -
  let ?sw = "runCalls (recovererOps netOps) cs \<lparr>rcInner = w, rcStarted = False\<rparr>" and ?p = "runCalls netOps cs w"
  have none: "statusOf w = None" using assms(1) by (simp add: statusOf_def)
  have sw: "rcInner ?sw = ?p" "rcStarted ?sw \<longleftrightarrow> statusOf ?p \<noteq> None"
    using recoverer_calls[of "\<lparr>rcInner = w, rcStarted = False\<rparr>" w cs] none by simp_all
  have err: "rcInner (runCalls (recovererOps netOps) es ?sw) = runCalls netOps es ?p" for es
    using recoverer_calls[OF sw] by blast
  have body: "statusOf (runCalls netOps ds v) = None \<Longrightarrow> wBody (runCalls netOps ds v) = wBody v" for ds v
  proof (induction ds arbitrary: v)
    case (Cons d ds)
    then show ?case
      using Cons.IH[of "doCall netOps d v"] net_status[of "d # ds" v]
      by (cases d) (auto simp: runCalls_def netOps_def informational_def statusOf_def split: if_splits option.splits)
  qed (simp add: runCalls_def)
  have five: "statusOf (runCalls netOps (errorCalls (statusText 500) 500) ?p) = Some 500
      \<and> wBody (runCalls netOps (errorCalls (statusText 500) 500) ?p) = wBody w @ ''Internal Server Error'' @ newline"
    if "statusOf ?p = None"
  proof -
    have "statusText 500 = ''Internal Server Error''" by code_simp
    then show ?thesis using that body[of cs w]
      by (simp add: runCalls_def errorCalls_def statusOf_writeBody statusOf_writeHeader informational_def)
  qed
  have clear: "list_all printable (sanitiseForLog s @ sanitiseForLog t)" for s t
    using printable_sanitised by (auto simp: list_all_iff)
  show ?thesis
    using assms(2) sw err[of "errorCalls (statusText 500) 500"] five clear
    by (cases res) (auto simp: recovererServe_def split: if_splits)
qed

theorem recoverer_answers_panics_witness:
  "\<exists>out. recovererServe netOps gzipRequest
       (\<lambda>sw. (runCalls (recovererOps netOps) [SetHeaderTo ''X'' [''1'']] sw, Some NilDereference)) openResponse
     = (out, [(NilDereference, ''GET'', ''/'')]) \<and> statusOf out = Some 500 \<and> wBody out = ''Internal Server Error'' @ newline"
proof -
  have new: "wSent openResponse = None" "wBody openResponse = []" by (simp_all add: openResponse_def)
  obtain out logged where run: "recovererServe netOps gzipRequest
      (\<lambda>sw. (runCalls (recovererOps netOps) [SetHeaderTo ''X'' [''1'']] sw, Some NilDereference)) openResponse = (out, logged)"
    by fastforce
  have "statusOf (runCalls netOps [SetHeaderTo ''X'' [''1'']] openResponse) = None"
    by (simp add: runCalls_def statusOf_def new)
  then show ?thesis using recoverer_answers_panics[OF new(1) run] run new(2) gzipRequest_logged by auto
qed

text \<open>
  Under Compress the promise is lost for a handler that panics before any output: the deferred close of
  the compressor decides, writes an empty body and so starts the response, and Recoverer outside it
  leaves an empty 200.
\<close>

lemma compress_hides_panic:
  assumes "wSent w = None" and "contains (headerGet (rHeader r) ''Accept-Encoding'') ''gzip''"
  shows "\<exists>out. recovererServe netOps r (compressServe gz (recovererOps netOps) r ([], Some e)) w
       = (out, [(e, sanitiseForLog (rMethod r), sanitiseForLog (uPath (rURL r)))])
     \<and> statusOf out = Some 200 \<and> wBody out = wBody w"
proof -
  have m: "minCompressSize > 0" by (simp add: minCompressSize_def)
  have none: "statusOf v = None" if "wHeader v = h" "wSent v = None" for v :: "'a rw" and h
    using that by (simp add: statusOf_def)
  show ?thesis using assms m
    by (simp add: recovererServe_def compressServe_def gzipClose_def commit_def newGzipWriter_def runCalls_def Let_def
        recovererOps_def forwardStatus_def statusOf_writeBody statusOf_writeHeader none)
qed

section \<open>Logger\<close>

text \<open>
  C37. Logger writes one line and the status that was sent. The response is that of the handler without
  the middleware; the line is the time stamp, the sanitised method and path, a status and the duration;
  if the stamp has no control bytes, the line has none but its final line feed, so no request can forge
  a second line; the duration takes at most the 32 bytes of its buffer; and the status is the one the
  client gets, provided that a final status that the handler sets comes before its output.
\<close>

theorem logger_records_status:
  assumes "wSent w = None"
    and "loggerServe netOps stamp d r (\<lambda>rec'. (runCalls (recorderOps netOps) cs rec', None)) w = (out, res, line)"
    and "firstSome finalStatus cs = None \<or> firstSome finalStatus cs = firstSome implicitStatus cs"
    and "list_all visible stamp"
  shows "out = runCalls netOps cs w \<and> res = None
    \<and> (\<exists>text status. line = Some (text @ newline) \<and> list_all visible text
        \<and> text = stamp @ '' '' @ sanitiseForLog (rMethod r) @ '' '' @ sanitiseForLog (uPath (rURL r)) @ '' ''
             @ decimal status @ '' '' @ formatLogDuration d
        \<and> statusOf (finishRequest out) = Some status)
    \<and> length (formatLogDuration d) \<le> 32"
proof -
  let ?rec = "runCalls (recorderOps netOps) cs (newStatusRecorder w)"
  have rec: "srInner ?rec = runCalls netOps cs w"
    "srStatus ?rec = (case firstSome finalStatus cs of None \<Rightarrow> 200 | Some c \<Rightarrow> c)"
    using recorder_calls[of netOps cs "newStatusRecorder w"]
    by (simp_all add: newStatusRecorder_def split: option.splits)
  have out: "out = runCalls netOps cs w" "res = None" "line = Some (logLine stamp r (srStatus ?rec) d)"
    using assms(2) rec(1) by (auto simp: loggerServe_def)
  have "statusOf (runCalls netOps cs w) = firstSome implicitStatus cs"
    using net_status[of cs w] assms(1) by (simp add: statusOf_def)
  moreover have "firstSome finalStatus cs = None \<Longrightarrow> firstSome implicitStatus cs \<in> {None, Some 200}"
    by (induction cs) (auto split: option.splits elim: implicitStatus.elims)
  ultimately have st: "statusOf (finishRequest out) = Some (srStatus ?rec)"
    using assms(3) rec(2) out(1) by (auto simp: finishRequest_def statusOf_writeHeader split: option.splits)
  let ?text = "stamp @ '' '' @ sanitiseForLog (rMethod r) @ '' '' @ sanitiseForLog (uPath (rURL r)) @ '' ''
             @ decimal (srStatus ?rec) @ '' '' @ formatLogDuration d"
  have "logLine stamp r (srStatus ?rec) d = ?text @ newline"
    by (simp add: logLine_def Let_def appendSanitisedForLog_same appendLogDuration_def)
  moreover have "list_all visible ?text"
    using assms(4) visible_duration[of d] visible_printable[OF printable_sanitised]
      visible_printable[OF printable_decimal] by (simp add: visible_def byteOf_def)
  ultimately show ?thesis using out st formatLogDuration_fits[of d] by auto
qed

theorem logger_records_status_witness:
  "\<exists>out. loggerServe netOps ''now'' 1500000 gzipRequest
      (\<lambda>rec'. (runCalls (recorderOps netOps) [CallWriteHeader 404, CallWrite ''x''] rec', None)) openResponse
     = (out, None, Some (''now GET / 404 1.5ms'' @ newline)) \<and> statusOf (finishRequest out) = Some 404"
proof -
  have new: "wSent openResponse = None" by (simp add: openResponse_def)
  have cs: "firstSome finalStatus [CallWriteHeader 404, CallWrite ''x'']
      = firstSome implicitStatus [CallWriteHeader 404, CallWrite ''x'']" by (simp add: informational_def)
  have stamp: "list_all visible ''now''" by (simp add: visible_def byteOf_def)
  obtain out res line where run: "loggerServe netOps ''now'' 1500000 gzipRequest
      (\<lambda>rec'. (runCalls (recorderOps netOps) [CallWriteHeader 404, CallWrite ''x''] rec', None)) openResponse
      = (out, res, line)" by (metis surj_pair)
  note L = logger_records_status[OF new run disjI2[OF cs] stamp]
  have "statusOf (finishRequest out) = Some 404"
    using L by (simp add: runCalls_def finishRequest_def statusOf_writeHeader statusOf_writeBody informational_def
        openResponse_status)
  moreover have "decimal (Suc 0) = ''1''" "char_of (53 :: nat) = CHR ''5''" by code_simp+
  then have "formatLogDuration 1500000 = ''1.5ms''"
    by (simp add: formatLogDuration_def durationMagnitude_def formatMagnitude_def fmtFracLogDuration_def fracDigits_numeral
        Let_def fmtInt_decimal digitByte_def)
  moreover have "char_of (52 :: nat) = CHR ''4''" "char_of (48 :: nat) = CHR ''0''" by code_simp+
  then have "decimal 404 = ''404''"
    by (simp add: decimal.simps[of 404] decimal.simps[of 40] decimal.simps[of 4] digitChar_def)
  ultimately show ?thesis using L run gzipRequest_logged by auto
qed

text \<open>Otherwise the status in the log is not the one that was sent.\<close>

lemma logger_late_status:
  "\<exists>out. loggerServe netOps [] 0 gzipRequest
      (\<lambda>rec'. (runCalls (recorderOps netOps) [CallWrite ''x'', CallWriteHeader 404] rec', None)) openResponse
     = (out, None, Some (logLine [] gzipRequest 404 0)) \<and> statusOf out = Some 200"
  using recorder_calls[of netOps "[CallWrite ''x'', CallWriteHeader 404]" "newStatusRecorder openResponse"]
  by (auto simp: loggerServe_def newStatusRecorder_def informational_def runCalls_def statusOf_writeBody
      statusOf_writeHeader openResponse_status split: prod.splits)

section \<open>CORS\<close>

text \<open>
  C38. CORS grants exactly what the allow list says. Every request gets a Vary header with the token
  Origin, added only if none was there. An Origin that is malformed or not allowed is answered 400 or
  403 and never reaches the handler; an allowed one does, unless it is an OPTIONS request, which is
  answered 204. Access-Control-Allow-Origin is set exactly for allowed origins: to the origin itself
  or, if the list has the wildcard, to the wildcard; and credentials are never granted with the wildcard.
\<close>

theorem cors_grants_allow_list:
  assumes "cors opts = Inr mw" and "wSent w = None"
    and "wHeader w ''Access-Control-Allow-Origin'' = None" and "wHeader w ''Access-Control-Allow-Credentials'' = None"
    and "origin = headerGet (rHeader r) ''Origin''"
    and "allowed \<longleftrightarrow> origin \<noteq> [] \<and> isValidOrigin origin
           \<and> (''*'' \<in> set (allowedOrigins opts) \<or> origin \<in> set (allowedOrigins opts))"
  shows "\<exists>w1. mw next r w = (if origin \<noteq> [] \<and> (\<not> allowed \<or> rMethod r = ''OPTIONS'') then ok w1 else next r w1)
    \<and> statusOf w1 =
        (if origin = [] then None
         else if \<not> isValidOrigin origin then Some 400
         else if \<not> allowed then Some 403
         else if rMethod r = ''OPTIONS'' then Some 204 else None)
    \<and> originTokens (varyOf w1) = max 1 (originTokens (varyOf w))
    \<and> wHeader w1 ''Access-Control-Allow-Origin'' =
        (if allowed then Some [if ''*'' \<in> set (allowedOrigins opts) then ''*'' else origin] else None)
    \<and> wHeader w1 ''Access-Control-Allow-Credentials'' =
        (if allowed \<and> allowCredentials opts then Some [''true''] else None)
    \<and> (wHeader w1 ''Access-Control-Allow-Credentials'' \<noteq> None \<longrightarrow>
        wHeader w1 ''Access-Control-Allow-Origin'' = Some [origin])"
proof -
  have mw: "mw = corsServe opts" and check: "corsCheck opts = None"
    using assms(1) by (auto simp: cors_def split: option.splits)
  have star: "allowAll opts \<longleftrightarrow> ''*'' \<in> set (allowedOrigins opts)" by (auto simp: allowAll_def list_ex_iff)
  have safe: "allowCredentials opts \<Longrightarrow> ''*'' \<notin> set (allowedOrigins opts)"
    using check by (auto simp: corsCheck_def list_ex_iff split: if_splits)
  let ?w = "addVaryOrigin w"
  have keep: "statusOf ?w = None" "wHeader ?w ''Access-Control-Allow-Origin'' = None"
    "wHeader ?w ''Access-Control-Allow-Credentials'' = None"
    using assms(2-4) by (simp_all add: addVaryOrigin_def setHeader_def statusOf_def split: option.splits)
  have tok: "originTokens (varyOf v) = max 1 (originTokens (varyOf w))" if "wHeader v ''Vary'' = wHeader ?w ''Vary''"
    for v :: "'a rw" using addVaryOrigin_tokens[of w] that by (simp add: varyOf_def)
  have err: "statusOf (httpError m c ?w) = Some c" "wHeader (httpError m c ?w) ''Vary'' = wHeader ?w ''Vary''"
    "wHeader (httpError m c ?w) ''Access-Control-Allow-Origin'' = None"
    "wHeader (httpError m c ?w) ''Access-Control-Allow-Credentials'' = None" for m c
    using keep by (simp_all add: httpError_def setHeader_def delHeader_def statusOf_writeBody statusOf_writeHeader)
  let ?v = "corsAllowed opts origin ?w"
  have allow: "statusOf ?v = None" "wHeader ?v ''Vary'' = wHeader ?w ''Vary''"
    "wHeader ?v ''Access-Control-Allow-Origin'' = Some [if allowAll opts then ''*'' else origin]"
    "wHeader ?v ''Access-Control-Allow-Credentials'' = (if allowCredentials opts then Some [''true''] else None)"
    using keep by (simp_all add: corsAllowed_def corsHeader_def setHeader_def Let_def)
  have pre: "statusOf (corsPreflight opts ?v) = Some 204"
    "wHeader (corsPreflight opts ?v) k = wHeader ?v k"
    if "k \<in> {''Vary'', ''Access-Control-Allow-Origin'', ''Access-Control-Allow-Credentials''}" for k
    using that allow(1) by (auto simp: corsPreflight_def corsHeader_def setHeader_def statusOf_writeHeader)
  consider "origin = []" | "origin \<noteq> []" "\<not> isValidOrigin origin" | "origin \<noteq> []" "isValidOrigin origin" "\<not> allowed"
    | "allowed" "rMethod r = ''OPTIONS''" | "allowed" "rMethod r \<noteq> ''OPTIONS''" by blast
  then show ?thesis
  proof cases
    case 1
    then show ?thesis using assms(5,6) keep tok
      by (intro exI[of _ ?w]) (simp add: mw corsServe_def Let_def)
  next
    case 2
    then show ?thesis using assms(5,6) err tok[OF err(2)]
      by (intro exI[of _ "httpError ''Bad Request'' 400 ?w"]) (simp add: mw corsServe_def Let_def)
  next
    case 3
    then show ?thesis using assms(5,6) err tok[OF err(2)] star
      by (intro exI[of _ "httpError ''Forbidden'' 403 ?w"]) (simp add: mw corsServe_def Let_def)
  next
    case 4
    then show ?thesis using assms(5,6) pre allow tok[of "corsPreflight opts ?v"] star safe
      by (intro exI[of _ "corsPreflight opts ?v"]) (auto simp: mw corsServe_def Let_def)
  next
    case 5
    then show ?thesis using assms(5,6) allow tok[of ?v] star safe
      by (intro exI[of _ ?v]) (auto simp: mw corsServe_def Let_def)
  qed
qed

theorem cors_grants_allow_list_witness:
  "\<exists>mw w1. cors \<lparr>allowedOrigins = [''https://a''], allowedMethods = [], allowedHeaders = [], exposedHeaders = [],
        allowCredentials = True, corsMaxAge = 0\<rparr> = Inr mw
     \<and> mw (\<lambda>r. ok) (gzipRequest\<lparr>rHeader := [''Origin'' \<mapsto> [''https://a'']]\<rparr>) openResponse = ok w1
     \<and> wHeader w1 ''Access-Control-Allow-Origin'' = Some [''https://a''] \<and> originTokens (varyOf w1) = 1"
proof -
  let ?opts = "\<lparr>allowedOrigins = [''https://a''], allowedMethods = [], allowedHeaders = [], exposedHeaders = [],
        allowCredentials = True, corsMaxAge = 0\<rparr>" and ?r = "gzipRequest\<lparr>rHeader := [''Origin'' \<mapsto> [''https://a'']]\<rparr>"
  have mw: "cors ?opts = Inr (corsServe ?opts)" by (simp add: cors_def corsCheck_def)
  have new: "wSent openResponse = None" "wHeader openResponse k = None" for k by (simp_all add: openResponse_def)
  have origin: "''https://a'' = headerGet (rHeader ?r) ''Origin''" by code_simp
  have valid: "isValidOrigin ''https://a''" by code_simp
  have "originTokens (varyOf openResponse) = 0" by (simp add: varyOf_def new originTokens_def)
  moreover have "rMethod ?r \<noteq> ''OPTIONS''" by (simp add: gzipRequest_def)
  ultimately show ?thesis
    using cors_grants_allow_list[OF mw new(1) new(2) new(2) origin, of True "\<lambda>r. ok"] mw valid by auto
qed

section \<open>CleanPath and StripSlashes\<close>

text \<open>
  C39. Rewriting keeps the path and the raw path in step. If the raw path of a request is empty or
  decodes to its path, then so it is for the request that CleanPath or StripSlashes passes on; the cleaned
  path is \<open>path.Clean\<close> of the path, and the stripped one is the path without its trailing slashes, but
  never empty unless it was.
\<close>

theorem rewritten_paths_agree:
  assumes "pathsAgree (rURL r)"
  shows "pathsAgree (rURL (cleanPathRequest r)) \<and> pathsAgree (rURL (stripSlashesRequest r))
    \<and> uPath (rURL (cleanPathRequest r)) = pathClean (uPath (rURL r))
    \<and> (\<exists>n. uPath (rURL r) = uPath (rURL (stripSlashesRequest r)) @ replicate n (CHR ''/''))
    \<and> (uPath (rURL (stripSlashesRequest r)) = [] \<longleftrightarrow> uPath (rURL r) = [])
    \<and> (length (uPath (rURL (stripSlashesRequest r))) > 1 \<longrightarrow> last (uPath (rURL (stripSlashesRequest r))) \<noteq> CHR ''/'')"
proof -
  obtain q n where s: "stripLoop (uPath (rURL r)) 0 = (q, n)" by fastforce
  have q: "uPath (rURL (stripSlashesRequest r)) = q"
    using s by (auto simp: stripSlashesRequest_def withPath_def Let_def)
  have c: "uPath (rURL (cleanPathRequest r)) = pathClean (uPath (rURL r))"
    by (simp add: cleanPathRequest_def withPath_def Let_def)
  have "pathsAgree (rURL (cleanPathRequest r))"
  proof (cases "pathClean (uPath (rURL r)) = uPath (rURL r) \<and> uRawPath (rURL r) = []")
    case False
    define p raw where "p = pathClean (uPath (rURL r))" and "raw = uRawPath (rURL r)"
    have "cleanedRawPath p raw = [] \<or> pathUnescape (cleanedRawPath p raw) = Some p"
      using assms cleanedRawPath_cases[of p raw] by (auto simp: pathsAgree_def raw_def)
    moreover have "rURL (cleanPathRequest r) = (rURL r)\<lparr>uPath := p, uRawPath := cleanedRawPath p raw\<rparr>"
      unfolding cleanPathRequest_def withPath_def Let_def p_def raw_def using False by (simp only: if_False) simp
    ultimately show ?thesis unfolding pathsAgree_def by simp
  next
    case True
    then have "cleanPathRequest r = r" unfolding cleanPathRequest_def Let_def by (rule if_P)
    then show ?thesis using assms by (simp only:)
  qed
  then show ?thesis using stripSlashes_agrees[OF assms] stripLoop_shape[OF s] unfolding q c by blast
qed

theorem rewritten_paths_agree_witness:
  "uPath (rURL (stripSlashesRequest (gzipRequest\<lparr>rURL := \<lparr>uPath = ''/a//'', uRawPath = ''/%61%2F/'', uRawQuery = []\<rparr>\<rparr>))) = ''/a''
   \<and> pathsAgree (rURL (stripSlashesRequest (gzipRequest\<lparr>rURL := \<lparr>uPath = ''/a//'', uRawPath = ''/%61%2F/'', uRawQuery = []\<rparr>\<rparr>)))"
proof -
  let ?r = "gzipRequest\<lparr>rURL := \<lparr>uPath = ''/a//'', uRawPath = ''/%61%2F/'', uRawQuery = []\<rparr>\<rparr>"
  have "pathUnescape ''/%61%2F/'' = Some ''/a//''" by code_simp
  then have "pathsAgree (rURL ?r)" by (simp add: pathsAgree_def gzipRequest_def)
  moreover have "stripLoop ''/a//'' 0 = (''/a'', 2)" by code_simp
  then have "uPath (rURL (stripSlashesRequest ?r)) = ''/a''" by (simp add: stripSlashesRequest_def withPath_def gzipRequest_def)
  ultimately show ?thesis using rewritten_paths_agree[of ?r] by blast
qed

section \<open>RequestID\<close>

text \<open>
  C40. Request identifiers. However the requests interleave, no block of random bytes is served twice:
  if the 256 blocks of the reads so far all differ, so do all identifiers served. A request carries a valid identifier,
  the same in the context and in the response header: the inbound one if that is valid, and otherwise a
  generated one. So an inbound value with other characters or over-long is replaced, where
  specification/middleware-stdlib.md (requirement 18) says that any inbound value is used.
\<close>

theorem request_ids_unique:
  assumes "drawing rand p" and "inj_on (block rand) ({..<idReads p} \<times> {..<256})" and "length raw = 16"
    and "inbound = (case rHeader r ''X-Request-Id'' of Some (v # vs) \<Rightarrow> v | _ \<Rightarrow> [])"
  shows "distinct (idServed p)
    \<and> (\<exists>ident. validRequestID ident \<and> (validRequestID inbound \<longrightarrow> ident = inbound)
        \<and> requestID raw (\<lambda>r1 w1. next (getRequestID (requestContext r1)) w1) r w
          = next ident (setHeader ''X-Request-Id'' [ident] w))"
proof -
  obtain served where "idServed p = map (block rand) served" "distinct served"
    "set served \<subseteq> {..<idReads p} \<times> {..<256}"
    using drawing_OK[OF assms(1)] by (auto simp: poolOK_def)
  then have "distinct (idServed p)" using assms(2) by (auto simp: distinct_map intro: inj_on_subset)
  moreover have "validRequestID (hexEncode raw)" using assms(3) by (intro hexEncode_valid) auto
  ultimately show ?thesis
    by (auto simp: requestID_def Let_def getRequestID_def withContext_def requestContext_def assms(4)[symmetric])
qed

text \<open>A read whose blocks all differ, and two requests that use the same buffer one after the other.\<close>

definition demoRead :: string where
  "demoRead = concat (map (\<lambda>i. replicate 16 (char_of i)) [0..<256])"

lemma concat_block:
  assumes "\<And>i. length (f i) = m" and "u < n"
  shows "take m (drop (m * u) (concat (map f [0..<n]))) = f u"
proof -
  have len: "length (concat (map f [0..<k])) = m * k" for k by (induction k) (simp_all add: assms(1))
  have "[0..<n] = [0..<u] @ u # [Suc u..<n]" 
    using upt_add_eq_append[of 0 u "n - u"] assms(2) by (simp add: upt_conv_Cons)
  then show ?thesis using len[of u] by (simp add: assms(1))
qed

lemma demoRead_block: "u < 256 \<Longrightarrow> block (\<lambda>n. demoRead) (k, u) = replicate 16 (char_of u)"
  unfolding block_def demoRead_def by (simp add: concat_block del: upt_conv_Cons upt_rec_numeral)

theorem request_ids_unique_witness:
  "\<exists>p. drawing (\<lambda>n. demoRead) p \<and> length (idServed p) = 2 \<and> distinct (idServed p)"
proof -
  let ?r = "\<lambda>n :: nat. demoRead"
  let ?b0 = newExhaustedRequestIDBuf
  define b1 where "b1 = ?b0\<lparr>idBytes := demoRead, idOff := 16, idRead := Some 0\<rparr>"
  define b2 where "b2 = b1\<lparr>idOff := 32\<rparr>"
  have d1: "drawID ?r ?b0 0 = (take 16 demoRead, b1, 1)"
    by (simp add: drawID_def newExhaustedRequestIDBuf_def b1_def)
  have d2: "drawID ?r b1 1 = (take 16 (drop 16 demoRead), b2, 1)"
    by (simp add: drawID_def newExhaustedRequestIDBuf_def b1_def b2_def requestIDBufSize_def)
  have "drawing ?r \<lparr>idFree = [], idHeld = [?b0], idReads = 0, idServed = []\<rparr>"
    using drawing.fresh[OF drawing.empty] by simp
  from drawing.put[OF this, of 0] d1
  have "drawing ?r \<lparr>idFree = [b1], idHeld = [], idReads = 1, idServed = [take 16 demoRead]\<rparr>"
    by (simp add: takeNth_def)
  from drawing.get[OF this, of 0]
  have "drawing ?r \<lparr>idFree = [], idHeld = [b1], idReads = 1, idServed = [take 16 demoRead]\<rparr>"
    by (simp add: takeNth_def)
  from drawing.put[OF this, of 0] d2
  have run: "drawing ?r \<lparr>idFree = [b2], idHeld = [], idReads = 1,
      idServed = [take 16 (drop 16 demoRead), take 16 demoRead]\<rparr>" (is "drawing _ ?p")
    by (simp add: takeNth_def)
  have "inj_on (block ?r) ({..<idReads ?p} \<times> {..<256})"
    by (auto simp: inj_on_def demoRead_block dest!: arg_cong[of _ _ "of_char :: char \<Rightarrow> nat"])
  then have "distinct (idServed ?p)"
    using conjunct1[OF request_ids_unique[OF run _ _ refl, of "replicate 16 (CHR ''a'')"]] by simp
  then show ?thesis using run by (intro exI[of _ ?p]) simp
qed

end
