(* ===== verification/Spec2Isabelle.thy ===== *)
theory Spec2Isabelle
  imports TreeProperties ServingProperties RequestProperties RegistrationProperties
    ThrottleProperties AuthProperties ResponseProperties
begin

text \<open>
  A verification development for MuxMaster, an HTTP router for Go.

  \<^bold>\<open>The program.\<close> A \<open>Mux\<close> keeps one radix tree per HTTP method (tree.go). Registration (Handle
  and its relatives in mux.go, groups in group.go) wraps a handler in the middleware added so far
  and inserts it under its pattern; the trees are published as an immutable array. ServeHTTP runs
  the Pre middleware and then \<open>dispatch\<close>, which looks the path up in the tree of the request's
  method and in the tree for all methods, hands the captured parameters over to the handler
  (params.go), and otherwise answers with a redirect, the OPTIONS answer, 405 or 404. Handlers,
  middleware and response helpers are in handler.go and response.go, listing and looking up
  routes in introspection.go.

  \<^bold>\<open>Theories, the routing tree (tree.go).\<close>
  \<^item> MuxPrelude: Go strings as byte lists, panics as a datatype with one constructor per panic of
    the sources, sequencing of computations that may panic, shared lemmas and lemma collections.
  \<^item> Pattern: findWildcard, expandOptional, the parameter counters, longestCommonPrefix, the
    case-folding comparison, utf8.ValidString.
  \<^item> RouteTree: the struct \<open>node\<close> (a record of its fields and a list of children) and addRoute,
    addRouteFast, insertRoute, insertChild, incrementChildPrio, walkLeaves. An error of addRoute
    is a panic, so each of them returns \<open>goPanic + node\<close>.
  \<^item> TreeLookup: getValue with its optimistic walk, getValueBacktrack with two inline frames and
    an overflow slice, getValueStatic, hasHandler, and the parameter buffer with three inline
    slots and an overflow slice. Recursion is on measures (the length of the remaining path and
    the size of the tree), proved to decrease, so there is no fuel: every walk terminates.
  \<^item> TreeSearch, TreeInsert, TreeMatch, TreeStatic, TreeControl: the lemmas. The walks refine one
    recursive search; an insertion into a well-formed tree (\<open>wfTree\<close>) adds exactly the entries of
    its expansions; the search finds exactly the best matching entry (\<open>matchPat\<close> says what a
    pattern matches); literal trees; walks with and without a buffer agree. The locale \<open>lifo\<close> is
    the contract of the frame stack, interpreted on its pushFrame and popFrame.
  \<^item> TreeProperties: C1 to C5, and the parameter counts, the buffer and the listing of a tree.

  \<^bold>\<open>Theories, the router.\<close>
  \<^item> HTTP: what is used of the standard library: URLs, the request and its context chain, the
    response writer, path.Clean, url.PathUnescape, html.EscapeString, http.Error. A handler is a
    function from the request and the writer to the writer it leaves and the panic it raised; the
    type variable 'w is everything else it can read and change.
  \<^item> Params: the accessors of params.go with strconv's integer and boolean parsers, PathParam,
    ParamsFromContext and RoutePattern.
  \<^item> Mount: the prefix test of Mount, mountedRawPath, rawPathRemainder, the prefix chain.
  \<^item> Redirect: buildRedirectTarget, the escape functions with their copy loops, writeRedirect, and
    net/http.Redirect beside it.
  \<^item> Handlers: the closures registration builds as a datatype \<open>handler\<close> with \<open>run\<close>, error handlers
    and response helpers, middleware wrapping, the five dispatchParams functions with their pools.
  \<^item> Mux: the struct \<open>Mux\<close> (record \<open>mux\<close>), handle, handleFast, Use, UseFast, Pre, Match, Mount,
    ServeFiles, Rebuild and the frozen configuration.
  \<^item> Dispatch: the decision of \<open>dispatch\<close>, the lazily built handlers for 404, 405, OPTIONS and
    redirects, allowed, cleanedPath, and ServeHTTP.
  \<^item> Serving: the specification without caches and pools (\<open>answer\<close>, \<open>serveSpec\<close>), and that the code
    refines it wherever the caches agree with the configuration (\<open>coherent\<close>). The locale \<open>memo\<close> is
    the contract of a table filled on demand, interpreted on the three caches.
  \<^item> RouterState: \<open>reachFrom\<close>, the steps of registrations, configuration changes and requests from
    one state to another, which also keep the routing table; \<open>reach\<close> is what a new router can
    reach; its invariants.
  \<^item> MuxDecision: the decision as the routing table determines it (\<open>decidedBy\<close>), given the
    trailing-slash hint of the search in the trees of the table (\<open>slashHint\<close>).
  \<^item> ServingProperties: C6 to C14, and pooling. RequestProperties: C15 to C19, and raw paths under
    mounts, the escape functions and fixed-path redirects.
  \<^item> Group, Introspection, LazyRedirect: group.go, introspection.go, and the lock-free cache of the
    redirect handler as an interleaving of single atomic accesses. RegistrationProperties: C20 to
    C23, and registration for several methods, nested groups, listing and walking.

  \<^bold>\<open>Theories, the middleware (package middleware).\<close>
  \<^item> MiddlewareBase: header names and values, strings.TrimSpace, strconv.QuoteToASCII, context
    values. Threads: counting the requests of an interleaving that satisfy a condition.
  \<^item> RequestPath (clean_path.go, strip_slashes.go), HeaderMiddleware (set_header.go, no_cache.go,
    with_value.go, timeout.go), Cors (cors.go), ClientAddr (real_ip.go, with the parsers of
    net/netip), RequestIdent (request_id.go, with the pool of random buffers as a step relation).
  \<^item> Throttle: the semaphore of ThrottleBacklog, one step per atomic access or channel operation of
    any number of requests; ThrottleTable and ThrottleTableSafe: the sharded table of
    ThrottlePerIP, its locks, reference counts, token channels and pool, and its invariant.
  \<^item> Credentials (basic_auth.go, api_key.go) and JWT (jwt_auth.go): requests are decided by plain
    functions; the int64 seconds of package time wrap around as they do there.
  \<^item> HeapOrder, TokenCache, TokenCacheSafe: the expiry heap and the token cache of oauth2.go over an
    explicit store of entries. The locale \<open>token_store\<close> is what the handler relies on, interpreted
    on the cache. OAuth2: construction, the introspection call, one request. TokenFlight: the
    coalescing of concurrent calls as a step relation \<open>flying\<close>, its invariant and its progress.
  \<^item> ResponseWriters: a response writer is a record of methods over any state, a handler is the list
    of its calls and the panic that ended it; Compress, Recoverer and the recorder of Logger are
    such writers over others. CompressSafe: the locale \<open>call_simulation\<close>, interpreted on Compress and
    on Recoverer, and the simulation of the plain response by the compressed one. LogLine: the
    line of Logger and the format of durations.
  \<^item> ThrottleProperties: C24 to C28. AuthProperties: C29 to C34. ResponseProperties: C35 to C40.

  \<^bold>\<open>Parameters of the model.\<close> \<open>regexLib\<close> is regexp.Compile with MatchString; \<open>libs\<close> holds whether
  http.Request has the context field the package finds by reflection, and whether url.Parse finds
  neither scheme nor host in a redirect target. Further parameters are the item a sync.Pool hands
  out, strconv.ParseFloat, the JSON and XML encoders, the file server behind ServeFiles and the
  names of functions; in the middleware SHA-256, the primitives of the crypto packages (a record of
  functions), the JSON decoders, url.Parse and URL.String, the HTTP client, the gzip codec, random
  bytes, the clock and the seeded hash of the throttle table. No property assumes more of them than
  it says: that SHA-256 does not collide on the strings at hand (C29), that the blocks of random
  bytes differ (C40), that a closed gzip stream decompresses to what went in (C35).

  \<^bold>\<open>Hypotheses on the table.\<close> What C1, C3, C4, C8 to C11 and C21 say holds for patterns that are
  \<open>routable\<close>: valid, with a regex token only at the end (\<open>registrable\<close> and \<open>tableOK\<close> say so of
  lists of routes). For a regex token inside a pattern the code is wrong, see below. The lookups
  are case-sensitive there, and the paths start with a slash.

  \<^bold>\<open>Bounds.\<close> Path lengths, tables and trees are unbounded. The parameter counters of a node are
  saturated at 255 as in the code (root_parameter_count). Int64, Uint64 and their ranges are written out in Params.
  The generation of the redirect cache, a uint64, is a natural number: 2 to the 64 calls of Use
  are out of reach. copyNode has no counterpart, since trees are values and a published tree
  cannot change; so nothing is claimed about the copying that keeps a refused registration from
  changing published nodes.

  \<^bold>\<open>Not modelled.\<close> The text of log messages; \<open>sizeof\<close> tricks and unsafe writes (what they
  achieve, a request with another context, is \<open>setReqCtxUnsafe\<close>); WriteHeader's panic on codes
  outside 100 to 999; middleware that returns a nil handler; public keys that are typed nil
  pointers; handlers that call the router they are registered on; running times and
  memory; errors of writes to a connection and writers that cannot be flushed; the goroutine
  that ends a context at its deadline. Concurrency is modelled where the package synchronises by
  hand: LazyRedirect, Throttle, ThrottleTable, RequestIdent and TokenFlight. The examples, reports
  and vendored routers are not part of the package.

  \<^bold>\<open>What is known to be wrong in the code.\<close> regex_sibling_suffix_lost, regex_duplicate_accepted,
  regex_sibling_suffix_panics and case_insensitive_sibling_shadowed in TreeProperties show states
  outside the invariant of the tree that the code can reach: two patterns that share a regex
  segment and go on, also the same pattern twice, and a case-insensitive walk that does not try a
  second sibling. Where the specification and the code disagree: integers out of range (C15) and
  inbound request identifiers that are not valid (C40).
  In the middleware: the default key of ThrottlePerIP behind RealIP (C28), a client that panics
  (panicking_leader_blocks), answers older than the cache's TTL (stale_answer_served), times that
  wrap (far_not_before_wraps), a panic under Compress (compress_hides_panic), and a status that is
  set after output (logger_late_status).
\<close>

end
